(* ===== verification/Prelude.thy ===== *)
theory Prelude
  imports Main "HOL-Library.Word" "HOL-Library.AList" "HOL-Library.Char_ord" "HOL-Library.List_Lexorder"
begin

text \<open>
  Shared vocabulary of the ZippyFS development.

  \<^item> machine integer types, the faults a C++ operation can end in, and the result type;
  \<^item> C strings (\<open>c_str\<close>, \<open>strcmp\<close>) with the fact that \<open>strcmp\<close> decides the
    lexicographic order of the library;
  \<^item> the two containers of the C++ standard library that the program iterates over:
    \<open>std::map\<close> as an association list kept in key order (\<open>omap_put\<close>) and
    \<open>std::unordered_map\<close> as an association list without an order (\<open>AList.update\<close>),
    with the interface \<open>cpp_map\<close> both provide;
  \<^item> array lemmas (positional insertion, copy loops) for the B+tree and the blocks.
\<close>

section \<open>Types, faults and results\<close>

type_synonym u8 = "8 word"
type_synonym u32 = "32 word"
type_synonym u64 = "64 word"

text \<open>
  What ends an operation other than a return: an uncaught exception, a failed
  \<open>assert\<close>, or an access outside the object it is meant for, which C++ leaves
  undefined and the model reports as a fault of its own.
\<close>

datatype fault =
    Domain_Error string
  | Assert_Failed
  | Null_Deref
  | Unmapped
  | Bad_Iterator
  | Array_Overread
  | Region_Overflow

type_synonym 'a result = "fault + 'a"

named_theorems struct_defs \<open>definitions that build or update one record\<close>
named_theorems array_simps \<open>positional facts about arrays written by index\<close>

section \<open>C strings\<close>

text \<open>The characters before the terminating NUL, as \<open>std::string(char*)\<close> and every \<open>str*\<close> function read them.\<close>

definition c_str :: "char list \<Rightarrow> string" where
  "c_str cs = takeWhile (\<lambda>c. c \<noteq> CHR 0x00) cs"

text \<open>
  \<open>strcmp\<close> on the characters before the NUL: the difference of the first two
  unsigned characters that differ, the terminator counting as 0.
\<close>

fun strcmp :: "string \<Rightarrow> string \<Rightarrow> int" where
  "strcmp [] [] = 0"
| "strcmp [] (y # ys) = - of_char y"
| "strcmp (x # xs) [] = of_char x"
| "strcmp (x # xs) (y # ys) = (if x = y then strcmp xs ys else of_char x - of_char y)"

definition nul_free :: "string \<Rightarrow> bool" where
  "nul_free s \<longleftrightarrow> CHR 0x00 \<notin> set s"

section \<open>Containers and arrays\<close>

fun omap_put :: "'k::linorder \<Rightarrow> 'v \<Rightarrow> ('k \<times> 'v) list \<Rightarrow> ('k \<times> 'v) list" where
  "omap_put k v [] = [(k, v)]"
| "omap_put k v ((k', v') # m) =
     (if k = k' then (k, v) # m
      else if k < k' then (k, v) # (k', v') # m
      else (k', v') # omap_put k v m)"

definition insert_at :: "nat \<Rightarrow> 'a \<Rightarrow> 'a list \<Rightarrow> 'a list" where
  "insert_at i x xs = take i xs @ x # drop i xs"

section \<open>Lemmas on C strings\<close>

lemma of_char_pos: "c \<noteq> CHR 0x00 \<Longrightarrow> (0::nat) < of_char c"
proof (rule gr0I)
  assume "c \<noteq> CHR 0x00" and "of_char c = (0::nat)"
  then have "c = char_of (0::nat)" by (metis char_of_char)
  then show False using \<open>c \<noteq> CHR 0x00\<close> by (simp add: char_of_def)
qed

lemma of_char_int: "(of_char c :: int) = int (of_char c)"
  by (simp add: of_nat_of_char)

lemma strcmp_order:
  "nul_free a \<Longrightarrow> nul_free b \<Longrightarrow> (strcmp a b < 0 \<longleftrightarrow> a < b) \<and> (strcmp a b = 0 \<longleftrightarrow> a = b)"
proof (induction a b rule: strcmp.induct)
  case (2 y ys)
  then have "(0::nat) < of_char y" by (intro of_char_pos) (auto simp: nul_free_def)
  then show ?case by (simp add: of_char_int)
next
  case (3 x xs)
  then have "(0::nat) < of_char x" by (intro of_char_pos) (auto simp: nul_free_def)
  then show ?case by (simp add: of_char_int)
next
  case (4 x xs y ys)
  have "x \<noteq> y \<Longrightarrow> (of_char x :: nat) \<noteq> of_char y" by simp
  with 4 show ?case by (auto simp: nul_free_def of_char_int less_char_def)
qed simp

lemma nul_free_c_str [simp]: "nul_free (c_str cs)"
  by (auto simp: nul_free_def c_str_def dest: set_takeWhileD)

lemma c_str_nul_free: "nul_free s \<Longrightarrow> c_str s = s"
  by (auto simp: nul_free_def c_str_def takeWhile_eq_all_conv)

lemma c_str_terminated: "nul_free s \<Longrightarrow> c_str (s @ CHR 0x00 # r) = s"
  by (auto simp: nul_free_def c_str_def takeWhile_append)

lemma strcmp_lt: "nul_free a \<Longrightarrow> nul_free b \<Longrightarrow> strcmp a b < 0 \<longleftrightarrow> a < b"
  by (simp add: strcmp_order)

lemma strcmp_eq: "nul_free a \<Longrightarrow> nul_free b \<Longrightarrow> strcmp a b = 0 \<longleftrightarrow> a = b"
  by (simp add: strcmp_order)

lemma strcmp_gt: "nul_free a \<Longrightarrow> nul_free b \<Longrightarrow> 0 < strcmp a b \<longleftrightarrow> b < a"
  using strcmp_order [of a b] by (metis less_linear order_less_asym order_less_irrefl)

lemma strcmp_le: "nul_free a \<Longrightarrow> nul_free b \<Longrightarrow> strcmp a b \<le> 0 \<longleftrightarrow> a \<le> b"
  using strcmp_gt by (meson linorder_not_less)

lemma strcmp_ge: "nul_free a \<Longrightarrow> nul_free b \<Longrightarrow> 0 \<le> strcmp a b \<longleftrightarrow> b \<le> a"
  using strcmp_lt by (meson linorder_not_less)

lemmas strcmp_iffs = strcmp_lt strcmp_eq strcmp_gt strcmp_le strcmp_ge

section \<open>The interface of the C++ maps\<close>

text \<open>
  What the program relies on when it writes \<open>m[k] = v\<close> and later looks \<open>k\<close> up,
  whichever of the two containers \<open>m\<close> is.
\<close>

locale cpp_map =
  fixes put :: "'k \<Rightarrow> 'v \<Rightarrow> ('k \<times> 'v) list \<Rightarrow> ('k \<times> 'v) list"
    and ok :: "('k \<times> 'v) list \<Rightarrow> bool"
  assumes find_put: "map_of (put k v m) = (map_of m)(k \<mapsto> v)"
    and ok_empty: "ok []"
    and ok_put: "ok m \<Longrightarrow> ok (put k v m)"
    and ok_distinct: "ok m \<Longrightarrow> distinct (map fst m)"
begin

lemma dom_put: "fst ` set (put k v m) = insert k (fst ` set m)"
  by (metis dom_fun_upd dom_map_of_conv_image_fst find_put option.distinct(1))

lemma set_put:
  assumes "ok m"
  shows "set (put k v m) = insert (k, v) {e \<in> set m. fst e \<noteq> k}"
proof -
  have d: "distinct (map fst m)" "distinct (map fst (put k v m))"
    using assms ok_put ok_distinct by blast+
  have "(a, b) \<in> set (put k v m) \<longleftrightarrow> (a, b) \<in> insert (k, v) {e \<in> set m. fst e \<noteq> k}" for a b
    using find_put [of k v m] map_of_eq_Some_iff [OF d(1), of a b] map_of_eq_Some_iff [OF d(2), of a b]
    by (auto simp: eq_commute split: if_splits)
  then show ?thesis by auto
qed

lemma length_put:
  assumes "ok m"
  shows "length (put k v m) = (if k \<in> fst ` set m then length m else Suc (length m))"
proof -
  have "length (map fst (put k v m)) = card (fst ` set (put k v m))"
    using assms ok_put ok_distinct by (metis distinct_card list.set_map)
  moreover have "length (map fst m) = card (fst ` set m)"
    using assms ok_distinct by (metis distinct_card list.set_map)
  ultimately show ?thesis by (simp add: dom_put card_insert_if)
qed

lemma find_put_all:
  "map_of (fold (\<lambda>(k, v). put k v) kvs m) = map_of m ++ map_of (rev kvs)"
  by (induction kvs arbitrary: m) (auto simp: find_put map_add_def fun_eq_iff split: option.splits)

end

lemma omap_put_find: "map_of (omap_put k v m) = (map_of m)(k \<mapsto> v)"
  by (induction k v m rule: omap_put.induct) (auto simp: fun_eq_iff)

lemma omap_put_keys: "set (map fst (omap_put k v m)) = insert k (set (map fst m))"
  by (induction k v m rule: omap_put.induct) auto

lemma omap_put_sorted:
  "sorted_wrt (<) (map fst m) \<Longrightarrow> sorted_wrt (<) (map fst (omap_put k v m))"
  using omap_put_keys [of k v] by (induction k v m rule: omap_put.induct) auto

interpretation omap: cpp_map "omap_put :: 'k::linorder \<Rightarrow> 'v \<Rightarrow> _" "\<lambda>m. sorted_wrt (<) (map fst m)"
proof unfold_locales
  show "sorted_wrt (<) (map fst m) \<Longrightarrow> distinct (map fst m)" for m :: "('k \<times> 'v) list"
    by (simp add: strict_sorted_iff)
qed (simp_all add: omap_put_find omap_put_sorted)

interpretation umap: cpp_map "AList.update :: 'k \<Rightarrow> 'v \<Rightarrow> _" "\<lambda>m. distinct (map fst m)"
  by unfold_locales (auto simp: update_conv' distinct_update)

section \<open>Word lemmas\<close>

lemma unat_ucast_32_64 [simp]: "unat (ucast (x::u32) :: u64) = unat x"
proof -
  have "unat x < 2 ^ 32" by (rule order_less_le_trans [OF unsigned_less]) simp
  then show ?thesis by (simp add: unsigned_ucast_eq take_bit_nat_eq_self)
qed

lemma unat_ucast_64_32 [simp]: "unat (ucast (x::u64) :: u32) = unat x mod 2 ^ 32"
  by (simp add: unsigned_ucast_eq take_bit_eq_mod)

lemma unat_add_small: "unat a + unat b < 2 ^ LENGTH('a) \<Longrightarrow> unat (a + b) = unat a + unat (b :: 'a::len word)"
  by (simp add: unat_word_ariths)

section \<open>Array lemmas\<close>

lemma length_insert_at [simp]: "length (insert_at i x xs) = Suc (length xs)"
  by (simp add: insert_at_def)

lemma set_insert_at [simp]: "set (insert_at i x xs) = insert x (set xs)"
  by (metis append_take_drop_id insert_at_def list.simps(15) set_append Un_insert_right)

lemma map_insert_at: "map f (insert_at i x xs) = insert_at i (f x) (map f xs)"
  by (simp add: insert_at_def take_map drop_map)

lemma nth_insert_at:
  "i \<le> length xs \<Longrightarrow> j \<le> length xs \<Longrightarrow>
    insert_at i x xs ! j = (if j < i then xs ! j else if j = i then x else xs ! (j - 1))"
  by (auto simp: insert_at_def nth_append min_def nth_Cons' add.commute split: if_splits)

end
