(* ===== verification/Block.thy ===== *)
theory Block
  imports Prelude
begin

text \<open>
  \<^verbatim>\<open>src/block.h\<close> and \<^verbatim>\<open>src/block.cpp\<close>: one 4096-byte block of a file.
  The record \<open>block\<close> has the members of class \<open>Block\<close>; \<open>block_new\<close> and
  \<open>block_of\<close> are its constructors; \<open>insert_data\<close> copies a caller's bytes in and
  \<open>get_data\<close> reads the used prefix back. The member \<open>dirty_\<close>, which the second
  constructor leaves uninitialised, is then \<open>None\<close>.
\<close>

section \<open>Data and operations\<close>

abbreviation SIZE :: nat where
  "SIZE \<equiv> 4096"

record block =
  blk_actual_size :: u64
  blk_data :: "u8 list"
  blk_dirty :: "bool option"
  blk_has_data :: bool

definition get_physical_size :: u64 where
  "get_physical_size = 4096"

definition block_new :: block where
  "block_new = \<lparr>blk_actual_size = 0, blk_data = replicate SIZE 0, blk_dirty = Some False, blk_has_data = False\<rparr>"

text \<open>
  The copy loop of \<open>insert_data\<close>. Its counters are 32-bit, the size is 64-bit:
  \<open>ii\<close> starts at the offset truncated to 32 bits.
\<close>

function insert_loop :: "u8 list \<Rightarrow> u64 \<Rightarrow> u32 \<Rightarrow> u32 \<Rightarrow> u8 list \<Rightarrow> u8 list" where
  "insert_loop buf sz ii jj arr =
     (if (ucast jj :: u64) < sz \<and> ii < 4096
      then insert_loop buf sz (ii + 1) (jj + 1) (arr[unat ii := buf ! unat jj])
      else arr)"
  by pat_completeness auto
termination
  by (relation "measure (\<lambda>(buf, sz, ii, jj, arr). SIZE - unat ii)")
    (auto simp: word_less_nat_alt unat_word_ariths)

declare insert_loop.simps [simp del]

definition insert_data :: "block \<Rightarrow> u8 list \<Rightarrow> u64 \<Rightarrow> u64 \<Rightarrow> block" where
  "insert_data b buf sz offset =
     (let b1 = b\<lparr>blk_data := insert_loop buf sz (ucast offset) 0 (blk_data b)\<rparr>
      in if sz + offset > blk_actual_size b1 then b1\<lparr>blk_actual_size := sz + offset\<rparr> else b1)"

definition block_of :: "u8 list \<Rightarrow> u64 \<Rightarrow> block" where
  "block_of buf sz =
     insert_data \<lparr>blk_actual_size = 0, blk_data = replicate SIZE 0, blk_dirty = None, blk_has_data = False\<rparr> buf sz 0"

definition block_insert :: "block \<Rightarrow> u8 list \<Rightarrow> u64 \<Rightarrow> u64 \<Rightarrow> block \<times> int" where
  "block_insert b buf sz offset = (insert_data b buf sz offset, 0)"

definition block_set_dirty :: "block \<Rightarrow> block" where
  "block_set_dirty b = b\<lparr>blk_dirty := Some True\<rparr>"

definition block_is_dirty :: "block \<Rightarrow> bool option" where
  "block_is_dirty b = blk_dirty b"

definition get_actual_size :: "block \<Rightarrow> u64" where
  "get_actual_size b = blk_actual_size b"

definition get_data_ar :: "block \<Rightarrow> u8 list" where
  "get_data_ar b = blk_data b"

text \<open>
  \<open>get_data\<close> builds a vector from the range \<open>data_.begin()\<close> to
  \<open>data_.begin() + actual_size_\<close>, which leaves the array when the recorded size is
  larger than the array.
\<close>

definition get_data :: "block \<Rightarrow> u8 list result" where
  "get_data b =
     (if unat (blk_actual_size b) \<le> SIZE then Inr (take (unat (blk_actual_size b)) (blk_data b))
      else Inl Array_Overread)"

section \<open>Invariant\<close>

definition block_inv :: "block \<Rightarrow> bool" where
  "block_inv b \<longleftrightarrow> length (blk_data b) = SIZE \<and> unat (blk_actual_size b) \<le> SIZE"

section \<open>The copy loop\<close>

lemma length_insert_loop [simp]: "length (insert_loop buf sz ii jj arr) = length arr"
proof (induction buf sz ii jj arr rule: insert_loop.induct)
  case (1 buf sz ii jj arr)
  then show ?case by (subst insert_loop.simps) simp
qed

lemma nth_insert_loop:
  assumes "length arr = SIZE" "k < SIZE" "unat jj \<le> unat ii"
  shows "insert_loop buf sz ii jj arr ! k =
     (if unat ii \<le> k \<and> unat jj + (k - unat ii) < unat sz
      then buf ! (unat jj + (k - unat ii)) else arr ! k)"
  using assms
proof (induction buf sz ii jj arr rule: insert_loop.induct)
  case (1 buf sz ii jj arr)
  have uj: "unat ((ucast jj :: u64)) = unat jj"
    by simp
  show ?case
  proof (cases "(ucast jj :: u64) < sz \<and> ii < 4096")
    case True
    then have lt: "unat jj < unat sz" "unat ii < SIZE"
      using uj by (auto simp: word_less_nat_alt)
    then have s: "unat (ii + 1) = Suc (unat ii)" "unat (jj + 1) = Suc (unat jj)"
      using 1(4) by (auto simp: unat_word_ariths)
    show ?thesis
      using True 1 lt s by (subst insert_loop.simps) (auto simp: nth_list_update Suc_diff_Suc)
  next
    case False
    then have "unat sz \<le> unat jj \<or> SIZE \<le> unat ii"
      using uj by (auto simp: word_less_nat_alt)
    then show ?thesis
      using False 1 by (subst insert_loop.simps) auto
  qed
qed

lemma insert_loop_eq:
  assumes "length arr = SIZE" "unat ii + unat sz \<le> SIZE" "unat sz \<le> length buf"
  shows "insert_loop buf sz ii 0 arr =
     take (unat ii) arr @ take (unat sz) buf @ drop (unat ii + unat sz) arr"
proof (rule nth_equalityI)
  show "length (insert_loop buf sz ii 0 arr) =
      length (take (unat ii) arr @ take (unat sz) buf @ drop (unat ii + unat sz) arr)"
    using assms by simp
next
  fix k assume "k < length (insert_loop buf sz ii 0 arr)"
  then show "insert_loop buf sz ii 0 arr ! k =
      (take (unat ii) arr @ take (unat sz) buf @ drop (unat ii + unat sz) arr) ! k"
    using assms by (auto simp: nth_insert_loop nth_append min_def)
qed

section \<open>What the operations do\<close>

lemma insert_data_size:
  "blk_actual_size (insert_data b buf sz offset) = max (blk_actual_size b) (sz + offset)"
  by (auto simp: insert_data_def Let_def max_def)

lemma length_insert_data: "length (blk_data (insert_data b buf sz offset)) = length (blk_data b)"
  by (simp add: insert_data_def Let_def)

lemma insert_data_bytes:
  assumes "block_inv b" "unat offset + unat sz \<le> SIZE" "unat sz \<le> length buf"
  shows "blk_data (insert_data b buf sz offset) =
     take (unat offset) (blk_data b) @ take (unat sz) buf
       @ drop (unat offset + unat sz) (blk_data b)"
proof -
  have "unat (ucast offset :: u32) = unat offset"
    using assms(2) by (simp add: take_bit_nat_eq_self)
  then show ?thesis
    using assms by (simp add: insert_data_def Let_def block_inv_def insert_loop_eq)
qed

lemma insert_data_inv:
  assumes "block_inv b" "unat offset + unat sz \<le> SIZE"
  shows "block_inv (insert_data b buf sz offset)"
proof -
  have "unat (sz + offset) = unat sz + unat offset"
    using assms(2) by (intro unat_add_small) simp
  with assms(2) have "unat (sz + offset) \<le> SIZE" by linarith
  with assms(1) show ?thesis
    by (simp add: block_inv_def insert_data_size max_def length_insert_data)
qed

lemma block_of_bytes:
  assumes "unat sz \<le> SIZE" "unat sz \<le> length buf"
  shows "block_inv (block_of buf sz) \<and> get_data (block_of buf sz) = Inr (take (unat sz) buf)
    \<and> blk_actual_size (block_of buf sz) = sz"
proof -
  let ?b = "\<lparr>blk_actual_size = 0, blk_data = replicate SIZE 0, blk_dirty = None, blk_has_data = False\<rparr> :: block"
  have inv: "block_inv ?b" by (simp add: block_inv_def)
  have "blk_data (block_of buf sz) = take (unat sz) buf @ drop (unat sz) (replicate SIZE 0)"
    using insert_data_bytes [OF inv, of 0 sz buf] assms by (simp add: block_of_def)
  moreover have "blk_actual_size (block_of buf sz) = sz"
    by (simp add: block_of_def insert_data_size max_def)
  moreover have "block_inv (block_of buf sz)"
    using insert_data_inv [OF inv, of 0 sz buf] assms(1) by (simp add: block_of_def)
  ultimately show ?thesis using assms by (simp add: get_data_def)
qed

section \<open>Properties\<close>

text \<open>
  (C36) \<open>Block::insert\<close> of \<open>sz\<close> bytes at \<open>offset\<close>, when they fit into the block,
  stores exactly these bytes at exactly that position, keeps every other byte, records as
  the used size the larger of the old size and the end of the write, returns 0, and keeps
  the block well formed (an array of 4096 bytes, at most that many of them used).
\<close>

theorem block_insert_spec:
  assumes "block_inv b" "unat offset + unat sz \<le> SIZE" "unat sz \<le> length buf"
  shows "\<exists>b'. block_insert b buf sz offset = (b', 0) \<and> block_inv b'
    \<and> blk_data b' = take (unat offset) (blk_data b) @ take (unat sz) buf
        @ drop (unat offset + unat sz) (blk_data b)
    \<and> unat (blk_actual_size b') = max (unat (blk_actual_size b)) (unat offset + unat sz)"
proof -
  have "unat (sz + offset) = unat offset + unat sz"
    using assms(2) unat_add_small [of sz offset] by simp
  then show ?thesis
    using insert_data_inv [OF assms(1,2)] insert_data_bytes [OF assms]
    by (simp add: block_insert_def insert_data_size max_def word_le_nat_alt)
qed

theorem block_insert_spec_witness:
  "\<exists>b'. block_insert block_new [7, 8, 9] 2 4094 = (b', 0) \<and> block_inv b'
    \<and> blk_data b' = take 4094 (blk_data block_new) @ [7, 8] @ drop 4096 (blk_data block_new)
    \<and> unat (blk_actual_size b') = 4096"
  using block_insert_spec [of block_new 4094 2 "[7, 8, 9]"]
  by (simp add: block_inv_def block_new_def)

text \<open>
  A block constructed from the first \<open>sz\<close> bytes of a buffer gives these bytes back
  from \<open>get_data\<close>, for every size up to the physical size.
\<close>

theorem block_of_get_data:
  assumes "unat sz \<le> SIZE" "unat sz \<le> length buf"
  shows "get_data (block_of buf sz) = Inr (take (unat sz) buf)"
  using block_of_bytes [OF assms] by simp

theorem block_of_get_data_witness:
  "get_data (block_of [1, 2, 3, 4] 3) = Inr [1, 2, 3]"
  using block_of_get_data [of 3 "[1, 2, 3, 4]"] by simp

text \<open>
  A write that reaches past the end of the block is cut off in the array but not in
  the recorded size: the block then claims more bytes than it has, and \<open>get_data\<close> reads
  outside the array. The header promises a \<open>domain_error\<close> instead.
\<close>

theorem block_insert_past_end:
  assumes "length (blk_data b) = SIZE" "SIZE < unat offset + unat sz"
    "unat offset + unat sz < 2 ^ 64"
  shows "get_data (fst (block_insert b buf sz offset)) = Inl Array_Overread"
proof -
  have "unat (sz + offset) = unat offset + unat sz"
    using assms(3) unat_add_small [of sz offset] by simp
  then show ?thesis
    using assms(2) by (simp add: block_insert_def get_data_def insert_data_size max_def word_le_nat_alt)
qed

theorem block_insert_past_end_witness:
  "get_data (fst (block_insert block_new [1, 2] 2 4095)) = Inl Array_Overread"
  using block_insert_past_end [of block_new 4095 2 "[1, 2]"] by (simp add: block_new_def)

end
