(* ===== verification/Util.thy ===== *)
theory Util
  imports Prelude
begin

unbundle bit_operations_syntax

text \<open>
  \<^verbatim>\<open>src/util.h\<close>: the static helpers of class \<open>Util\<close>.
  Two functions are not the program's: libsodium's \<open>crypto_generichash\<close> is the parameter
  \<open>generichash\<close> (a function from the hashed bytes to the digest), and the bytes that the
  \<open>getrandom\<close> system call returns are the parameter \<open>num\<close>. A clock reading is the
  value of type \<open>timespec\<close> that the system clock has at the call.
\<close>

section \<open>Arithmetic and time\<close>

definition ulong_ceil :: "u64 \<Rightarrow> u64 \<Rightarrow> u64" where
  "ulong_ceil a b = (if a mod b = 0 then a div b else (a div b) + 1)"

record timespec =
  tv_sec :: u64
  tv_nsec :: u64

text \<open>\<open>gettimeofday\<close> reports the clock in microseconds; \<open>get_time\<close> is in milliseconds.\<close>

definition get_time :: "timespec \<Rightarrow> u64" where
  "get_time tv = tv_sec tv * 1000 + (tv_nsec tv div 1000) div 1000"

definition get_time_ts :: "u64 \<Rightarrow> timespec" where
  "get_time_ts millisec = \<lparr>tv_sec = millisec div 1000, tv_nsec = (millisec mod 1000) * 1000000\<rparr>"

section \<open>Checksum\<close>

definition crc64_step :: "u64 \<Rightarrow> u64" where
  "crc64_step crc =
     (let special_bits = 0xDEADBEEFABCD1234;
          mask = (- (crc AND 1)) XOR special_bits
      in drop_bit 1 (crc XOR mask))"

text \<open>The message is read up to its NUL; each of its bytes goes through seven rounds.\<close>

fun crc64_loop :: "u64 \<Rightarrow> string \<Rightarrow> u64" where
  "crc64_loop crc [] = crc"
| "crc64_loop crc (c # cs) = crc64_loop ((crc64_step ^^ 7) (crc XOR of_char c)) cs"

definition crc64 :: "string \<Rightarrow> u64" where
  "crc64 message = crc64_loop 0xFFFFFFFFFFFFFFFF (c_str message)"

text \<open>\<open>strstr\<close>: the suffix that starts at the first occurrence.\<close>

fun strstr :: "string \<Rightarrow> string \<Rightarrow> string option" where
  "strstr [] pat = (if pat = [] then Some [] else None)"
| "strstr (c # cs) pat = (if take (length pat) (c # cs) = pat then Some (c # cs) else strstr cs pat)"

text \<open>\<open>strtoull\<close> in base 10: white space, an optional sign, digits; the value saturates.\<close>

definition is_digit :: "char \<Rightarrow> bool" where
  "is_digit c \<longleftrightarrow> 48 \<le> (of_char c :: nat) \<and> (of_char c :: nat) \<le> 57"

definition is_space :: "char \<Rightarrow> bool" where
  "is_space c \<longleftrightarrow> (of_char c :: nat) = 32 \<or> (9 \<le> (of_char c :: nat) \<and> (of_char c :: nat) \<le> 13)"

definition digits_value :: "string \<Rightarrow> nat" where
  "digits_value ds = fold (\<lambda>d n. 10 * n + (of_char d - 48)) ds 0"

definition strtoull :: "string \<Rightarrow> u64" where
  "strtoull s =
     (let s1 = dropWhile is_space s;
          neg = (s1 \<noteq> [] \<and> hd s1 = CHR ''-'');
          s2 = (if s1 \<noteq> [] \<and> (hd s1 = CHR ''-'' \<or> hd s1 = CHR ''+'') then tl s1 else s1);
          n = digits_value (takeWhile is_digit s2)
      in if 2 ^ 64 \<le> n then 0xFFFFFFFFFFFFFFFF
         else if neg then - of_nat n else of_nat n)"

definition verify_checksum :: "string \<Rightarrow> int" where
  "verify_checksum contents =
     (let contents_cpy = c_str contents
      in case strstr contents_cpy ''CHECKSUM'' of
           None \<Rightarrow> -1
         | Some checksum \<Rightarrow>
             (let body = take (length contents_cpy - length checksum) contents_cpy;
                  checksum_val = strtoull (drop 8 checksum);
                  new_checksum = crc64 body
              in if new_checksum \<noteq> checksum_val then -1 else 0))"

text \<open>\<open>std::to_string\<close> of an unsigned number.\<close>

fun to_string :: "nat \<Rightarrow> string" where
  "to_string n = (if n < 10 then [char_of (48 + n)] else to_string (n div 10) @ [char_of (48 + n mod 10)])"

declare to_string.simps [simp del]

definition int_to_string :: "int \<Rightarrow> string" where
  "int_to_string n = (if n < 0 then ''-'' else []) @ to_string (nat \<bar>n\<bar>)"

section \<open>Hexadecimal names and hashes\<close>

definition hex_digit :: "nat \<Rightarrow> char" where
  "hex_digit n = (if n < 10 then char_of (48 + n) else char_of (55 + n))"

text \<open>
  \<open>sprintf(_, "%02X", c)\<close> of a \<open>char\<close>: the argument is promoted to \<open>int\<close> with its
  sign, so a byte of 128 and above prints as eight digits.
\<close>

definition sprintf_02X :: "u8 \<Rightarrow> string" where
  "sprintf_02X c =
     (if unat c < 128 then [] else ''FFFFFF'')
       @ [hex_digit (unat c div 16), hex_digit (unat c mod 16)]"

text \<open>
  A string and its NUL stored at a position of a character buffer. What is stored past
  the end of the buffer goes to the memory behind it: the list grows.
\<close>

definition poke :: "nat \<Rightarrow> string \<Rightarrow> char list \<Rightarrow> char list" where
  "poke pos s mem = take pos mem @ s @ CHR 0x00 # drop (pos + length s + 1) mem"

definition hex_buffer :: "u8 list \<Rightarrow> char list" where
  "hex_buffer binary =
     fold (\<lambda>i hex. poke (i * 2) (sprintf_02X (binary ! i)) hex)
       [0..<length binary] (replicate (length binary * 2 + 1) (CHR 0x00))"

definition binary_to_hex :: "u8 list \<Rightarrow> string" where
  "binary_to_hex binary = c_str (hex_buffer binary)"

definition generate_rand_hex_name :: "u8 list \<Rightarrow> string" where
  "generate_rand_hex_name num = c_str (hex_buffer num)"

text \<open>
  \<open>crypto_hash\<close> copies the content with \<open>strcpy\<close> into a zeroed array of its length and
  hashes the whole array.
\<close>

definition crypto_hash :: "(char list \<Rightarrow> u8 list) \<Rightarrow> string \<Rightarrow> string" where
  "crypto_hash generichash content =
     (let c_len = length content;
          ccontent = c_str content @ replicate (c_len - length (c_str content)) (CHR 0x00)
      in binary_to_hex (generichash ccontent))"

text \<open>\<open>path.substr(0, path.find_last_of("/"))\<close>; with no slash the position is \<open>npos\<close> and the whole path is taken.\<close>

definition parent_path :: "string \<Rightarrow> string" where
  "parent_path path =
     (if CHR ''/'' \<in> set path
      then rev (tl (dropWhile (\<lambda>c. c \<noteq> CHR ''/'') (rev path))) else path)"

definition generate_inode_hash :: "(char list \<Rightarrow> u8 list) \<Rightarrow> string \<Rightarrow> string" where
  "generate_inode_hash generichash path =
     (let hash = crypto_hash generichash path;
          p = parent_path path;
          p' = (if length p = 0 then ''ROOT'' else p);
          phash = crypto_hash generichash p'
      in phash @ ''-'' @ hash)"

definition generate_fname :: "(char list \<Rightarrow> u8 list) \<Rightarrow> u8 list \<Rightarrow> string \<Rightarrow> string" where
  "generate_fname generichash num path =
     (let hash = crypto_hash generichash path;
          rand_bits = generate_rand_hex_name num;
          p = parent_path path;
          p' = (if length p = 0 then ''ROOT'' else p);
          phash = crypto_hash generichash p'
      in phash @ ''.'' @ hash @ ''-'' @ rand_bits @ ''.meta'')"

text \<open>\<open>substr(0, size() - 5)\<close>: the count wraps for names shorter than five characters, and then the whole name is kept.\<close>

definition generate_dataname :: "string \<Rightarrow> string" where
  "generate_dataname meta_file =
     (let dfile = (if length meta_file < 5 then meta_file else take (length meta_file - 5) meta_file)
      in dfile @ ''.data'')"

section \<open>Arithmetic lemmas\<close>

lemma ceil_div_nat:
  assumes "0 < (b::nat)"
  shows "(a + b - 1) div b = (if a mod b = 0 then a div b else a div b + 1)"
proof -
  have a: "a = a div b * b + a mod b" by simp
  show ?thesis
  proof (cases "a mod b = 0")
    case True
    then have "a + b - 1 = (b - 1) + a div b * b"
      using a assms by linarith
    then have "(a + b - 1) div b = ((b - 1) + a div b * b) div b" by simp
    also have "\<dots> = a div b + (b - 1) div b" by (rule div_mult_self1) (use assms in simp)
    finally show ?thesis using True assms by simp
  next
    case False
    then have "a + b - 1 = (a mod b - 1) + (a div b * b + b)"
      using a by linarith
    then have "a + b - 1 = (a mod b - 1) + (a div b + 1) * b"
      by (simp add: algebra_simps)
    then have "(a + b - 1) div b = ((a mod b - 1) + (a div b + 1) * b) div b" by simp
    also have "\<dots> = a div b + 1 + (a mod b - 1) div b"
      by (rule div_mult_self1) (use assms in simp)
    also have "(a mod b - 1) div b = 0"
      using assms mod_less_divisor [of b a] by (intro div_less) linarith
    finally show ?thesis using False by simp
  qed
qed

lemma unat_ulong_ceil:
  assumes "b \<noteq> 0"
  shows "unat (ulong_ceil a b) = (unat a + unat b - 1) div unat b"
proof -
  have b: "0 < unat b" using assms by (simp add: unat_gt_0)
  have eq0: "a mod b = 0 \<longleftrightarrow> unat a mod unat b = 0"
    by (metis unat_mod_distrib unat_eq_zero)
  have "unat (a div b + 1) = unat a div unat b + 1" if "unat a mod unat b \<noteq> 0"
  proof -
    have "unat b \<noteq> 1" using that by auto
    then have "2 \<le> unat b" using b by linarith
    then have "unat a div unat b \<le> unat a div 2" by (simp add: div_le_mono2)
    moreover have "unat a < 18446744073709551616" using unsigned_less [of a] by simp
    ultimately have "unat a div unat b + 1 < 18446744073709551616" by linarith
    then show ?thesis using unat_add_small [of "a div b" 1] by (simp add: unat_div_distrib)
  qed
  then show ?thesis
    using ceil_div_nat [OF b, of "unat a"] by (simp add: ulong_ceil_def eq0 unat_div_distrib)
qed

lemma get_time_of_ts: "get_time (get_time_ts ms) = ms"
proof -
  have m: "unat (ms mod 1000) < 1000" by (simp add: unat_mod_distrib)
  have "unat ((ms mod 1000) * 1000000) = unat (ms mod 1000) * 1000000"
    using m by (simp add: unat_word_ariths)
  then have "unat (((ms mod 1000) * 1000000) div 1000 div 1000) = unat (ms mod 1000)"
    by (simp add: unat_div_distrib)
  then have "((ms mod 1000) * 1000000) div 1000 div 1000 = ms mod 1000"
    by (simp only: word_unat_eq_iff)
  moreover have "ms div 1000 * 1000 + ms mod 1000 = ms"
    by (rule div_mult_mod_eq)
  ultimately show ?thesis by (simp add: get_time_def get_time_ts_def)
qed

section \<open>What the hexadecimal loop leaves in its buffer\<close>

text \<open>
  Every byte but the last keeps the first two characters of its print; the print of the
  last byte stays whole.
\<close>

definition hex_pair :: "u8 \<Rightarrow> string" where
  "hex_pair c = take 2 (sprintf_02X c)"

lemma length_sprintf_02X: "length (sprintf_02X c) = (if unat c < 128 then 2 else 8)"
  by (simp add: sprintf_02X_def)

lemma length_hex_pair [simp]: "length (hex_pair c) = 2"
  by (simp add: hex_pair_def length_sprintf_02X)

lemma length_hex_pairs [simp]: "length (concat (map hex_pair bs)) = 2 * length bs"
  by (induction bs) auto

lemma hex_digit_not_nul: "n < 16 \<Longrightarrow> hex_digit n \<noteq> CHR 0x00"
proof
  assume n: "n < 16" and nul: "hex_digit n = CHR 0x00"
  have "of_char (hex_digit n) = (if n < 10 then 48 + n else 55 + n)"
    using n by (simp add: hex_digit_def)
  moreover have "of_char (hex_digit n) = (0::nat)" by (subst nul) simp
  ultimately show False by (simp split: if_splits)
qed

lemma nul_free_sprintf_02X: "nul_free (sprintf_02X c)"
proof -
  have "unat c < 256" using unsigned_less [of c] by simp
  then have "unat c div 16 < 16" "unat c mod 16 < 16" by auto
  then show ?thesis
    using hex_digit_not_nul [of "unat c div 16"] hex_digit_not_nul [of "unat c mod 16"]
    by (auto simp: nul_free_def sprintf_02X_def)
qed

lemma nul_free_hex_pair: "nul_free (hex_pair c)"
  using nul_free_sprintf_02X [of c] by (auto simp: nul_free_def hex_pair_def dest: in_set_takeD)

lemma poke_at: "take pos mem = xs \<Longrightarrow> \<exists>r. poke pos s mem = xs @ s @ CHR 0x00 # r"
  by (simp add: poke_def)

text \<open>After the bytes \<open>bs @ [b]\<close>: the pairs of \<open>bs\<close>, the print of \<open>b\<close>, a NUL.\<close>

lemma hex_fold_snoc:
  assumes "length bs < length binary" "take (Suc (length bs)) binary = bs @ [b]"
  shows "\<exists>r. fold (\<lambda>i hex. poke (i * 2) (sprintf_02X (binary ! i)) hex) [0..<Suc (length bs)] mem
    = concat (map hex_pair bs) @ sprintf_02X b @ CHR 0x00 # r"
  using assms
proof (induction bs arbitrary: b rule: rev_induct)
  case Nil
  then have "binary ! 0 = b" by (cases binary) auto
  then show ?case by (simp add: poke_def)
next
  case (snoc a bs)
  let ?f = "\<lambda>i hex. poke (i * 2) (sprintf_02X (binary ! i)) hex"
  have nth: "binary ! Suc (length bs) = b"
    using snoc.prems by (metis length_append_singleton lessI nth_append_length nth_take)
  have "take (Suc (length bs)) binary = bs @ [a]"
    using arg_cong [OF snoc.prems(2), of "take (Suc (length bs))"] by simp
  with snoc obtain r where r: "fold ?f [0..<Suc (length bs)] mem
      = concat (map hex_pair bs) @ sprintf_02X a @ CHR 0x00 # r"
    by force
  have "take (Suc (length bs) * 2) (concat (map hex_pair bs) @ sprintf_02X a @ CHR 0x00 # r)
      = concat (map hex_pair (bs @ [a]))"
    by (simp add: hex_pair_def length_sprintf_02X)
  then have "\<exists>r'. ?f (Suc (length bs)) (fold ?f [0..<Suc (length bs)] mem)
      = concat (map hex_pair (bs @ [a])) @ sprintf_02X b @ CHR 0x00 # r'"
    unfolding r nth by (rule poke_at)
  then show ?case by simp
qed

lemma binary_to_hex_eq:
  "binary_to_hex (bs @ [b]) = concat (map hex_pair bs) @ sprintf_02X b"
proof -
  obtain r where "hex_buffer (bs @ [b]) = (concat (map hex_pair bs) @ sprintf_02X b) @ CHR 0x00 # r"
    using hex_fold_snoc [of bs "bs @ [b]" b] by (auto simp: hex_buffer_def)
  moreover have "nul_free (concat (map hex_pair bs) @ sprintf_02X b)"
    using nul_free_hex_pair nul_free_sprintf_02X [of b] by (auto simp: nul_free_def)
  ultimately show ?thesis by (simp only: binary_to_hex_def c_str_terminated)
qed

lemma binary_to_hex_Nil: "binary_to_hex [] = []"
  by (simp add: binary_to_hex_def hex_buffer_def c_str_def)

lemma length_binary_to_hex: "length (binary_to_hex bs) \<le> 2 * length bs + 6"
  by (cases bs rule: rev_cases) (auto simp: binary_to_hex_Nil binary_to_hex_eq length_sprintf_02X)

lemma nul_free_binary_to_hex: "nul_free (binary_to_hex bs)"
  by (simp add: binary_to_hex_def)

lemma hex_pair_high: "128 \<le> unat c \<Longrightarrow> hex_pair c = ''FF''"
  by (simp add: hex_pair_def sprintf_02X_def)

section \<open>Decimal numbers and the checksum line\<close>

lemma digits_value_append: "digits_value (ds @ [d]) = 10 * digits_value ds + (of_char d - 48)"
  by (simp add: digits_value_def)

lemma to_string_digits_value: "list_all is_digit (to_string n) \<and> digits_value (to_string n) = n"
proof (induction n rule: to_string.induct)
  case (1 n)
  show ?case
    using 1 by (subst (1 2) to_string.simps)
      (auto simp: digits_value_append is_digit_def [of "char_of _"] digits_value_def [of "[_]"])
qed

lemma strtoull_to_string: "strtoull (to_string (unat (n::u64))) = n"
proof -
  let ?s = "to_string (unat n)"
  have d: "list_all is_digit ?s" and v: "digits_value ?s = unat n"
    using to_string_digits_value by auto
  have ne: "?s \<noteq> []" by (subst to_string.simps) simp
  then have h: "is_digit (hd ?s)" using d by (cases ?s) auto
  then have "\<not> is_space (hd ?s)" "hd ?s \<noteq> CHR ''-''" "hd ?s \<noteq> CHR ''+''"
    by (auto simp: is_digit_def is_space_def)
  moreover from this(1) ne have "dropWhile is_space ?s = ?s"
    by (cases ?s) auto
  moreover have tw: "takeWhile is_digit ?s = ?s"
    using d by (simp add: takeWhile_eq_all_conv list_all_iff)
  moreover have "unat n < 2 ^ 64" using unsigned_less [of n] by simp
  ultimately show ?thesis by (simp add: strtoull_def Let_def v tw)
qed

lemma checksum_borderless: "0 < l \<Longrightarrow> l < 8 \<Longrightarrow> drop l ''CHECKSUM'' \<noteq> take (8 - l) ''CHECKSUM''"
proof -
  have "\<forall>l \<in> {1, 2, 3, 4, 5, 6, 7}. drop l ''CHECKSUM'' \<noteq> take (8 - l) ''CHECKSUM''"
    by simp
  moreover assume "0 < l" "l < 8"
  then have "l \<in> {1, 2, 3, 4, 5, 6, 7}" by auto
  ultimately show ?thesis by blast
qed

lemma strstr_checksum:
  "strstr body ''CHECKSUM'' = None \<Longrightarrow> strstr (body @ ''CHECKSUM'' @ t) ''CHECKSUM'' = Some (''CHECKSUM'' @ t)"
proof (induction body)
  case Nil
  then show ?case by simp
next
  case (Cons c cs)
  have pl: "length ''CHECKSUM'' = 8" by simp
  have none: "take 8 (c # cs) \<noteq> ''CHECKSUM''" and rest: "strstr cs ''CHECKSUM'' = None"
    using Cons.prems unfolding strstr.simps pl by (auto split: if_splits)
  have "take 8 ((c # cs) @ ''CHECKSUM'' @ t) \<noteq> ''CHECKSUM''"
  proof (cases "8 \<le> length (c # cs)")
    case True
    then have "take 8 ((c # cs) @ ''CHECKSUM'' @ t) = take 8 (c # cs)" by simp
    with none show ?thesis by simp
  next
    case False
    let ?l = "length (c # cs)"
    have l: "0 < ?l" "?l < 8" using False by auto
    show ?thesis
    proof
      assume "take 8 ((c # cs) @ ''CHECKSUM'' @ t) = ''CHECKSUM''"
      moreover have "take 8 ((c # cs) @ ''CHECKSUM'' @ t) = (c # cs) @ take (8 - ?l) ''CHECKSUM''"
        using l unfolding take_append by (simp only: take_all less_imp_le_nat pl) simp
      ultimately have "(c # cs) @ take (8 - ?l) ''CHECKSUM'' = ''CHECKSUM''" by simp
      then have "drop ?l ''CHECKSUM'' = take (8 - ?l) ''CHECKSUM''"
        by (metis append_eq_conv_conj)
      with checksum_borderless [OF l] show False by simp
    qed
  qed
  then show ?case using Cons.IH [OF rest] unfolding append_Cons strstr.simps pl by simp
qed

lemma length_poke: "pos \<le> length mem \<Longrightarrow> length (poke pos s mem) = max (length mem) (pos + length s + 1)"
  by (auto simp: poke_def)

lemma hex_buffer_bound:
  assumes "k \<le> length binary" "length mem = 2 * length binary + 1"
  shows "(length (fold (\<lambda>i hex. poke (i * 2) (sprintf_02X (binary ! i)) hex) [0..<k] mem)
      = 2 * length binary + 1 \<longleftrightarrow> (\<forall>i<k. 128 \<le> unat (binary ! i) \<longrightarrow> i + 4 \<le> length binary))
    \<and> 2 * length binary + 1 \<le> length (fold (\<lambda>i hex. poke (i * 2) (sprintf_02X (binary ! i)) hex) [0..<k] mem)"
  using assms(1)
proof (induction k)
  case 0
  then show ?case using assms(2) by simp
next
  case (Suc k)
  let ?m = "fold (\<lambda>i hex. poke (i * 2) (sprintf_02X (binary ! i)) hex) [0..<k] mem"
  have IH: "(length ?m = 2 * length binary + 1 \<longleftrightarrow> (\<forall>i<k. 128 \<le> unat (binary ! i) \<longrightarrow> i + 4 \<le> length binary))
    \<and> 2 * length binary + 1 \<le> length ?m"
    using Suc by simp
  then have "length (poke (k * 2) (sprintf_02X (binary ! k)) ?m)
      = max (length ?m) (k * 2 + length (sprintf_02X (binary ! k)) + 1)"
    using Suc.prems by (intro length_poke) linarith
  then show ?case
    using IH Suc.prems by (auto simp: less_Suc_eq length_sprintf_02X max_def split: if_splits)
qed

lemma length_crypto_hash:
  "length (generichash (c_str path @ replicate (length path - length (c_str path)) (CHR 0x00))) = 32
    \<Longrightarrow> length (crypto_hash generichash path) \<le> 70"
  using length_binary_to_hex [of "generichash (c_str path @ replicate (length path - length (c_str path)) (CHR 0x00))"]
  by (simp add: crypto_hash_def Let_def)

lemma nul_free_crypto_hash: "nul_free (crypto_hash generichash path)"
  by (simp add: crypto_hash_def Let_def nul_free_binary_to_hex)

lemma parent_path_child:
  "CHR ''/'' \<notin> set name \<Longrightarrow> parent_path (dir @ CHR ''/'' # name) = dir"
proof -
  assume "CHR ''/'' \<notin> set name"
  then have "dropWhile (\<lambda>c. c \<noteq> CHR ''/'') (rev name @ CHR ''/'' # rev dir) = CHR ''/'' # rev dir"
    by (subst dropWhile_append2) auto
  then show ?thesis by (simp add: parent_path_def)
qed

section \<open>Properties\<close>

text \<open>
  \<open>ulong_ceil\<close> is the mathematical ceiling of the quotient, for all 64-bit
  arguments with a divisor other than 0: the increment never wraps around.
\<close>

theorem ulong_ceil_is_ceiling:
  assumes "b \<noteq> 0"
  shows "unat (ulong_ceil a b) = (unat a + unat b - 1) div unat b
    \<and> unat a \<le> unat (ulong_ceil a b) * unat b
    \<and> unat (ulong_ceil a b) * unat b < unat a + unat b"
proof -
  have b: "0 < unat b" using assms by (simp add: unat_gt_0)
  define q where "q = (unat a + unat b - 1) div unat b"
  have r: "(unat a + unat b - 1) mod unat b < unat b" using b by simp
  have "q * unat b + (unat a + unat b - 1) mod unat b = unat a + unat b - 1"
    by (simp add: q_def)
  with r b have "unat a \<le> q * unat b \<and> q * unat b < unat a + unat b" by linarith
  with unat_ulong_ceil [OF assms, of a] show ?thesis by (simp add: q_def)
qed

theorem ulong_ceil_is_ceiling_witness:
  "unat (ulong_ceil 4097 4096) = 2 \<and> (4096::u64) \<noteq> 0"
  using ulong_ceil_is_ceiling [of 4096 4097] by simp

text \<open>
  Milliseconds converted to a \<open>timespec\<close> by \<open>get_time_ts\<close> read back as the same
  milliseconds, for every 64-bit value, and the nanoseconds stay below one second.
\<close>

theorem get_time_ts_roundtrip:
  "get_time (get_time_ts ms) = ms \<and> unat (tv_nsec (get_time_ts ms)) < 1000000000"
proof -
  have m: "unat (ms mod 1000) < 1000" by (simp add: unat_mod_distrib)
  then have "unat ((ms mod 1000) * 1000000) = unat (ms mod 1000) * 1000000"
    by (simp add: unat_word_ariths)
  with m have "unat (tv_nsec (get_time_ts ms)) < 1000000000"
    by (simp add: get_time_ts_def)
  then show ?thesis by (simp add: get_time_of_ts)
qed

text \<open>
  A checksum line as the index files carry it, the body followed by
  \<open>CHECKSUM\<close> and the decimal CRC of the body, is accepted by \<open>verify_checksum\<close>,
  whenever the body itself has no such marker and no NUL.
\<close>

theorem verify_checksum_accepts:
  assumes "nul_free body" "strstr body ''CHECKSUM'' = None"
  shows "verify_checksum (body @ ''CHECKSUM'' @ to_string (unat (crc64 body))) = 0"
proof -
  let ?t = "to_string (unat (crc64 body))"
  have "\<forall>c \<in> set ?t. is_digit c"
    using to_string_digits_value by (simp add: list_all_iff)
  then have "nul_free ?t" by (auto simp: nul_free_def is_digit_def)
  then have "nul_free (body @ ''CHECKSUM'' @ ?t)"
    using assms(1) by (simp add: nul_free_def)
  then show ?thesis
    using strstr_checksum [OF assms(2), of ?t]
    by (simp add: verify_checksum_def Let_def c_str_nul_free strtoull_to_string)
qed

theorem verify_checksum_accepts_witness:
  "verify_checksum (''a 1'' @ ''CHECKSUM'' @ to_string (unat (crc64 ''a 1''))) = 0"
  by (rule verify_checksum_accepts) (simp_all add: nul_free_def)

text \<open>
  (C37) What \<open>binary_to_hex\<close> returns: every byte but the last contributes two
  characters, and a byte of 128 and above contributes \<open>FF\<close> whatever its value, since it
  is printed with its sign; only the last byte is printed whole. Two different inputs
  that differ in such bytes only therefore have the same name.
\<close>

theorem binary_to_hex_collides:
  "binary_to_hex (bs @ [b]) =
     concat (map (\<lambda>c. if 128 \<le> unat c then ''FF'' else sprintf_02X c) bs) @ sprintf_02X b"
proof -
  have "hex_pair c = (if 128 \<le> unat c then ''FF'' else sprintf_02X c)" for c
    by (auto simp: hex_pair_def sprintf_02X_def)
  then have "map hex_pair bs = map (\<lambda>c. if 128 \<le> unat c then ''FF'' else sprintf_02X c) bs"
    by simp
  then show ?thesis by (simp only: binary_to_hex_eq)
qed

text \<open>
  The loop of \<open>binary_to_hex\<close> stays inside its array of \<open>2 * len + 1\<close>
  characters exactly when none of the last three bytes is 128 or above.
\<close>

theorem hex_buffer_in_bounds:
  "length (hex_buffer binary) = 2 * length binary + 1 \<longleftrightarrow>
     (\<forall>i < length binary. 128 \<le> unat (binary ! i) \<longrightarrow> i + 4 \<le> length binary)"
  using hex_buffer_bound [of "length binary" binary "replicate (length binary * 2 + 1) (CHR 0x00)"]
  by (simp add: hex_buffer_def mult.commute)

theorem hex_buffer_in_bounds_witness:
  "length (hex_buffer [1, 2, 255]) \<noteq> 7"
proof
  assume "length (hex_buffer [1, 2, 255]) = 7"
  then have "\<forall>i<3. 128 \<le> unat ([1, 2, 255 :: u8] ! i) \<longrightarrow> i + 4 \<le> 3"
    using hex_buffer_in_bounds [of "[1, 2, 255]"] by simp
  from this [rule_format, of 2] show False by simp
qed

end
