(* ===== verification/Inode.thy ===== *)
theory Inode
  imports Block Util
begin

unbundle bit_operations_syntax

text \<open>
  \<^verbatim>\<open>src/inode.h\<close> and \<^verbatim>\<open>src/inode.cpp\<close>: class \<open>Inode\<close>.

  Blocks are shared between inodes and the cache's dirty map (\<open>shared_ptr<Block>\<close>), so
  they live in a heap, a list of blocks, and an inode holds their positions in it. The
  unordered containers of the class are association lists and lists in some order; no
  result below depends on the order. A clock reading is an argument: \<open>clk k\<close> is the
  \<open>k\<close>-th reading an operation takes. The member \<open>mode_\<close>, which the first constructor
  leaves uninitialised, gets the argument \<open>mode0\<close>.
\<close>

section \<open>Data\<close>

type_synonym bptr = nat
type_synonym heap = "block list"
type_synonym clock = "nat \<Rightarrow> timespec"

record inode =
  ino_path :: string
  ino_mode :: u32
  ino_nlink :: u32
  ino_ul_mtime :: u64
  ino_ul_ctime :: u64
  ino_ts_mtime :: timespec
  ino_ts_ctime :: timespec
  ino_ts_atime :: timespec
  ino_size :: u64
  ino_deleted :: int
  ino_dirty :: int
  ino_id :: string
  ino_links :: "string list"
  ino_blocks :: "(u64 \<times> bptr) list"

record stat =
  st_mode :: u32
  st_nlink :: u32
  st_blocks :: nat
  st_size :: u64
  st_ctim :: timespec
  st_mtim :: timespec
  st_atim :: timespec

definition S_ISDIR :: "u32 \<Rightarrow> bool" where
  "S_ISDIR m \<longleftrightarrow> m AND 0xF000 = 0x4000"

definition S_ISLNK :: "u32 \<Rightarrow> bool" where
  "S_ISLNK m \<longleftrightarrow> m AND 0xF000 = 0xA000"

section \<open>Constructors, getters and setters\<close>

definition inode_new :: "(char list \<Rightarrow> u8 list) \<Rightarrow> clock \<Rightarrow> u32 \<Rightarrow> string \<Rightarrow> inode" where
  "inode_new generichash clk mode0 path =
     \<lparr>ino_path = path, ino_mode = mode0, ino_nlink = 1,
      ino_ul_mtime = get_time (clk 1), ino_ul_ctime = get_time (clk 0),
      ino_ts_mtime = clk 2, ino_ts_ctime = clk 3, ino_ts_atime = clk 4,
      ino_size = 0, ino_deleted = 0, ino_dirty = 0,
      ino_id = crypto_hash generichash path, ino_links = [path], ino_blocks = []\<rparr>"

definition get_mode :: "inode \<Rightarrow> u32" where
  "get_mode i = ino_mode i"

definition get_link :: "inode \<Rightarrow> u32" where
  "get_link i = ino_nlink i"

definition get_size :: "inode \<Rightarrow> u64" where
  "get_size i = ino_size i"

definition get_id :: "inode \<Rightarrow> string" where
  "get_id i = ino_id i"

definition get_path :: "inode \<Rightarrow> string" where
  "get_path i = ino_path i"

definition get_ull_mtime :: "inode \<Rightarrow> u64" where
  "get_ull_mtime i = ino_ul_mtime i"

definition get_ull_ctime :: "inode \<Rightarrow> u64" where
  "get_ull_ctime i = ino_ul_ctime i"

definition get_refs :: "inode \<Rightarrow> string list" where
  "get_refs i = ino_links i"

definition get_block_indx :: "inode \<Rightarrow> u64 list" where
  "get_block_indx i = map fst (ino_blocks i)"

text \<open>The map itself; that the pointer to it claims to own a member has no effect on its value.\<close>

definition get_blocks_with_id :: "inode \<Rightarrow> (u64 \<times> bptr) list" where
  "get_blocks_with_id i = ino_blocks i"

definition is_deleted :: "inode \<Rightarrow> int" where
  "is_deleted i = ino_deleted i"

definition inode_is_dirty :: "inode \<Rightarrow> int" where
  "inode_is_dirty i = ino_dirty i"

definition is_dir :: "inode \<Rightarrow> bool" where
  "is_dir i = S_ISDIR (ino_mode i)"

definition is_link :: "inode \<Rightarrow> string \<Rightarrow> bool" where
  "is_link i path \<longleftrightarrow> path \<in> set (ino_links i)"

definition has_block :: "inode \<Rightarrow> u64 \<Rightarrow> bool" where
  "has_block i block_index \<longleftrightarrow> map_of (ino_blocks i) block_index \<noteq> None"

text \<open>The constructor that takes over another inode's contents; \<open>that\<close> is a copy.\<close>

definition inode_copy :: "(char list \<Rightarrow> u8 list) \<Rightarrow> clock \<Rightarrow> string \<Rightarrow> inode \<Rightarrow> inode" where
  "inode_copy generichash clk path that =
     \<lparr>ino_path = path, ino_mode = get_mode that, ino_nlink = get_link that,
      ino_ul_mtime = get_time (clk 1), ino_ul_ctime = get_time (clk 0),
      ino_ts_mtime = clk 2, ino_ts_ctime = clk 3, ino_ts_atime = clk 4,
      ino_size = get_size that, ino_deleted = 0, ino_dirty = 0,
      ino_id = crypto_hash generichash path,
      ino_links = fold List.insert (get_refs that) [],
      ino_blocks = fold (\<lambda>indx bs. AList.update indx (the (map_of (ino_blocks that) indx)) bs)
        (get_block_indx that) []\<rparr>"

definition set_mode :: "clock \<Rightarrow> u32 \<Rightarrow> inode \<Rightarrow> inode" where
  "set_mode clk mode i =
     (let i1 = (if S_ISDIR mode then i\<lparr>ino_nlink := (if ino_nlink i < 2 then 2 else ino_nlink i)\<rparr> else i)
      in i1\<lparr>ino_mode := mode, ino_ul_mtime := get_time (clk 0)\<rparr>)"

definition inc_link :: "string \<Rightarrow> inode \<Rightarrow> inode" where
  "inc_link ref i = i\<lparr>ino_links := List.insert ref (ino_links i), ino_nlink := ino_nlink i + 1\<rparr>"

definition dec_link :: "string \<Rightarrow> inode \<Rightarrow> inode" where
  "dec_link path i =
     (let i1 = i\<lparr>ino_nlink := ino_nlink i - 1, ino_links := removeAll path (ino_links i)\<rparr>
      in if ino_nlink i1 = 0 then i1\<lparr>ino_blocks := []\<rparr> else i1)"

definition get_block :: "clock \<Rightarrow> u64 \<Rightarrow> inode \<Rightarrow> (inode \<times> bptr) result" where
  "get_block clk block_index i =
     (case map_of (ino_blocks i) block_index of
        None \<Rightarrow> Inl Bad_Iterator
      | Some p \<Rightarrow> Inr (i\<lparr>ino_ul_mtime := get_time (clk 0)\<rparr>, p))"

definition update_mtime :: "clock \<Rightarrow> inode \<Rightarrow> inode" where
  "update_mtime clk i =
     i\<lparr>ino_ul_mtime := get_time (clk 0), ino_ts_mtime := clk 1, ino_dirty := 1\<rparr>"

definition update_atime :: "clock \<Rightarrow> inode \<Rightarrow> inode" where
  "update_atime clk i = i\<lparr>ino_ts_atime := clk 0\<rparr>"

definition set_size :: "clock \<Rightarrow> u64 \<Rightarrow> inode \<Rightarrow> inode" where
  "set_size clk sz i = (update_mtime clk i)\<lparr>ino_size := sz, ino_dirty := 1\<rparr>"

definition delete_inode :: "clock \<Rightarrow> inode \<Rightarrow> inode" where
  "delete_inode clk i =
     (update_mtime clk (i\<lparr>ino_links := [], ino_nlink := 0\<rparr>))\<lparr>ino_blocks := [], ino_deleted := 1\<rparr>"

definition inode_set_dirty :: "inode \<Rightarrow> inode" where
  "inode_set_dirty i = i\<lparr>ino_dirty := 1\<rparr>"

definition undo_dirty :: "inode \<Rightarrow> inode" where
  "undo_dirty i = (if ino_dirty i = 1 then i\<lparr>ino_dirty := 0\<rparr> else i)"

definition remake_inode :: "inode \<Rightarrow> inode" where
  "remake_inode i = i\<lparr>ino_deleted := 0\<rparr>"

definition set_id :: "string \<Rightarrow> inode \<Rightarrow> inode" where
  "set_id ident i = i\<lparr>ino_id := ident\<rparr>"

definition set_nlink :: "u32 \<Rightarrow> inode \<Rightarrow> inode" where
  "set_nlink nlink i = i\<lparr>ino_nlink := nlink\<rparr>"

definition set_mtime :: "u64 \<Rightarrow> inode \<Rightarrow> inode" where
  "set_mtime mtime i =
     i\<lparr>ino_ul_mtime := mtime,
       ino_ts_mtime := \<lparr>tv_sec = mtime div 1000, tv_nsec = (mtime mod 1000) * 1000000\<rparr>\<rparr>"

definition set_ctime :: "u64 \<Rightarrow> inode \<Rightarrow> inode" where
  "set_ctime ctime i =
     i\<lparr>ino_ul_ctime := ctime,
       ino_ts_ctime := \<lparr>tv_sec = ctime div 1000, tv_nsec = (ctime mod 1000) * 1000000\<rparr>\<rparr>"

definition set_st_time :: "timespec \<Rightarrow> timespec \<Rightarrow> inode \<Rightarrow> inode" where
  "set_st_time mtim ctim i = i\<lparr>ino_ts_mtime := mtim, ino_ts_ctime := ctim\<rparr>"

text \<open>Adding a block marks the one it replaces as dirty, in the heap.\<close>

definition add_block :: "clock \<Rightarrow> u64 \<Rightarrow> bptr \<Rightarrow> heap \<Rightarrow> inode \<Rightarrow> heap \<times> inode" where
  "add_block clk block_index p h i =
     (let h1 = (case map_of (ino_blocks i) block_index of
                  Some q \<Rightarrow> h[q := block_set_dirty (h ! q)] | None \<Rightarrow> h);
          i1 = update_mtime clk i
      in (h1, i1\<lparr>ino_blocks := AList.update block_index p (ino_blocks i1)\<rparr>))"

definition remove_block :: "clock \<Rightarrow> u64 \<Rightarrow> inode \<Rightarrow> inode" where
  "remove_block clk block_index i =
     (let i1 = update_mtime clk i in i1\<lparr>ino_blocks := AList.delete block_index (ino_blocks i1)\<rparr>)"

definition get_record :: "inode \<Rightarrow> string" where
  "get_record i =
     ino_path i @ '' '' @ to_string (unat (ino_mode i)) @ '' '' @ to_string (unat (ino_ul_mtime i))
       @ '' '' @ int_to_string (ino_deleted i) @ [CHR 0x0A]"

definition get_flush_record :: "inode \<Rightarrow> string" where
  "get_flush_record i =
     ino_path i @ '' '' @ ino_id i @ '' '' @ to_string (unat (ino_mode i)) @ '' ''
       @ to_string (unat (ino_nlink i)) @ '' '' @ to_string (unat (ino_ul_mtime i)) @ '' ''
       @ to_string (unat (ino_ul_ctime i)) @ '' '' @ to_string (unat (ino_size i)) @ '' ''
       @ int_to_string (ino_deleted i) @ [CHR 0x0A]"

definition inode_stat :: "inode \<Rightarrow> stat" where
  "inode_stat i =
     \<lparr>st_mode = ino_mode i, st_nlink = ino_nlink i, st_blocks = length (ino_blocks i),
      st_size = get_size i, st_ctim = ino_ts_ctime i, st_mtim = ino_ts_mtime i,
      st_atim = ino_ts_atime i\<rparr>"

section \<open>Reading\<close>

text \<open>The inner loop of \<open>read\<close>: the bytes stored to \<open>buf\<close> so far are the last argument.\<close>

fun read_bytes_loop :: "u8 list \<Rightarrow> nat \<Rightarrow> nat \<Rightarrow> nat \<Rightarrow> u8 list \<Rightarrow> u8 list" where
  "read_bytes_loop [] ii blksz sz buf = buf"
| "read_bytes_loop (byte # bytes) ii blksz sz buf =
     (if ii < blksz \<and> length buf < sz
      then read_bytes_loop bytes (ii + 1) blksz sz (buf @ [byte]) else buf)"

function read_loop :: "heap \<Rightarrow> inode \<Rightarrow> nat \<Rightarrow> nat \<Rightarrow> nat \<Rightarrow> bool \<Rightarrow> u8 list \<Rightarrow> u8 list result" where
  "read_loop h i sz offset block_idx offsetted buf =
     (if block_idx < length (ino_blocks i) \<and> length buf < sz
      then (case map_of (ino_blocks i) (of_nat block_idx) of
              None \<Rightarrow> Inl Bad_Iterator
            | Some p \<Rightarrow>
                (case get_data (h ! p) of
                   Inl e \<Rightarrow> Inl e
                 | Inr block_data \<Rightarrow>
                     (let offset_amt = (if offsetted then 0
                          else if offset < SIZE then offset else offset mod SIZE);
                          blksz = unat (get_actual_size (h ! p))
                      in read_loop h i sz offset (block_idx + 1) True
                           (read_bytes_loop (drop offset_amt block_data) offset_amt blksz sz buf))))
      else Inr buf)"
  by pat_completeness auto
termination
  by (relation "measure (\<lambda>(h, i, sz, offset, block_idx, offsetted, buf).
       length (ino_blocks i) - block_idx)") auto

declare read_loop.simps [simp del]

text \<open>
  \<open>Inode::read\<close>: the bytes it stores to the front of \<open>buf\<close> and its return value. The
  block counter is 32-bit and starts at the truncated block number.
\<close>

definition inode_read :: "heap \<Rightarrow> inode \<Rightarrow> u64 \<Rightarrow> u64 \<Rightarrow> (u8 list \<times> u32) result" where
  "inode_read h i sz offset =
     (case read_loop h i (unat sz) (unat offset)
             (unat (ucast (offset div get_physical_size) :: u32)) False [] of
        Inl e \<Rightarrow> Inl e
      | Inr buf \<Rightarrow> Inr (buf, ucast sz))"

text \<open>\<open>pwrite\<close> on the contents of a file: a gap before the offset is filled with zeros.\<close>

definition pwrite :: "u8 list \<Rightarrow> u8 list \<Rightarrow> nat \<Rightarrow> u8 list" where
  "pwrite fl buf off = take off (fl @ replicate (off - length fl) 0) @ buf @ drop (off + length buf) fl"

fun flush_blocks :: "heap \<Rightarrow> (u64 \<times> bptr) list \<Rightarrow> u8 list \<Rightarrow> u8 list result" where
  "flush_blocks h [] fl = Inr fl"
| "flush_blocks h ((block_idx, p) # bs) fl =
     (case get_data (h ! p) of
        Inl e \<Rightarrow> Inl e
      | Inr block_data \<Rightarrow>
          flush_blocks h bs (pwrite fl (take (unat (get_actual_size (h ! p))) block_data)
            (unat (block_idx * get_physical_size))))"

definition flush_to_fd :: "heap \<Rightarrow> inode \<Rightarrow> u8 list \<Rightarrow> u8 list result" where
  "flush_to_fd h i fl = flush_blocks h (ino_blocks i) fl"

section \<open>Invariant and contents\<close>

definition inode_inv :: "heap \<Rightarrow> inode \<Rightarrow> bool" where
  "inode_inv h i \<longleftrightarrow>
     distinct (map fst (ino_blocks i)) \<and> distinct (ino_links i)
     \<and> (\<forall>(indx, p) \<in> set (ino_blocks i). p < length h \<and> block_inv (h ! p))"

text \<open>
  A dense inode: its \<open>n\<close> blocks are numbered from 0 and all but the last are full.
  Its contents are the used bytes of the blocks in order.
\<close>

definition block_bytes :: "block \<Rightarrow> u8 list" where
  "block_bytes b = take (unat (blk_actual_size b)) (blk_data b)"

definition nth_block :: "heap \<Rightarrow> inode \<Rightarrow> nat \<Rightarrow> block" where
  "nth_block h i k = h ! the (map_of (ino_blocks i) (of_nat k))"

definition dense :: "heap \<Rightarrow> inode \<Rightarrow> bool" where
  "dense h i \<longleftrightarrow> inode_inv h i \<and> length (ino_blocks i) \<le> 2 ^ 32
     \<and> (\<forall>k < length (ino_blocks i). map_of (ino_blocks i) (of_nat k) \<noteq> None)
     \<and> (\<forall>k. Suc k < length (ino_blocks i) \<longrightarrow> unat (blk_actual_size (nth_block h i k)) = SIZE)"

definition contents :: "heap \<Rightarrow> inode \<Rightarrow> u8 list" where
  "contents h i = concat (map (\<lambda>k. block_bytes (nth_block h i k)) [0..<length (ino_blocks i)])"

section \<open>The read loops\<close>

lemma read_bytes_loop_eq:
  "read_bytes_loop bs ii blksz sz buf = buf @ take (min (blksz - ii) (sz - length buf)) bs"
proof (induction bs ii blksz sz buf rule: read_bytes_loop.induct)
  case (2 byte bytes ii blksz sz buf)
  show ?case
  proof (cases "ii < blksz \<and> length buf < sz")
    case True
    then have "min (blksz - ii) (sz - length buf) = Suc (min (blksz - (ii + 1)) (sz - length (buf @ [byte])))"
      by auto
    with True 2 show ?thesis by simp
  qed auto
qed simp

lemma length_block_bytes: "block_inv b \<Longrightarrow> length (block_bytes b) = unat (blk_actual_size b)"
  by (simp add: block_inv_def block_bytes_def)

lemma get_data_inv: "block_inv b \<Longrightarrow> get_data b = Inr (block_bytes b)"
  by (simp add: block_inv_def get_data_def block_bytes_def)

lemma dense_nth:
  assumes "dense h i" "k < length (ino_blocks i)"
  shows "\<exists>p. map_of (ino_blocks i) (of_nat k) = Some p \<and> nth_block h i k = h ! p \<and> block_inv (h ! p)"
proof -
  obtain p where p: "map_of (ino_blocks i) (of_nat k) = Some p"
    using assms by (auto simp: dense_def)
  then have "(of_nat k, p) \<in> set (ino_blocks i)" by (rule map_of_SomeD)
  then show ?thesis using p assms by (auto simp: dense_def inode_inv_def nth_block_def)
qed

lemma read_loop_stop:
  "\<not> (block_idx < length (ino_blocks i) \<and> length buf < sz) \<Longrightarrow>
    read_loop h i sz offset block_idx offsetted buf = Inr buf"
  by (subst read_loop.simps) auto

lemma read_loop_step:
  assumes "dense h i" "block_idx < length (ino_blocks i)" "length buf < sz"
  shows "read_loop h i sz offset block_idx offsetted buf =
    read_loop h i sz offset (block_idx + 1) True
      (buf @ take (sz - length buf) (drop (if offsetted then 0 else offset mod SIZE)
         (block_bytes (nth_block h i block_idx))))"
proof -
  obtain p where p: "map_of (ino_blocks i) (of_nat block_idx) = Some p"
      "nth_block h i block_idx = h ! p" "block_inv (h ! p)"
    using dense_nth assms(1,2) by blast
  have l: "unat (get_actual_size (h ! p)) = length (block_bytes (h ! p))"
    using p(3) by (simp add: length_block_bytes get_actual_size_def)
  have m: "(if offsetted then 0 else if offset < SIZE then offset else offset mod SIZE)
      = (if offsetted then 0 else offset mod SIZE)"
    by simp
  have t: "take (min (length xs - a) n) (drop a xs) = take n (drop a xs)" for xs :: "u8 list" and a n
    by (simp add: min_def)
  show ?thesis
    using assms(2,3) p(1,2) unfolding read_loop.simps [of h i sz offset block_idx] m
    by (simp add: get_data_inv [OF p(3)] Let_def read_bytes_loop_eq l t)
qed

lemma read_loop_rest:
  assumes "dense h i"
  shows "read_loop h i sz offset block_idx True buf =
    Inr (buf @ take (sz - length buf)
      (concat (map (\<lambda>k. block_bytes (nth_block h i k)) [block_idx..<length (ino_blocks i)])))"
proof (induction "length (ino_blocks i) - block_idx" arbitrary: block_idx buf)
  case 0
  then show ?case by (simp add: read_loop_stop)
next
  case (Suc d)
  show ?case
  proof (cases "length buf < sz")
    case True
    then show ?thesis
      using Suc.hyps(2) Suc.hyps(1) [of "block_idx + 1"]
      by (simp add: read_loop_step [OF assms] upt_conv_Cons min_def)
  next
    case False
    then show ?thesis by (simp add: read_loop_stop)
  qed
qed

lemma contents_prefix:
  assumes "dense h i" "n < length (ino_blocks i)"
  shows "length (concat (map (\<lambda>k. block_bytes (nth_block h i k)) [0..<n])) = SIZE * n"
  using assms(2)
proof (induction n)
  case (Suc n)
  have "unat (blk_actual_size (nth_block h i n)) = SIZE"
    using Suc.prems assms(1) by (simp add: dense_def)
  moreover have "block_inv (nth_block h i n)"
    using dense_nth [OF assms(1), of n] Suc.prems by auto
  ultimately show ?case using Suc by (simp add: length_block_bytes)
qed simp

lemma length_contents:
  assumes "dense h i"
  shows "length (contents h i) \<le> SIZE * length (ino_blocks i)"
proof (cases "ino_blocks i = []")
  case False
  then obtain n where n: "length (ino_blocks i) = Suc n" by (cases "ino_blocks i") auto
  have "block_inv (nth_block h i n)"
    using dense_nth [OF assms, of n] n by auto
  then have "length (block_bytes (nth_block h i n)) \<le> SIZE"
    by (simp add: length_block_bytes block_inv_def)
  then show ?thesis
    using contents_prefix [OF assms, of n] n by (simp add: contents_def)
qed (simp add: contents_def)

lemma drop_past: "length a = n \<Longrightarrow> drop (n + r) (a @ b) = drop r b"
  by simp

lemma drop_first: "r \<le> length a \<or> b = [] \<Longrightarrow> drop r (a @ b) = drop r a @ b"
  by auto

lemma diff_min_same: "s - min l s = s - (l::nat)"
  by simp

lemma contents_drop:
  assumes "dense h i" "offset div SIZE < length (ino_blocks i)"
  shows "drop offset (contents h i) =
    drop (offset mod SIZE) (concat (map (\<lambda>k. block_bytes (nth_block h i k))
      [offset div SIZE..<length (ino_blocks i)]))"
proof -
  let ?bb = "\<lambda>k. block_bytes (nth_block h i k)"
  have "[0..<length (ino_blocks i)] = [0..<offset div SIZE] @ [offset div SIZE..<length (ino_blocks i)]"
    using assms(2) by (metis le_add_diff_inverse less_imp_le upt_add_eq_append zero_le)
  then have "contents h i = concat (map ?bb [0..<offset div SIZE])
      @ concat (map ?bb [offset div SIZE..<length (ino_blocks i)])"
    by (simp add: contents_def)
  moreover have "length (concat (map ?bb [0..<offset div SIZE])) = SIZE * (offset div SIZE)"
    using assms by (rule contents_prefix)
  ultimately have "drop (SIZE * (offset div SIZE) + offset mod SIZE) (contents h i)
      = drop (offset mod SIZE) (concat (map ?bb [offset div SIZE..<length (ino_blocks i)]))"
    by (simp only: drop_past)
  then show ?thesis by simp
qed

lemma read_loop_first:
  assumes "dense h i"
  shows "read_loop h i sz offset (offset div SIZE) False [] = Inr (take sz (drop offset (contents h i)))"
proof (cases "offset div SIZE < length (ino_blocks i) \<and> 0 < sz")
  case True
  let ?bb = "\<lambda>k. block_bytes (nth_block h i k)"
  have "concat (map ?bb [offset div SIZE..<length (ino_blocks i)])
      = ?bb (offset div SIZE) @ concat (map ?bb [offset div SIZE + 1..<length (ino_blocks i)])"
    using True by (simp add: upt_conv_Cons)
  moreover have "offset mod SIZE \<le> length (?bb (offset div SIZE)) \<or>
      concat (map ?bb [offset div SIZE + 1..<length (ino_blocks i)]) = []"
  proof (cases "offset div SIZE + 1 < length (ino_blocks i)")
    case True
    then have "unat (blk_actual_size (nth_block h i (offset div SIZE))) = SIZE"
      using assms by (simp add: dense_def)
    moreover have "block_inv (nth_block h i (offset div SIZE))"
      using dense_nth [OF assms, of "offset div SIZE"] True by auto
    ultimately show ?thesis by (simp add: length_block_bytes)
  qed simp
  ultimately have "drop (offset mod SIZE) (concat (map ?bb [offset div SIZE..<length (ino_blocks i)]))
      = drop (offset mod SIZE) (?bb (offset div SIZE))
        @ concat (map ?bb [offset div SIZE + 1..<length (ino_blocks i)])"
    by (simp only: drop_first)
  then show ?thesis
    using True contents_drop [OF assms, of offset]
    by (simp add: read_loop_step [OF assms] read_loop_rest [OF assms] diff_min_same)
next
  case False
  have "drop offset (contents h i) = []" if "\<not> offset div SIZE < length (ino_blocks i)"
  proof -
    have "SIZE * length (ino_blocks i) \<le> SIZE * (offset div SIZE)" using that by simp
    also have "\<dots> \<le> offset" by simp
    finally show ?thesis using length_contents [OF assms] by simp
  qed
  with False show ?thesis by (auto simp: read_loop_stop)
qed

section \<open>Preservation of the invariant\<close>

lemma inode_inv_same_blocks:
  "inode_inv h i \<Longrightarrow> ino_blocks j = ino_blocks i \<Longrightarrow> distinct (ino_links j) \<Longrightarrow> inode_inv h j"
  by (simp add: inode_inv_def)

lemma inode_inv_no_blocks:
  "ino_blocks j = [] \<Longrightarrow> distinct (ino_links j) \<Longrightarrow> inode_inv h j"
  by (simp add: inode_inv_def)

lemma inode_inv_new: "inode_inv h (inode_new gh clk m path)"
  by (simp add: inode_inv_def inode_new_def)

lemma block_inv_set_dirty: "block_inv (block_set_dirty b) = block_inv b"
  by (simp add: block_inv_def block_set_dirty_def)

lemma inode_inv_heap_mono:
  assumes "inode_inv h i" "length h \<le> length h'"
    "\<And>p. p < length h \<Longrightarrow> block_inv (h ! p) \<Longrightarrow> block_inv (h' ! p)"
  shows "inode_inv h' i"
  using assms by (fastforce simp: inode_inv_def)

lemma nth_update_same_pred: "q < length h \<Longrightarrow> P (f (h ! q)) = P (h ! q) \<Longrightarrow> P (h[x := f (h ! x)] ! q) = P (h ! q)"
  by (cases "q = x") auto

lemma inode_inv_add_block:
  assumes "inode_inv h i" "p < length h" "block_inv (h ! p)"
  shows "inode_inv (fst (add_block clk indx p h i)) (snd (add_block clk indx p h i))"
proof -
  let ?h = "fst (add_block clk indx p h i)"
  have h: "length ?h = length h" "\<And>q. q < length h \<Longrightarrow> block_inv (h ! q) \<Longrightarrow> block_inv (?h ! q)"
    by (auto simp: add_block_def Let_def nth_update_same_pred block_inv_set_dirty split: option.splits)
  have i: "ino_blocks (snd (add_block clk indx p h i)) = AList.update indx p (ino_blocks i)"
      "ino_links (snd (add_block clk indx p h i)) = ino_links i"
    by (auto simp: add_block_def Let_def update_mtime_def)
  have "set (AList.update indx p (ino_blocks i)) \<subseteq> insert (indx, p) (set (ino_blocks i))"
    using umap.set_put [of "ino_blocks i"] assms(1) by (auto simp: inode_inv_def)
  then have "\<forall>e \<in> set (AList.update indx p (ino_blocks i)). snd e < length h \<and> block_inv (h ! snd e)"
    using assms by (fastforce simp: inode_inv_def)
  then show ?thesis
    using assms(1) h i by (force simp: inode_inv_def distinct_update)
qed

lemma distinct_insert_fold: "distinct xs \<Longrightarrow> distinct (fold List.insert ys xs)"
  by (induction ys arbitrary: xs) auto

lemma copy_blocks_fold:
  assumes "\<And>x. x \<in> set xs \<Longrightarrow> map_of m x \<noteq> None"
  shows "map_of (fold (\<lambda>x bs. AList.update x (the (map_of m x)) bs) xs bs)
    = map_of bs ++ (map_of m |` set xs)"
  using assms
proof (induction xs arbitrary: bs)
  case (Cons x xs)
  obtain y where "map_of m x = Some y" using Cons.prems by (meson list.set_intros(1) not_None_eq)
  then show ?case
    using Cons by (auto simp: fun_eq_iff map_add_def restrict_map_def update_conv' split: option.splits)
qed simp

lemma copied_blocks:
  assumes "distinct (map fst (ino_blocks that))"
  shows "map_of (ino_blocks (inode_copy gh clk path that)) = map_of (ino_blocks that)"
proof -
  have "map_of (ino_blocks (inode_copy gh clk path that))
      = map_of (ino_blocks that) |` set (get_block_indx that)"
    using copy_blocks_fold [of "get_block_indx that" "ino_blocks that" "[]"]
    by (simp add: inode_copy_def get_block_indx_def map_of_eq_None_iff)
  moreover have "map_of m |` (fst ` set m) = map_of m" for m :: "(u64 \<times> bptr) list"
    by (rule ext) (metis map_of_eq_None_iff restrict_in restrict_out)
  ultimately show ?thesis by (simp add: get_block_indx_def)
qed

lemma distinct_update_fold:
  "distinct (map fst bs) \<Longrightarrow> distinct (map fst (fold (\<lambda>x bs. AList.update x (f x) bs) xs bs))"
  by (induction xs arbitrary: bs) (auto simp: distinct_update)

lemma copied_blocks_distinct:
  "distinct (map fst (ino_blocks (inode_copy gh clk path that)))"
  by (simp add: inode_copy_def distinct_update_fold)

lemma inode_read_dense:
  assumes "dense h i" "unat offset < 2 ^ 44"
  shows "inode_read h i sz offset = Inr (take (unat sz) (drop (unat offset) (contents h i)), ucast sz)"
proof -
  have "unat offset div SIZE < 2 ^ 32"
    using assms(2) by (simp add: div_less_iff_less_mult)
  then have "unat (ucast (offset div get_physical_size) :: u32) = unat offset div SIZE"
    by (simp add: get_physical_size_def unat_div_distrib)
  then show ?thesis
    by (simp add: inode_read_def read_loop_first [OF assms(1)])
qed

section \<open>Properties\<close>

text \<open>
  (C38) \<open>Inode::read\<close> of a dense file (blocks numbered from 0, all but the last full)
  stores exactly the bytes of the file from \<open>offset\<close>, at most \<open>sz\<close> of them, cut off
  at the end of the file, for every offset below the 16 TiB that a 32-bit block
  number can reach.
\<close>

theorem inode_read_contents:
  assumes "dense h i" "unat offset < 2 ^ 44"
  shows "inode_read h i sz offset = Inr (take (unat sz) (drop (unat offset) (contents h i)), ucast sz)"
  by (rule inode_read_dense [OF assms])

theorem inode_read_contents_witness:
  "\<exists>h i. dense h i \<and> unat (1::u64) < 2 ^ 44 \<and> contents h i = [5, 6, 7]
     \<and> inode_read h i 9 1 = Inr ([6, 7], 9)"
proof -
  let ?h = "[block_of [5, 6, 7] 3]"
  let ?i = "(inode_new (\<lambda>_. []) (\<lambda>_. get_time_ts 0) 0 ''/a'')\<lparr>ino_blocks := [(0, 0)]\<rparr>"
  have gd: "get_data (block_of [5, 6, 7] 3) = Inr [5, 6, 7]"
    using block_of_bytes [of 3 "[5, 6, 7]"] by simp
  have inv: "block_inv (block_of [5, 6, 7] 3)"
    using block_of_bytes [of 3 "[5, 6, 7]"] by simp
  then have "block_bytes (block_of [5, 6, 7] 3) = [5, 6, 7]"
    using gd by (simp add: get_data_inv)
  then have c: "contents ?h ?i = [5, 6, 7]" by (simp add: contents_def nth_block_def)
  have d: "dense ?h ?i"
    using inv by (simp add: dense_def inode_inv_def inode_new_def)
  show ?thesis
    using d c inode_read_contents [OF d, of 1 9] by (intro exI [of _ ?h] exI [of _ ?i]) simp
qed

text \<open>
  The return value of \<open>Inode::read\<close> is always the requested size, also when
  fewer bytes are stored: a reader is told it got bytes that are not in the file. At an
  empty inode every positive size is such a case.
\<close>

theorem inode_read_returns_request:
  "ino_blocks i = [] \<Longrightarrow> inode_read h i sz offset = Inr ([], ucast sz)"
  by (simp add: inode_read_def read_loop_stop)

theorem inode_read_returns_request_witness:
  "inode_read [] (inode_new (\<lambda>_. []) (\<lambda>_. get_time_ts 0) 0 ''/a'') 5 0 = Inr ([], 5)"
  using inode_read_returns_request [of "inode_new (\<lambda>_. []) (\<lambda>_. get_time_ts 0) 0 ''/a''" "[]" 5 0]
  by (simp add: inode_new_def)

text \<open>
  A file with a hole cannot be read: when the block that the offset falls into is
  missing although its number is below the number of blocks, \<open>read\<close> dereferences the
  end iterator of the block map.
\<close>

theorem inode_read_hole:
  assumes "map_of (ino_blocks i) (of_nat (unat offset div SIZE)) = None"
    "unat offset div SIZE < length (ino_blocks i)" "unat offset < 2 ^ 44" "0 < unat sz"
  shows "inode_read h i sz offset = Inl Bad_Iterator"
proof -
  have "unat offset div SIZE < 2 ^ 32"
    using assms(3) by (simp add: div_less_iff_less_mult)
  then have "unat (ucast (offset div get_physical_size) :: u32) = unat offset div SIZE"
    by (simp add: get_physical_size_def unat_div_distrib)
  then show ?thesis
    using assms(1,2,4) by (simp add: inode_read_def read_loop.simps)
qed

theorem inode_read_hole_witness:
  "inode_read [block_new] ((inode_new (\<lambda>_. []) (\<lambda>_. get_time_ts 0) 0 ''/a'')\<lparr>ino_blocks := [(1, 0)]\<rparr>) 5 0
     = Inl Bad_Iterator"
  using inode_read_hole [of "(inode_new (\<lambda>_. []) (\<lambda>_. get_time_ts 0) 0 ''/a'')\<lparr>ino_blocks := [(1, 0)]\<rparr>" 0 5]
  by simp

text \<open>
  The constructor behind \<open>rename\<close> takes over what the old inode holds: the same
  blocks under the same numbers, the same size, mode, link count and set of paths, under
  the new path and its hash, not deleted and not dirty, and it is well formed again.
\<close>

theorem inode_copy_keeps:
  assumes "inode_inv h that"
  shows "let i = inode_copy gh clk path that in
     inode_inv h i
     \<and> map_of (ino_blocks i) = map_of (ino_blocks that)
     \<and> set (ino_links i) = set (ino_links that)
     \<and> ino_size i = ino_size that \<and> ino_mode i = ino_mode that \<and> ino_nlink i = ino_nlink that
     \<and> ino_path i = path \<and> ino_id i = crypto_hash gh path
     \<and> ino_deleted i = 0 \<and> ino_dirty i = 0"
proof -
  let ?i = "inode_copy gh clk path that"
  have d: "distinct (map fst (ino_blocks that))" using assms by (simp add: inode_inv_def)
  have m: "map_of (ino_blocks ?i) = map_of (ino_blocks that)" by (rule copied_blocks [OF d])
  then have "set (ino_blocks ?i) = set (ino_blocks that)"
    using map_of_inject_set [OF d copied_blocks_distinct] by metis
  moreover have l: "set (fold List.insert ys xs) = set ys \<union> set xs" for ys xs :: "string list"
    by (induction ys arbitrary: xs) auto
  moreover have "distinct (ino_links ?i)"
    by (simp add: inode_copy_def distinct_insert_fold)
  ultimately have "inode_inv h ?i"
    using assms copied_blocks_distinct by (simp add: inode_inv_def)
  with m l show ?thesis
    by (simp add: Let_def)
      (simp add: inode_copy_def get_refs_def get_size_def get_mode_def get_link_def)
qed

theorem inode_copy_keeps_witness:
  "inode_inv [] (inode_new (\<lambda>_. []) (\<lambda>_. get_time_ts 0) 0 ''/a'')
   \<and> ino_deleted (inode_copy (\<lambda>_. []) (\<lambda>_. get_time_ts 0) ''/b''
        (inode_new (\<lambda>_. []) (\<lambda>_. get_time_ts 0) 0 ''/a'')) = 0"
  using inode_copy_keeps [OF inode_inv_new [of "[]" "\<lambda>_. []" "\<lambda>_. get_time_ts 0" 0 "''/a''"],
      of "\<lambda>_. []" "\<lambda>_. get_time_ts 0" "''/b''"]
  by (simp add: Let_def inode_inv_new)

text \<open>
  Every operation on an inode that replaces or drops blocks keeps it well formed:
  block numbers stay distinct and every block pointer stays valid. Deleting leaves no
  block, no link and a zero link count, and marks the inode deleted and dirty.
\<close>

theorem inode_ops_keep_inv:
  assumes "inode_inv h i" "p < length h" "block_inv (h ! p)"
  shows "inode_inv (fst (add_block clk indx p h i)) (snd (add_block clk indx p h i))
    \<and> map_of (ino_blocks (snd (add_block clk indx p h i))) = (map_of (ino_blocks i))(indx \<mapsto> p)
    \<and> inode_inv h (remove_block clk indx i)
    \<and> \<not> has_block (remove_block clk indx i) indx
    \<and> inode_inv h (dec_link ref i) \<and> inode_inv h (inc_link ref i)
    \<and> inode_inv h (set_size clk sz i) \<and> inode_inv h (set_mode clk mode i)
    \<and> inode_inv h (delete_inode clk i)
    \<and> ino_blocks (delete_inode clk i) = [] \<and> ino_links (delete_inode clk i) = []
    \<and> ino_nlink (delete_inode clk i) = 0 \<and> is_deleted (delete_inode clk i) = 1
    \<and> inode_is_dirty (delete_inode clk i) = 1"
proof -
  have "inode_inv h (remove_block clk indx i)"
    using assms(1) by (auto simp: inode_inv_def remove_block_def Let_def update_mtime_def distinct_map_filter
        AList.delete_eq)
  moreover have "\<not> has_block (remove_block clk indx i) indx"
    by (simp add: has_block_def remove_block_def Let_def delete_conv')
  moreover have "inode_inv h (dec_link ref i)" "inode_inv h (inc_link ref i)"
    "inode_inv h (set_size clk sz i)" "inode_inv h (set_mode clk mode i)" "inode_inv h (delete_inode clk i)"
    using assms(1) by (auto simp: inode_inv_def dec_link_def inc_link_def set_size_def set_mode_def
        delete_inode_def update_mtime_def Let_def distinct_removeAll)
  ultimately show ?thesis
    using inode_inv_add_block [OF assms]
    by (simp add: add_block_def Let_def update_mtime_def update_conv' delete_inode_def is_deleted_def
        inode_is_dirty_def)
qed

theorem inode_ops_keep_inv_witness:
  "inode_inv [block_new] (dec_link ''/a'' (inode_new (\<lambda>_. []) (\<lambda>_. get_time_ts 0) 0 ''/a''))"
proof -
  have "block_inv ([block_new] ! 0)" by (simp add: block_inv_def block_new_def)
  with inode_ops_keep_inv [OF inode_inv_new, of 0 "[block_new]"] show ?thesis by simp
qed

end
