(* ===== verification/Tire_Fire.thy ===== *)
theory Tire_Fire
  imports Prelude
begin

text \<open>
  \<^verbatim>\<open>src/tire_fire.h\<close> and \<^verbatim>\<open>src/tire_fire.cpp\<close>: the bump allocator over a
  memory-mapped file. The record has the members of class \<open>TireFire\<close>; an address is an
  \<open>int\<close> and \<open>nullptr\<close> is \<open>None\<close>. The address at which the kernel places the
  mapping, for \<open>mmap\<close> and for every \<open>mremap\<close>, is not the program's choice: it is the
  field \<open>tf_os\<close>, a function of the index being allocated. The file grows with
  \<open>truncate\<close>, so new memory is zero; what the file holds is modelled where it is
  written, in \<open>Bplus_Index\<close>.

  The interface \<open>bump_allocator\<close> says what the B+tree relies on. The pointer a client
  gets from \<open>get_memory\<close> always is the current mapping plus \<open>get_offset\<close>, so a
  client may name memory by file offsets alone, which is how \<open>Bplus_Index\<close> does it.
\<close>

section \<open>Data and operations\<close>

record tire_fire =
  tf_file :: string
  tf_cur_size :: int
  tf_cur_ptr :: "int option"
  tf_latest_index :: int
  tf_index_to_offset :: "(int \<times> int) list"
  tf_index_to_ptr :: "(int \<times> int) list"
  tf_os :: "int \<Rightarrow> int"

definition TireFire :: "(int \<Rightarrow> int) \<Rightarrow> string \<Rightarrow> tire_fire" where
  "TireFire os path =
     \<lparr>tf_file = path, tf_cur_size = 0, tf_cur_ptr = None, tf_latest_index = 0,
      tf_index_to_offset = [], tf_index_to_ptr = [], tf_os = os\<rparr>"

definition set_path :: "string \<Rightarrow> tire_fire \<Rightarrow> tire_fire" where
  "set_path path tf = tf\<lparr>tf_file := path\<rparr>"

text \<open>The loop over the old entries after the mapping has moved.\<close>

definition refresh_ptrs :: "int \<Rightarrow> (int \<times> int) list \<Rightarrow> (int \<times> int) list \<Rightarrow> (int \<times> int) list" where
  "refresh_ptrs cur_ptr offsets ptrs =
     fold (\<lambda>ent m. AList.update (fst ent) (cur_ptr + the (map_of offsets (fst ent))) m) ptrs ptrs"

definition get_tire :: "tire_fire \<Rightarrow> int \<Rightarrow> tire_fire \<times> int" where
  "get_tire tf n =
     (let old_size = tf_cur_size tf;
          ix = tf_latest_index tf;
          p = tf_os tf ix;
          tf1 = (case tf_cur_ptr tf of
                   None \<Rightarrow> tf\<lparr>tf_cur_ptr := Some p, tf_cur_size := n\<rparr>
                 | Some _ \<Rightarrow> tf\<lparr>tf_cur_size := tf_cur_size tf + n, tf_cur_ptr := Some p,
                     tf_index_to_ptr := refresh_ptrs p (tf_index_to_offset tf) (tf_index_to_ptr tf)\<rparr>)
      in (tf1\<lparr>tf_index_to_offset := AList.update ix old_size (tf_index_to_offset tf1),
              tf_index_to_ptr := AList.update ix (p + old_size) (tf_index_to_ptr tf1),
              tf_latest_index := ix + 1\<rparr>, ix))"

definition get_memory :: "tire_fire \<Rightarrow> int \<Rightarrow> int option" where
  "get_memory tf ix = map_of (tf_index_to_ptr tf) ix"

definition get_offset :: "tire_fire \<Rightarrow> int \<Rightarrow> int result" where
  "get_offset tf ix =
     (case map_of (tf_index_to_offset tf) ix of
        None \<Rightarrow> Inl (Domain_Error ''nope'') | Some off \<Rightarrow> Inr off)"

definition get_root :: "tire_fire \<Rightarrow> int option" where
  "get_root tf = tf_cur_ptr tf"

text \<open>
  \<open>end\<close> acts on the addresses that are mapped in the process: \<open>munmap\<close> takes away the pages of
  the region, and does nothing for a null pointer and size 0. The members stay as they are. What
  \<open>close\<close> and \<open>msync\<close> do is not visible here, the mapping being shared with the file.
\<close>

definition page_up :: "int \<Rightarrow> int" where
  "page_up n = (n + 4095) div 4096 * 4096"

definition tf_end :: "tire_fire \<Rightarrow> int set \<Rightarrow> int set" where
  "tf_end tf mapped =
     (case tf_cur_ptr tf of None \<Rightarrow> mapped | Some base \<Rightarrow> mapped - {base..<base + page_up (tf_cur_size tf)})"

section \<open>Invariant\<close>

definition tf_inv :: "tire_fire \<Rightarrow> bool" where
  "tf_inv tf \<longleftrightarrow>
     0 \<le> tf_cur_size tf \<and> 0 \<le> tf_latest_index tf
     \<and> (tf_cur_ptr tf = None \<longrightarrow> tf_latest_index tf = 0 \<and> tf_cur_size tf = 0)
     \<and> dom (map_of (tf_index_to_offset tf)) = {0..<tf_latest_index tf}
     \<and> dom (map_of (tf_index_to_ptr tf)) = {0..<tf_latest_index tf}
     \<and> (\<forall>ix off. map_of (tf_index_to_offset tf) ix = Some off \<longrightarrow>
          0 \<le> off \<and> off \<le> tf_cur_size tf
          \<and> (\<exists>base. tf_cur_ptr tf = Some base \<and> map_of (tf_index_to_ptr tf) ix = Some (base + off)))"

text \<open>Offsets as a partial function, the view of the interface below.\<close>

definition tf_off :: "tire_fire \<Rightarrow> int \<Rightarrow> int option" where
  "tf_off tf ix = map_of (tf_index_to_offset tf) ix"

section \<open>The interface\<close>

locale bump_allocator =
  fixes alloc :: "'m \<Rightarrow> int \<Rightarrow> 'm \<times> int"
    and off :: "'m \<Rightarrow> int \<Rightarrow> int option"
    and top :: "'m \<Rightarrow> int"
    and ok :: "'m \<Rightarrow> bool"
  assumes ok_alloc: "ok m \<Longrightarrow> 0 \<le> n \<Longrightarrow> ok (fst (alloc m n))"
    and off_fresh: "ok m \<Longrightarrow> off m (snd (alloc m n)) = None"
    and off_new: "ok m \<Longrightarrow> off (fst (alloc m n)) (snd (alloc m n)) = Some (top m)"
    and off_old: "ok m \<Longrightarrow> ix \<noteq> snd (alloc m n) \<Longrightarrow> off (fst (alloc m n)) ix = off m ix"
    and top_alloc: "ok m \<Longrightarrow> top (fst (alloc m n)) = top m + n"
    and off_bound: "ok m \<Longrightarrow> off m ix = Some z \<Longrightarrow> 0 \<le> z \<and> z \<le> top m"
begin

primrec allocs :: "'m \<Rightarrow> int list \<Rightarrow> 'm \<times> int list" where
  "allocs m [] = (m, [])"
| "allocs m (n # ns) =
     (let (m1, ix) = alloc m n; (m2, ixs) = allocs m1 ns in (m2, ix # ixs))"

lemma off_known: "ok m \<Longrightarrow> off m ix = Some z \<Longrightarrow> off (fst (alloc m n)) ix = Some z"
  using off_fresh off_old by (metis option.distinct(1))

lemma allocs_keeps:
  assumes "ok m" "\<forall>n \<in> set ns. 0 \<le> n"
  shows "ok (fst (allocs m ns)) \<and> top (fst (allocs m ns)) = top m + sum_list ns
    \<and> length (snd (allocs m ns)) = length ns
    \<and> (\<forall>ix z. off m ix = Some z \<longrightarrow> off (fst (allocs m ns)) ix = Some z)"
  using assms
proof (induction ns arbitrary: m)
  case (Cons n ns)
  let ?m1 = "fst (alloc m n)"
  have "ok ?m1" using Cons.prems ok_alloc by simp
  then show ?case
    using Cons.IH [of ?m1] Cons.prems top_alloc [of m n] off_known [of m]
    by (auto simp: case_prod_beta Let_def)
qed simp

text \<open>The \<open>k\<close>-th of a sequence of allocations starts where the ones before it end.\<close>

lemma allocs_offset:
  assumes "ok m" "\<forall>n \<in> set ns. 0 \<le> n" "k < length ns"
  shows "off (fst (allocs m ns)) (snd (allocs m ns) ! k) = Some (top m + sum_list (take k ns))"
  using assms
proof (induction ns arbitrary: m k)
  case (Cons n ns)
  let ?m1 = "fst (alloc m n)"
  have ok1: "ok ?m1" using Cons.prems ok_alloc by simp
  show ?case
  proof (cases k)
    case 0
    then show ?thesis
      using allocs_keeps [OF ok1, of ns] off_new [of m n] Cons.prems
      by (simp add: case_prod_beta Let_def)
  next
    case (Suc j)
    then show ?thesis
      using Cons.IH [OF ok1, of j] Cons.prems top_alloc [of m n]
      by (simp add: case_prod_beta Let_def)
  qed
qed simp

text \<open>So what one client writes inside its region never meets another region.\<close>

lemma allocs_disjoint:
  assumes "ok m" "\<forall>n \<in> set ns. 0 \<le> n" "j < k" "k < length ns"
    and "off (fst (allocs m ns)) (snd (allocs m ns) ! j) = Some a"
    and "off (fst (allocs m ns)) (snd (allocs m ns) ! k) = Some b"
  shows "a + ns ! j \<le> b \<and> b + ns ! k \<le> top (fst (allocs m ns))"
proof -
  have a: "a = top m + sum_list (take j ns)" and b: "b = top m + sum_list (take k ns)"
    using allocs_offset [OF assms(1,2)] assms(3-6) by auto
  have mono: "p \<le> q \<Longrightarrow> sum_list (take p ns) \<le> sum_list (take q ns)" for p q
  proof -
    assume "p \<le> q"
    then have "take q ns = take p ns @ take (q - p) (drop p ns)"
      by (metis le_add_diff_inverse take_add)
    moreover have "0 \<le> sum_list (take (q - p) (drop p ns))"
      using assms(2) by (intro sum_list_nonneg) (auto dest: in_set_takeD in_set_dropD)
    ultimately show ?thesis by simp
  qed
  have "sum_list (take j ns) + ns ! j = sum_list (take (Suc j) ns)"
    using assms(3,4) by (simp add: take_Suc_conv_app_nth)
  moreover have "sum_list (take k ns) + ns ! k = sum_list (take (Suc k) ns)"
    using assms(4) by (simp add: take_Suc_conv_app_nth)
  moreover have "sum_list (take (Suc k) ns) \<le> sum_list ns"
    using mono [of "Suc k" "length ns"] assms(4) by simp
  ultimately show ?thesis
    using a b mono [of "Suc j" k] assms(3) allocs_keeps [OF assms(1,2)] by simp
qed

end

section \<open>The allocator implements the interface\<close>

lemma tf_inv_TireFire: "tf_inv (TireFire os path)"
  by (simp add: tf_inv_def TireFire_def)

lemma refresh_ptrs_find:
  "map_of (refresh_ptrs p offs ptrs) ix =
    (if ix \<in> dom (map_of ptrs) then Some (p + the (map_of offs ix)) else None)"
proof -
  have "map_of (fold (\<lambda>ent m. AList.update (fst ent) (f (fst ent)) m) es m) ix =
      (if ix \<in> fst ` set es then Some (f ix) else map_of m ix)" for es :: "(int \<times> int) list" and f m
    by (induction es arbitrary: m) (auto simp: update_conv')
  from this [of "\<lambda>k. p + the (map_of offs k)" ptrs ptrs] show ?thesis
    by (auto simp: refresh_ptrs_def dom_map_of_conv_image_fst map_of_eq_None_iff)
qed

lemma get_tire_index: "snd (get_tire tf n) = tf_latest_index tf"
  by (simp add: get_tire_def Let_def)

lemma get_tire_offsets:
  "map_of (tf_index_to_offset (fst (get_tire tf n))) =
    (map_of (tf_index_to_offset tf))(tf_latest_index tf \<mapsto> tf_cur_size tf)"
  by (auto simp: get_tire_def Let_def update_conv' split: option.splits)

lemma get_tire_ptrs:
  assumes "tf_inv tf"
  shows "map_of (tf_index_to_ptr (fst (get_tire tf n))) ix =
    (if ix = tf_latest_index tf then Some (tf_os tf ix + tf_cur_size tf)
     else map_option (\<lambda>off. tf_os tf (tf_latest_index tf) + off) (map_of (tf_index_to_offset tf) ix))"
proof -
  have d: "dom (map_of (tf_index_to_ptr tf)) = dom (map_of (tf_index_to_offset tf))"
    using assms by (simp add: tf_inv_def)
  have "map_of (tf_index_to_offset tf) = Map.empty" "map_of (tf_index_to_ptr tf) = Map.empty"
    if "tf_cur_ptr tf = None"
    using that assms by (auto simp only: tf_inv_def dom_eq_empty_conv atLeastLessThan_empty order_refl)
  then show ?thesis
    using d by (auto simp: get_tire_def Let_def update_conv' refresh_ptrs_find split: option.splits)
qed

lemma get_tire_rest:
  "tf_latest_index (fst (get_tire tf n)) = tf_latest_index tf + 1"
  "tf_cur_ptr (fst (get_tire tf n)) = Some (tf_os tf (tf_latest_index tf))"
  "tf_os (fst (get_tire tf n)) = tf_os tf"
  "tf_file (fst (get_tire tf n)) = tf_file tf"
  by (simp_all add: get_tire_def Let_def split: option.splits)

lemma get_tire_size: "tf_inv tf \<Longrightarrow> tf_cur_size (fst (get_tire tf n)) = tf_cur_size tf + n"
  by (auto simp: get_tire_def Let_def tf_inv_def split: option.splits)

lemma tf_inv_get_tire:
  assumes "tf_inv tf" "0 \<le> n"
  shows "tf_inv (fst (get_tire tf n))"
proof -
  have lat: "0 \<le> tf_latest_index tf" using assms by (simp add: tf_inv_def)
  have dom: "dom (map_of (tf_index_to_offset tf)) = {0..<tf_latest_index tf}"
    using assms by (simp add: tf_inv_def)
  have "dom (map_of (tf_index_to_ptr (fst (get_tire tf n))))
      = insert (tf_latest_index tf) (dom (map_of (tf_index_to_offset tf)))"
    by (auto simp: get_tire_ptrs [OF assms(1)] split: if_splits)
  then have "dom (map_of (tf_index_to_ptr (fst (get_tire tf n)))) = {0..<tf_latest_index tf + 1}"
    using dom lat by auto
  moreover have "insert (tf_latest_index tf) {0..<tf_latest_index tf} = {0..<tf_latest_index tf + 1}"
    using lat by auto
  moreover have "off \<le> tf_cur_size tf + n" if "map_of (tf_index_to_offset tf) ix = Some off" for ix off
    using that assms by (force simp: tf_inv_def)
  ultimately show ?thesis
    using assms dom lat
    by (auto simp: tf_inv_def get_tire_ptrs [OF assms(1)] get_tire_offsets get_tire_rest get_tire_size [OF assms(1)]
        split: if_splits)
qed

interpretation tf: bump_allocator get_tire tf_off tf_cur_size tf_inv
proof unfold_locales
  fix tf :: tire_fire and n ix z
  assume inv: "tf_inv tf"
  show "0 \<le> n \<Longrightarrow> tf_inv (fst (get_tire tf n))" by (rule tf_inv_get_tire [OF inv])
  have "tf_latest_index tf \<notin> dom (map_of (tf_index_to_offset tf))"
    using inv by (simp add: tf_inv_def)
  then show "tf_off tf (snd (get_tire tf n)) = None"
    by (auto simp: tf_off_def get_tire_index)
  show "tf_off (fst (get_tire tf n)) (snd (get_tire tf n)) = Some (tf_cur_size tf)"
    by (simp add: tf_off_def get_tire_index get_tire_offsets)
  show "ix \<noteq> snd (get_tire tf n) \<Longrightarrow> tf_off (fst (get_tire tf n)) ix = tf_off tf ix"
    by (simp add: tf_off_def get_tire_index get_tire_offsets)
  show "tf_cur_size (fst (get_tire tf n)) = tf_cur_size tf + n" by (rule get_tire_size [OF inv])
  show "tf_off tf ix = Some z \<Longrightarrow> 0 \<le> z \<and> z \<le> tf_cur_size tf"
    using inv by (simp add: tf_inv_def tf_off_def)
qed

lemma get_offset_off: "get_offset tf ix = Inr z \<longleftrightarrow> tf_off tf ix = Some z"
  by (simp add: get_offset_def tf_off_def split: option.splits)

text \<open>After \<open>end\<close> no pointer that was handed out is mapped, and what is outside of the region stays.\<close>

lemma page_up_ge: "n \<le> page_up n"
proof -
  have "n + 4095 - (n + 4095) mod 4096 = page_up n" by (simp add: page_up_def minus_mod_eq_div_mult)
  moreover have "(n + 4095) mod 4096 < 4096" by simp
  ultimately show ?thesis by linarith
qed

lemma end_unmaps:
  assumes "tf_inv tf" "get_offset tf ix = Inr off" "off \<le> z" "z < tf_cur_size tf" "get_memory tf ix = Some p"
  shows "p + (z - off) \<notin> tf_end tf mapped"
proof -
  have "map_of (tf_index_to_offset tf) ix = Some off" using assms(2) by (simp add: get_offset_def split: option.splits)
  with assms(1) obtain base where "tf_cur_ptr tf = Some base" "map_of (tf_index_to_ptr tf) ix = Some (base + off)" "0 \<le> off"
    unfolding tf_inv_def by blast
  then show ?thesis using assms(3-5) page_up_ge [of "tf_cur_size tf"] by (auto simp: tf_end_def get_memory_def)
qed

section \<open>Properties\<close>

text \<open>
  (C39) After any allocation every pointer the allocator hands out is up to date: for
  every index allocated so far, the new one included, \<open>get_memory\<close> is the current
  mapping plus \<open>get_offset\<close>, wherever the kernel moved the mapping; for every other index
  \<open>get_memory\<close> is null and \<open>get_offset\<close> throws.
\<close>

theorem get_memory_follows_mapping:
  assumes "tf_inv tf" "0 \<le> n" "fst (get_tire tf n) = tf'"
  shows "(ix \<in> {0..tf_latest_index tf} \<longrightarrow>
      (\<exists>off base. get_offset tf' ix = Inr off \<and> get_root tf' = Some base
        \<and> get_memory tf' ix = Some (base + off) \<and> 0 \<le> off \<and> off \<le> tf_cur_size tf'))
    \<and> (ix \<notin> {0..tf_latest_index tf} \<longrightarrow>
      get_memory tf' ix = None \<and> get_offset tf' ix = Inl (Domain_Error ''nope''))"
proof -
  have inv: "tf_inv tf'" and lat: "tf_latest_index tf' = tf_latest_index tf + 1"
    using tf_inv_get_tire [OF assms(1,2)] get_tire_rest(1) [of tf n] assms(3) by auto
  then have doms: "dom (map_of (tf_index_to_offset tf')) = {0..tf_latest_index tf}"
      "dom (map_of (tf_index_to_ptr tf')) = {0..tf_latest_index tf}"
    by (auto simp: tf_inv_def)
  show ?thesis
  proof (cases "ix \<in> {0..tf_latest_index tf}")
    case True
    then obtain off where off: "map_of (tf_index_to_offset tf') ix = Some off"
      using doms(1) by blast
    with inv obtain base where "0 \<le> off" "off \<le> tf_cur_size tf'" "tf_cur_ptr tf' = Some base"
        "map_of (tf_index_to_ptr tf') ix = Some (base + off)"
      unfolding tf_inv_def by blast
    with True off show ?thesis by (simp add: get_offset_def get_root_def get_memory_def)
  next
    case False
    then have "map_of (tf_index_to_offset tf') ix = None" "map_of (tf_index_to_ptr tf') ix = None"
      using doms by blast+
    with False show ?thesis by (simp add: get_offset_def get_memory_def)
  qed
qed

theorem get_memory_follows_mapping_witness:
  "\<exists>tf'. fst (get_tire (TireFire (\<lambda>_. 4096) ''t'') 24) = tf' \<and> get_memory tf' 0 = Some 4096
     \<and> get_offset tf' 0 = Inr 0"
proof -
  let ?tf = "fst (get_tire (TireFire (\<lambda>_. 4096) ''t'') 24)"
  have "\<exists>off base. get_offset ?tf 0 = Inr off \<and> get_root ?tf = Some base \<and> get_memory ?tf 0 = Some (base + off)"
    using get_memory_follows_mapping [OF tf_inv_TireFire, of 24 "\<lambda>_. 4096" "''t''" ?tf 0]
    by (auto simp: TireFire_def)
  moreover have "get_offset ?tf 0 = Inr 0" "get_root ?tf = Some 4096"
    by (simp_all add: get_tire_def TireFire_def Let_def get_offset_def get_root_def)
  ultimately show ?thesis by auto
qed



end
