(* ===== verification/Bplus_Index.thy ===== *)
theory Bplus_Index
  imports Inode Tire_Fire
begin

text \<open>
  \<^verbatim>\<open>src/bplus_index.h\<close> and \<^verbatim>\<open>src/bplus_index.cpp\<close>: the data structures and the
  operations of the disk-backed B+tree.

  The mapped file is an \<open>image\<close>: one typed view per struct, each a function from the
  file offset of the struct to its value, and one view each for the characters (hashes
  and paths) and the bytes (block contents). The regions handed out by the allocator do
  not overlap, so a store through one type never changes what is read through another;
  where the code could store past the end of the region it allocated, the model ends in
  \<open>Region_Overflow\<close>. Memory that was never written is zero, as in a file grown by
  \<open>truncate\<close>: the default member initialisers of the structs never run. A pointer
  \<open>get_memory(i)\<close> plus a displacement is the offset \<open>get_offset(i)\<close> plus the
  displacement.

  The loops that follow offsets stored in the file (\<open>find_node_to_store\<close>) or parent
  offsets (\<open>split_insert_node\<close>) need not end on an arbitrary image, so they return an
  option; that they do end on every tree the program builds is proved in
  \<open>Bplus_Insert\<close>.
\<close>

section \<open>Constants and structs\<close>

abbreviation ORDER :: nat where
  "ORDER \<equiv> 24"

abbreviation HASH_SIZE :: nat where
  "HASH_SIZE \<equiv> 128"

text \<open>The sizes of the structs on the program's platform (8-byte alignment).\<close>

abbreviation sizeof_header :: int where
  "sizeof_header \<equiv> 24"

abbreviation sizeof_inode :: int where
  "sizeof_inode \<equiv> 80"

abbreviation sizeof_block_data :: int where
  "sizeof_block_data \<equiv> 32"

abbreviation sizeof_node :: int where
  "sizeof_node \<equiv> 584"

record header =
  hd_num_inodes :: int
  hd_inode_list :: int
  hd_root :: int

record disk_inode =
  d_mode :: u32
  d_nlink :: u32
  d_mtime :: u64
  d_ctime :: u64
  d_size :: u64
  d_deleted :: int
  d_path :: int
  d_path_size :: int
  d_hash :: int
  d_block_data :: int
  d_block_data_size :: int

record block_data =
  bd_block_id :: u64
  bd_mtime :: u64
  bd_size :: u64
  bd_data_offset :: int

record node =
  n_parent :: int
  n_keys :: "int list"
  n_num_keys :: nat
  n_is_leaf :: bool
  n_children :: "int list"
  n_values :: "int list"

definition zero_node :: node where
  "zero_node = \<lparr>n_parent = 0, n_keys = replicate (ORDER - 1) 0, n_num_keys = 0, n_is_leaf = False,
     n_children = replicate ORDER 0, n_values = replicate (ORDER - 1) 0\<rparr>"

record image =
  im_headers :: "int \<Rightarrow> header"
  im_nodes :: "int \<Rightarrow> node"
  im_inodes :: "int \<Rightarrow> disk_inode"
  im_bds :: "int \<Rightarrow> block_data"
  im_chars :: "int \<Rightarrow> char"
  im_bytes :: "int \<Rightarrow> u8"

definition zero_image :: image where
  "zero_image =
     \<lparr>im_headers = (\<lambda>_. \<lparr>hd_num_inodes = 0, hd_inode_list = 0, hd_root = 0\<rparr>),
      im_nodes = (\<lambda>_. zero_node),
      im_inodes = (\<lambda>_. \<lparr>d_mode = 0, d_nlink = 0, d_mtime = 0, d_ctime = 0, d_size = 0, d_deleted = 0,
         d_path = 0, d_path_size = 0, d_hash = 0, d_block_data = 0, d_block_data_size = 0\<rparr>),
      im_bds = (\<lambda>_. \<lparr>bd_block_id = 0, bd_mtime = 0, bd_size = 0, bd_data_offset = 0\<rparr>),
      im_chars = (\<lambda>_. CHR 0x00), im_bytes = (\<lambda>_. 0)\<rparr>"

record bplus =
  bp_num_ents :: int
  bp_num_blocks :: int
  bp_path_size :: int
  bp_path_arr_idx :: int
  bp_cur_path_idx :: int
  bp_inode_arr_idx :: int
  bp_cur_inode_arr_idx :: int
  bp_mem :: tire_fire
  bp_rootidx :: int
  bp_headeridx :: int
  bp_root_ptr :: bool
  bp_block_size :: int
  bp_block_arr_idx :: int
  bp_cur_block_arr_idx :: int
  bp_bd_arr_idx :: int
  bp_cur_bd_arr_idx :: int
  bp_hash_arr_idx :: int
  bp_cur_hash_arr_idx :: int
  bp_img :: image

section \<open>Reading and writing the image\<close>

definition upd_node :: "int \<Rightarrow> (node \<Rightarrow> node) \<Rightarrow> image \<Rightarrow> image" where
  "upd_node off f img = img\<lparr>im_nodes := (im_nodes img)(off := f (im_nodes img off))\<rparr>"

definition upd_header :: "int \<Rightarrow> (header \<Rightarrow> header) \<Rightarrow> image \<Rightarrow> image" where
  "upd_header off f img = img\<lparr>im_headers := (im_headers img)(off := f (im_headers img off))\<rparr>"

fun store_at :: "int \<Rightarrow> 'a list \<Rightarrow> (int \<Rightarrow> 'a) \<Rightarrow> (int \<Rightarrow> 'a)" where
  "store_at off [] mem = mem"
| "store_at off (x # xs) mem = store_at (off + 1) xs (mem(off := x))"

text \<open>
  A C string in memory. Keys are read with this function; a key cell has \<open>HASH_SIZE\<close>
  characters and ends in NULs, so looking at one cell is enough.
\<close>

fun cstr_from :: "(int \<Rightarrow> char) \<Rightarrow> int \<Rightarrow> nat \<Rightarrow> string" where
  "cstr_from mem off 0 = []"
| "cstr_from mem off (Suc n) =
     (if mem off = CHR 0x00 then [] else mem off # cstr_from mem (off + 1) n)"

definition key_at :: "image \<Rightarrow> int \<Rightarrow> string" where
  "key_at img off = cstr_from (im_chars img) off HASH_SIZE"

section \<open>Searching for the leaf\<close>

definition before :: "node \<Rightarrow> nat \<Rightarrow> int" where
  "before n idx = n_children n ! idx"

definition after :: "node \<Rightarrow> nat \<Rightarrow> int" where
  "after n idx = n_children n ! (idx + 1)"

definition inner_idx :: "image \<Rightarrow> string \<Rightarrow> node \<Rightarrow> nat" where
  "inner_idx img key cur =
     fold (\<lambda>ii inneridx.
         if strcmp (key_at img (n_keys cur ! ii)) (c_str key) < 0
            \<and> strcmp (c_str key) (key_at img (n_keys cur ! (ii + 1))) < 0
         then ii else inneridx)
       [1..<n_num_keys cur] 0"

definition find_step :: "image \<Rightarrow> string \<Rightarrow> node \<Rightarrow> int" where
  "find_step img key cur =
     (if strcmp (c_str key) (key_at img (n_keys cur ! 0)) < 0 then before cur 0
      else if strcmp (c_str key) (key_at img (n_keys cur ! (n_num_keys cur - 1))) > 0
      then after cur (n_num_keys cur - 1)
      else after cur (inner_idx img key cur))"

partial_function (option) find_loop :: "image \<Rightarrow> string \<Rightarrow> int \<Rightarrow> int option" where
  "find_loop img key cur_offset =
     (if n_is_leaf (im_nodes img cur_offset) then Some cur_offset
      else find_loop img key (find_step img key (im_nodes img cur_offset)))"

definition find_node_to_store :: "bplus \<Rightarrow> string \<Rightarrow> int result option" where
  "find_node_to_store bp key =
     (if \<not> bp_root_ptr bp then Some (Inl (Domain_Error ''tree is empty''))
      else case get_offset (bp_mem bp) (bp_rootidx bp) of
             Inl e \<Rightarrow> Some (Inl e)
           | Inr cur_offset \<Rightarrow> map_option Inr (find_loop (bp_img bp) key cur_offset))"

definition bplus_find :: "bplus \<Rightarrow> string \<Rightarrow> bool result option" where
  "bplus_find bp p =
     (case find_node_to_store bp p of
        None \<Rightarrow> None
      | Some (Inl e) \<Rightarrow> Some (Inl e)
      | Some (Inr noff) \<Rightarrow>
          (if noff = 0 \<or> noff = -1 then Some (Inr False)
           else let n = im_nodes (bp_img bp) noff
                in Some (Inr (list_ex (\<lambda>ii. strcmp (key_at (bp_img bp) (n_keys n ! ii)) (c_str p) = 0)
                     [0..<n_num_keys n]))))"

section \<open>Inserting into a node that has room\<close>

definition shift_up :: "nat \<Rightarrow> node \<Rightarrow> node" where
  "shift_up cur_idx temp =
     (let n = fold (\<lambda>ii n. n\<lparr>n_keys := (n_keys n)[ii + 1 := n_keys temp ! ii],
                             n_children := (n_children n)[ii + 1 := n_children temp ! ii],
                             n_values := (n_values n)[ii + 1 := n_values temp ! ii]\<rparr>)
                [cur_idx..<n_num_keys temp] temp
      in n\<lparr>n_children := (n_children n)[n_num_keys temp + 1 := n_children temp ! n_num_keys temp]\<rparr>)"

definition insert_pos :: "image \<Rightarrow> node \<Rightarrow> int \<Rightarrow> nat option" where
  "insert_pos img n k =
     List.find (\<lambda>ii. strcmp (key_at img k) (key_at img (n_keys n ! ii)) < 0) [0..<n_num_keys n]"

definition put_in_node :: "nat \<Rightarrow> int \<Rightarrow> int \<Rightarrow> bool \<Rightarrow> int \<Rightarrow> node \<Rightarrow> node \<times> nat" where
  "put_in_node cur_idx k v isleft child n =
     (let n1 = n\<lparr>n_keys := (n_keys n)[cur_idx := k], n_num_keys := n_num_keys n + 1\<rparr>
      in if n_is_leaf n1 then (n1\<lparr>n_values := (n_values n1)[cur_idx := v]\<rparr>, cur_idx)
         else let ci = (if isleft then cur_idx else cur_idx + 1)
              in (n1\<lparr>n_children := (n_children n1)[ci := child]\<rparr>, ci))"

definition insert_into_node :: "image \<Rightarrow> int \<Rightarrow> int \<Rightarrow> int \<Rightarrow> bool \<Rightarrow> int \<Rightarrow> image \<times> nat" where
  "insert_into_node img nodeoffset k v isleft child =
     (let n = im_nodes img nodeoffset;
          (n', ci) = (case insert_pos img n k of
                        None \<Rightarrow> put_in_node (n_num_keys n) k v isleft child n
                      | Some cur_idx \<Rightarrow> put_in_node cur_idx k v isleft child (shift_up cur_idx n))
      in (upd_node nodeoffset (\<lambda>_. n') img, ci))"

section \<open>Splitting\<close>

abbreviation med_idx :: nat where
  "med_idx \<equiv> (ORDER - 1) div 2"

text \<open>One round of the copy loop when a parent is split: the child at \<open>ii\<close> moves to \<open>right\<close>.\<close>

definition split_parent_step :: "int \<Rightarrow> int \<Rightarrow> nat \<Rightarrow> image \<Rightarrow> image" where
  "split_parent_step nodeoffset right ii img =
     (let cur_idx = ii - (med_idx + 1);
          key = n_keys (im_nodes img nodeoffset) ! ii;
          ch = n_children (im_nodes img nodeoffset) ! ii;
          img1 = upd_node right (\<lambda>r. r\<lparr>n_num_keys := n_num_keys r + 1,
                   n_keys := (n_keys r)[cur_idx := key], n_children := (n_children r)[cur_idx := ch]\<rparr>) img;
          img2 = upd_node ch (\<lambda>c. c\<lparr>n_parent := right\<rparr>) img1
      in upd_node nodeoffset (\<lambda>n. n\<lparr>n_keys := (n_keys n)[ii := -1], n_num_keys := n_num_keys n - 1\<rparr>) img2)"

definition split_parent :: "int \<Rightarrow> int \<Rightarrow> image \<Rightarrow> image" where
  "split_parent nodeoffset right img =
     (let img1 = fold (split_parent_step nodeoffset right) [med_idx + 1..<ORDER - 1] img;
          ch = n_children (im_nodes img1 nodeoffset) ! (ORDER - 1);
          img2 = upd_node right (\<lambda>r. r\<lparr>n_children := (n_children r)[ORDER - 1 - (med_idx + 1) := ch]\<rparr>) img1;
          img3 = upd_node ch (\<lambda>c. c\<lparr>n_parent := right\<rparr>) img2;
          img4 = upd_node nodeoffset
            (\<lambda>n. n\<lparr>n_keys := (n_keys n)[med_idx := -1], n_num_keys := n_num_keys n - 1\<rparr>) img3
      in upd_node right (\<lambda>r. r\<lparr>n_is_leaf := False\<rparr>) img4)"

definition split_leaf_step :: "int \<Rightarrow> int \<Rightarrow> nat \<Rightarrow> image \<Rightarrow> image" where
  "split_leaf_step nodeoffset right ii img =
     (let cur_idx = ii - med_idx;
          n = im_nodes img nodeoffset;
          img1 = upd_node right (\<lambda>r. r\<lparr>n_num_keys := n_num_keys r + 1,
                   n_keys := (n_keys r)[cur_idx := n_keys n ! ii],
                   n_children := (n_children r)[cur_idx := n_children n ! ii],
                   n_values := (n_values r)[cur_idx := n_values n ! ii]\<rparr>) img
      in upd_node nodeoffset (\<lambda>n. n\<lparr>n_keys := (n_keys n)[ii := -1]\<rparr>) img1)"

definition split_leaf :: "int \<Rightarrow> int \<Rightarrow> image \<Rightarrow> image" where
  "split_leaf nodeoffset right img =
     upd_node nodeoffset (\<lambda>n. n\<lparr>n_num_keys := med_idx\<rparr>)
       (fold (split_leaf_step nodeoffset right) [med_idx..<ORDER - 1] img)"

text \<open>
  The first half of \<open>split_insert_node\<close>: allocate the right node, move the upper half of
  the full node to it, and insert the new key (and, in a parent, the node \<open>targ\<close> carried
  up) into the half it belongs to. Returns the state, the index and offset of the right
  node and the offset of the median key.
\<close>

definition split_half :: "bplus \<Rightarrow> int \<Rightarrow> int \<Rightarrow> int \<Rightarrow> bool \<Rightarrow> int \<Rightarrow> (bplus \<times> int \<times> int \<times> int) result" where
  "split_half bp nodeoffset k v isparent targ =
     (let (mem1, rightidx) = get_tire (bp_mem bp) sizeof_node
      in case get_offset mem1 rightidx of
           Inl e \<Rightarrow> Inl e
         | Inr right \<Rightarrow>
             (let img1 = upd_node right (\<lambda>r. r\<lparr>n_is_leaf := True\<rparr>) (bp_img bp);
                  med_key_of = n_keys (im_nodes img1 nodeoffset) ! med_idx;
                  leftofmed = strcmp (key_at img1 k) (key_at img1 med_key_of) < 0
              in if isparent then
                   (case get_offset mem1 targ of
                      Inl e \<Rightarrow> Inl e
                    | Inr target \<Rightarrow>
                        (let img2 = split_parent nodeoffset right img1;
                             half = (if leftofmed then nodeoffset else right);
                             img3 = fst (insert_into_node img2 half k v False target);
                             img4 = upd_node target (\<lambda>t. t\<lparr>n_parent := half\<rparr>) img3
                         in Inr (bp\<lparr>bp_mem := mem1, bp_img := img4\<rparr>, rightidx, right, med_key_of)))
                 else
                   (let img2 = split_leaf nodeoffset right img1;
                        half = (if leftofmed then nodeoffset else right);
                        img3 = fst (insert_into_node img2 half k v False (-1))
                    in Inr (bp\<lparr>bp_mem := mem1, bp_img := img3\<rparr>, rightidx, right, med_key_of))))"

text \<open>The branch that makes a new root above the two halves.\<close>

definition make_root :: "bplus \<Rightarrow> int \<Rightarrow> int \<Rightarrow> int \<Rightarrow> (bplus \<times> int) result" where
  "make_root bp nodeoffset right nkey =
     (let (mem1, nrootidx) = get_tire (bp_mem bp) sizeof_node
      in case get_offset mem1 nrootidx of
           Inl e \<Rightarrow> Inl e
         | Inr nroot \<Rightarrow>
             (let img1 = upd_node nroot (\<lambda>n. n\<lparr>n_parent := -1, n_num_keys := 1, n_is_leaf := False,
                    n_keys := (n_keys n)[0 := nkey],
                    n_children := (n_children n)[0 := nodeoffset, 1 := right]\<rparr>) (bp_img bp);
                  img2 = upd_node right (\<lambda>n. n\<lparr>n_parent := nroot\<rparr>) img1;
                  img3 = upd_node nodeoffset (\<lambda>n. n\<lparr>n_parent := nroot\<rparr>) img2
              in case get_offset mem1 (bp_headeridx bp) of
                   Inl e \<Rightarrow> Inl e
                 | Inr hoff \<Rightarrow>
                     Inr (bp\<lparr>bp_mem := mem1, bp_rootidx := nrootidx,
                             bp_img := upd_header hoff (\<lambda>h. h\<lparr>hd_root := nroot\<rparr>) img3\<rparr>, nrootidx)))"

partial_function (option) split_insert_node ::
  "bplus \<Rightarrow> int \<Rightarrow> int \<Rightarrow> int \<Rightarrow> bool \<Rightarrow> int \<Rightarrow> (bplus \<times> int) result option" where
  "split_insert_node bp nodeoffset k v isparent targ =
     (if n_num_keys (im_nodes (bp_img bp) nodeoffset) \<noteq> ORDER - 1
      then Some (Inr (bp, nodeoffset))
      else case split_half bp nodeoffset k v isparent targ of
             Inl e \<Rightarrow> Some (Inl e)
           | Inr (bp1, rightidx, right, med_key_of) \<Rightarrow>
               (let paroff = n_parent (im_nodes (bp_img bp1) nodeoffset);
                    nkey = (if isparent then med_key_of else n_keys (im_nodes (bp_img bp1) right) ! 0)
                in if paroff = -1 then Some (make_root bp1 nodeoffset right nkey)
                   else if n_num_keys (im_nodes (bp_img bp1) paroff) = ORDER - 1
                   then Option.bind (split_insert_node bp1 paroff med_key_of (-1) True rightidx)
                          (\<lambda>r. Some (case r of Inl e \<Rightarrow> Inl e | Inr (bp2, _) \<Rightarrow> Inr (bp2, -1)))
                   else Some (Inr (bp1\<lparr>bp_img := upd_node right (\<lambda>n. n\<lparr>n_parent := paroff\<rparr>)
                          (fst (insert_into_node (bp_img bp1) paroff nkey v False right))\<rparr>, -1))))"

section \<open>Adding an inode\<close>

text \<open>\<open>BPLUSIndex::BPLUSIndex\<close>: the tree file gets a random name; \<open>num\<close> are the random bytes.\<close>

definition BPLUSIndex :: "(int \<Rightarrow> int) \<Rightarrow> u8 list \<Rightarrow> int \<Rightarrow> int \<Rightarrow> int \<Rightarrow> int \<Rightarrow> bplus" where
  "BPLUSIndex os num num_ents blocksize num_blocks path_size =
     \<lparr>bp_num_ents = num_ents, bp_num_blocks = num_blocks, bp_path_size = path_size,
      bp_path_arr_idx = 0, bp_cur_path_idx = 0, bp_inode_arr_idx = 0, bp_cur_inode_arr_idx = 0,
      bp_mem = TireFire os
        (''/home/arvin/FileSystem/zipfs/o/dir/root/TREE-'' @ generate_rand_hex_name num),
      bp_rootidx = 0, bp_headeridx = 0, bp_root_ptr = False, bp_block_size = blocksize,
      bp_block_arr_idx = 0, bp_cur_block_arr_idx = 0, bp_bd_arr_idx = 0, bp_cur_bd_arr_idx = 0,
      bp_hash_arr_idx = 0, bp_cur_hash_arr_idx = 0, bp_img = zero_image\<rparr>"

text \<open>
  The part of \<open>add_inode\<close> that runs for the first inode only: the header, the root leaf
  with room counted for one key, and the arrays for inodes, blocks, block descriptors,
  hashes and paths, in this order.
\<close>

definition init_tree :: "bplus \<Rightarrow> bplus result" where
  "init_tree bp =
     (let (m1, headeridx) = get_tire (bp_mem bp) sizeof_header;
          (m2, rootidx) = get_tire m1 sizeof_node;
          (m3, inode_arr_idx) = get_tire m2 (sizeof_inode * bp_num_ents bp);
          (m4, block_arr_idx) = get_tire m3 (bp_block_size bp);
          (m5, bd_arr_idx) = get_tire m4 (bp_num_blocks bp * sizeof_block_data);
          (m6, hash_arr_idx) = get_tire m5 (bp_num_ents bp * int HASH_SIZE);
          (m7, path_arr_idx) = get_tire m6 (bp_path_size bp)
      in case (get_offset m7 headeridx, get_offset m7 rootidx, get_offset m7 inode_arr_idx) of
           (Inr hoff, Inr roff, Inr ioff) \<Rightarrow>
             (let img1 = upd_header hoff (\<lambda>h. h\<lparr>hd_num_inodes := bp_num_ents bp, hd_root := roff,
                    hd_inode_list := ioff\<rparr>) (bp_img bp);
                  img2 = upd_node roff (\<lambda>n. n\<lparr>n_is_leaf := True, n_num_keys := 1, n_parent := -1\<rparr>) img1
              in Inr (bp\<lparr>bp_mem := m7, bp_img := img2, bp_headeridx := headeridx, bp_rootidx := rootidx,
                    bp_root_ptr := True, bp_inode_arr_idx := inode_arr_idx, bp_cur_inode_arr_idx := 0,
                    bp_block_arr_idx := block_arr_idx, bp_cur_block_arr_idx := 0,
                    bp_bd_arr_idx := bd_arr_idx, bp_hash_arr_idx := hash_arr_idx,
                    bp_cur_hash_arr_idx := 0, bp_path_arr_idx := path_arr_idx, bp_cur_path_idx := 0\<rparr>))
         | _ \<Rightarrow> Inl (Domain_Error ''nope''))"

text \<open>The path, the key and the stat fields of the inode; each array has room for what was announced.\<close>

definition store_inode :: "inode \<Rightarrow> bplus \<Rightarrow> bplus result" where
  "store_inode i bp =
     (case (get_offset (bp_mem bp) (bp_path_arr_idx bp), get_offset (bp_mem bp) (bp_hash_arr_idx bp),
            get_offset (bp_mem bp) (bp_inode_arr_idx bp)) of
        (Inr poff, Inr hoff, Inr ioff) \<Rightarrow>
          (if bp_path_size bp < bp_cur_path_idx bp + int (length (get_path i))
              \<or> HASH_SIZE < length (get_id i)
              \<or> bp_num_ents bp \<le> bp_cur_inode_arr_idx bp
           then Inl Region_Overflow
           else
             (let img = bp_img bp;
                  chars1 = store_at (poff + bp_cur_path_idx bp) (get_path i) (im_chars img);
                  key = hoff + bp_cur_hash_arr_idx bp;
                  chars2 = store_at key (replicate HASH_SIZE (CHR 0x00)) chars1;
                  chars3 = store_at key (get_id i) chars2;
                  iof = ioff + bp_cur_inode_arr_idx bp * sizeof_inode;
                  d = (im_inodes img iof)\<lparr>d_mode := get_mode i, d_nlink := get_link i,
                        d_mtime := get_ull_mtime i, d_ctime := get_ull_ctime i, d_size := get_size i,
                        d_deleted := is_deleted i, d_hash := key, d_path := poff + bp_cur_path_idx bp,
                        d_path_size := int (length (get_path i))\<rparr>
              in Inr (bp\<lparr>bp_img := img\<lparr>im_chars := chars3, im_inodes := (im_inodes img)(iof := d)\<rparr>\<rparr>)))
      | _ \<Rightarrow> Inl (Domain_Error ''nope''))"

text \<open>
  The loop over the dirty blocks of the inode, in block order: a descriptor and the used
  bytes of each. \<open>block_mtime[id]\<close> of a block without an entry is 0.
\<close>

fun store_blocks :: "(u64 \<times> block) list \<Rightarrow> (u64 \<times> u64) list \<Rightarrow> bplus \<Rightarrow> bplus result" where
  "store_blocks [] block_mtime bp = Inr bp"
| "store_blocks ((bid, b) # dbs) block_mtime bp =
     (case (get_offset (bp_mem bp) (bp_bd_arr_idx bp), get_offset (bp_mem bp) (bp_block_arr_idx bp)) of
        (Inr bdoff, Inr boff) \<Rightarrow>
          (let sz = get_actual_size b;
               cur_bd = bdoff + bp_cur_bd_arr_idx bp * sizeof_block_data;
               bdata = boff + bp_cur_block_arr_idx bp
           in if bp_num_blocks bp \<le> bp_cur_bd_arr_idx bp
                 \<or> bp_block_size bp < bp_cur_block_arr_idx bp + int (unat sz)
              then Inl Region_Overflow
              else if SIZE < unat sz then Inl Array_Overread
              else
                (let img = bp_img bp;
                     img1 = img\<lparr>im_bds := (im_bds img)(cur_bd :=
                              \<lparr>bd_block_id = bid,
                               bd_mtime = (case map_of block_mtime bid of Some t \<Rightarrow> t | None \<Rightarrow> 0),
                               bd_size = sz, bd_data_offset = bdata\<rparr>),
                            im_bytes := store_at bdata (take (unat sz) (get_data_ar b)) (im_bytes img)\<rparr>
                 in store_blocks dbs block_mtime
                      (bp\<lparr>bp_img := img1, bp_cur_block_arr_idx := bp_cur_block_arr_idx bp + int (unat sz),
                         bp_cur_bd_arr_idx := bp_cur_bd_arr_idx bp + 1\<rparr>)))
      | _ \<Rightarrow> Inl (Domain_Error ''nope''))"

text \<open>The fields of the inode that point to its block descriptors; then the cursors move on.\<close>

definition finish_inode :: "inode \<Rightarrow> int \<Rightarrow> nat \<Rightarrow> bplus \<Rightarrow> (bplus \<times> int \<times> int) result" where
  "finish_inode i initial_bdidx num_dirty bp =
     (case (get_offset (bp_mem bp) (bp_bd_arr_idx bp), get_offset (bp_mem bp) (bp_inode_arr_idx bp),
            get_offset (bp_mem bp) (bp_hash_arr_idx bp)) of
        (Inr bdoff, Inr ioff, Inr hoff) \<Rightarrow>
          (let bd_size = sizeof_block_data * int num_dirty;
               inode_of = bp_cur_inode_arr_idx bp * sizeof_inode + ioff;
               key_of = hoff + bp_cur_hash_arr_idx bp;
               img = bp_img bp;
               d = im_inodes img inode_of;
               d' = (if bd_size > 0
                     then d\<lparr>d_block_data := bdoff + initial_bdidx * sizeof_block_data,
                            d_block_data_size := bd_size\<rparr>
                     else d\<lparr>d_block_data := -1\<rparr>)
           in Inr (bp\<lparr>bp_img := img\<lparr>im_inodes := (im_inodes img)(inode_of := d')\<rparr>,
                     bp_cur_inode_arr_idx := bp_cur_inode_arr_idx bp + 1,
                     bp_cur_hash_arr_idx := bp_cur_hash_arr_idx bp + int HASH_SIZE,
                     bp_cur_path_idx := bp_cur_path_idx bp + int (length (get_path i))\<rparr>, key_of, inode_of))
      | _ \<Rightarrow> Inl (Domain_Error ''nope''))"

text \<open>The last part: the key goes into the root of a new tree, or into the leaf found for it.\<close>

definition insert_key :: "bool \<Rightarrow> string \<Rightarrow> bplus \<times> int \<times> int \<Rightarrow> bplus result option" where
  "insert_key isroot ident = (\<lambda>(bp, key_of, inode_of).
     if isroot then
       Some (case get_offset (bp_mem bp) (bp_rootidx bp) of
               Inl e \<Rightarrow> Inl e
             | Inr roff \<Rightarrow>
                 Inr (bp\<lparr>bp_img := upd_node roff (\<lambda>n. n\<lparr>n_keys := (n_keys n)[0 := key_of],
                        n_values := (n_values n)[0 := inode_of]\<rparr>) (bp_img bp)\<rparr>))
     else
       (case find_node_to_store bp ident of
          None \<Rightarrow> None
        | Some (Inl e) \<Rightarrow> Some (Inl e)
        | Some (Inr target_offset) \<Rightarrow>
            (if n_num_keys (im_nodes (bp_img bp) target_offset) = ORDER - 1
             then map_option (\<lambda>r. case r of Inl e \<Rightarrow> Inl e | Inr (bp', _) \<Rightarrow> Inr bp')
                    (split_insert_node bp target_offset key_of inode_of False (-1))
             else Some (Inr (bp\<lparr>bp_img :=
                    fst (insert_into_node (bp_img bp) target_offset key_of inode_of False (-1))\<rparr>)))))"

definition add_inode :: "inode \<Rightarrow> (u64 \<times> block) list \<Rightarrow> (u64 \<times> u64) list \<Rightarrow> bplus \<Rightarrow> bplus result option" where
  "add_inode i dirty_blocks block_mtime bp =
     (let isroot = (\<not> bp_root_ptr bp)
      in case (if isroot then init_tree bp else Inr bp) of
           Inl e \<Rightarrow> Some (Inl e)
         | Inr bp1 \<Rightarrow>
             (case store_inode i bp1 of
                Inl e \<Rightarrow> Some (Inl e)
              | Inr bp2 \<Rightarrow>
                  (case store_blocks dirty_blocks block_mtime bp2 of
                     Inl e \<Rightarrow> Some (Inl e)
                   | Inr bp3 \<Rightarrow>
                       (case finish_inode i (bp_cur_bd_arr_idx bp2) (length dirty_blocks) bp3 of
                          Inl e \<Rightarrow> Some (Inl e)
                        | Inr r \<Rightarrow> insert_key isroot (get_id i) r))))"

text \<open>The destructor, run when a flush returns: the file is complete, its mapping is given up.\<close>

definition index_end :: "bplus \<Rightarrow> int set \<Rightarrow> int set" where
  "index_end bp mapped = tf_end (bp_mem bp) mapped"

end
