(* ===== verification/Bplus_Node.thy ===== *)
theory Bplus_Node
  imports Bplus_Index
begin

text \<open>
  One node of the tree: the arrays of a node as the lists a reader sees (\<open>vkeys\<close>,
  \<open>vvals\<close>, \<open>vkids\<close>: the used prefixes), and what \<open>insert_into_node\<close>,
  \<open>split_leaf\<close> and \<open>split_parent\<close> do to these lists. The loops that shift and copy
  array entries become insertion at a position and cutting a list in two.
\<close>

section \<open>Views of a node\<close>

definition node_ok :: "node \<Rightarrow> bool" where
  "node_ok n \<longleftrightarrow> length (n_keys n) = ORDER - 1 \<and> length (n_children n) = ORDER
     \<and> length (n_values n) = ORDER - 1 \<and> n_num_keys n \<le> ORDER - 1"

definition vkeys :: "node \<Rightarrow> int list" where
  "vkeys n = take (n_num_keys n) (n_keys n)"

definition vvals :: "node \<Rightarrow> int list" where
  "vvals n = take (n_num_keys n) (n_values n)"

definition vkids :: "node \<Rightarrow> int list" where
  "vkids n = take (n_num_keys n + 1) (n_children n)"

text \<open>The position at which \<open>insert_into_node\<close> puts a key: before the first larger one.\<close>

definition key_pos :: "(int \<Rightarrow> string) \<Rightarrow> int \<Rightarrow> int list \<Rightarrow> nat" where
  "key_pos K k ks = length (takeWhile (\<lambda>k'. \<not> K k < K k') ks)"

lemma node_ok_zero: "node_ok zero_node"
  by (simp add: node_ok_def zero_node_def)

lemma node_ok_parent [simp]: "node_ok (n\<lparr>n_parent := p\<rparr>) = node_ok n"
  by (simp add: node_ok_def)

lemma views_parent [simp]:
  "vkeys (n\<lparr>n_parent := p\<rparr>) = vkeys n" "vvals (n\<lparr>n_parent := p\<rparr>) = vvals n"
  "vkids (n\<lparr>n_parent := p\<rparr>) = vkids n"
  by (simp_all add: vkeys_def vvals_def vkids_def)

lemma length_views:
  "node_ok n \<Longrightarrow> length (vkeys n) = n_num_keys n"
  "node_ok n \<Longrightarrow> length (vvals n) = n_num_keys n"
  "node_ok n \<Longrightarrow> length (vkids n) = n_num_keys n + 1"
  by (auto simp: node_ok_def vkeys_def vvals_def vkids_def)

lemma key_pos_le: "key_pos K k ks \<le> length ks"
  by (simp add: key_pos_def length_takeWhile_le)

section \<open>Reading and writing nodes of an image\<close>

lemma im_nodes_upd_node [simp]:
  "im_nodes (upd_node off f img) = (im_nodes img)(off := f (im_nodes img off))"
  by (simp add: upd_node_def)

lemma other_views_upd_node [simp]:
  "im_headers (upd_node off f img) = im_headers img" "im_inodes (upd_node off f img) = im_inodes img"
  "im_bds (upd_node off f img) = im_bds img" "im_chars (upd_node off f img) = im_chars img"
  "im_bytes (upd_node off f img) = im_bytes img"
  by (simp_all add: upd_node_def)

lemma key_at_upd_node [simp]: "key_at (upd_node off f img) = key_at img"
  by (simp add: key_at_def fun_eq_iff)

lemma nul_free_cstr_from: "nul_free (cstr_from mem off n)"
  by (induction n arbitrary: off) (auto simp: nul_free_def)

lemma nul_free_key_at [simp]: "nul_free (key_at img off)"
  by (simp add: key_at_def nul_free_cstr_from)

text \<open>The parts of an image that no tree operation changes.\<close>

definition same_data :: "image \<Rightarrow> image \<Rightarrow> bool" where
  "same_data a b \<longleftrightarrow> im_inodes a = im_inodes b \<and> im_bds a = im_bds b \<and> im_chars a = im_chars b
     \<and> im_bytes a = im_bytes b"

lemma same_data_refl [simp]: "same_data a a"
  by (simp add: same_data_def)

lemma same_data_trans: "same_data a b \<Longrightarrow> same_data b c \<Longrightarrow> same_data a c"
  by (simp add: same_data_def)

lemma same_data_upd_node [simp]: "same_data (upd_node off f a) b = same_data a b"
  by (simp add: same_data_def)

lemma same_data_key_at: "same_data a b \<Longrightarrow> key_at a = key_at b"
  by (rule ext) (simp add: same_data_def key_at_def)

section \<open>Shifting\<close>

lemma length_shift_fold [simp]: "length (fold (\<lambda>ii a. a[Suc ii := t ! ii]) xs a) = length a"
  by (induction xs arbitrary: a) auto

lemma nth_shift_fold:
  assumes "n < length a" "j < length a"
  shows "fold (\<lambda>ii a. a[Suc ii := t ! ii]) [c..<n] a ! j = (if c < j \<and> j \<le> n then t ! (j - 1) else a ! j)"
  using assms
proof (induction n)
  case (Suc n)
  then show ?case by (cases "c \<le> n") (auto simp: nth_list_update)
qed auto

lemma shift_insert:
  assumes "c \<le> n" "n < length a"
  shows "take (Suc n) ((fold (\<lambda>ii a'. a'[Suc ii := a ! ii]) [c..<n] a)[c := x]) = insert_at c x (take n a)"
proof (rule nth_equalityI)
  show "length (take (Suc n) ((fold (\<lambda>ii a'. a'[Suc ii := a ! ii]) [c..<n] a)[c := x]))
      = length (insert_at c x (take n a))"
    using assms by simp
next
  fix j assume "j < length (take (Suc n) ((fold (\<lambda>ii a'. a'[Suc ii := a ! ii]) [c..<n] a)[c := x]))"
  then show "take (Suc n) ((fold (\<lambda>ii a'. a'[Suc ii := a ! ii]) [c..<n] a)[c := x]) ! j
      = insert_at c x (take n a) ! j"
    using assms nth_shift_fold [of n a j a c]
    by (auto simp: nth_list_update nth_insert_at)
qed

lemma shift_fold_fields:
  "let m' = fold (\<lambda>ii m. m\<lparr>n_keys := (n_keys m)[Suc ii := n_keys n ! ii],
      n_children := (n_children m)[Suc ii := n_children n ! ii],
      n_values := (n_values m)[Suc ii := n_values n ! ii]\<rparr>) xs m
   in n_keys m' = fold (\<lambda>ii a. a[Suc ii := n_keys n ! ii]) xs (n_keys m)
    \<and> n_values m' = fold (\<lambda>ii a. a[Suc ii := n_values n ! ii]) xs (n_values m)
    \<and> n_children m' = fold (\<lambda>ii a. a[Suc ii := n_children n ! ii]) xs (n_children m)
    \<and> n_num_keys m' = n_num_keys m \<and> n_is_leaf m' = n_is_leaf m \<and> n_parent m' = n_parent m"
  by (induction xs arbitrary: m) (auto simp: Let_def)

lemma shift_up_fields:
  "n_keys (shift_up c n) = fold (\<lambda>ii a. a[Suc ii := n_keys n ! ii]) [c..<n_num_keys n] (n_keys n)"
  "n_values (shift_up c n) = fold (\<lambda>ii a. a[Suc ii := n_values n ! ii]) [c..<n_num_keys n] (n_values n)"
  "n_children (shift_up c n) = (fold (\<lambda>ii a. a[Suc ii := n_children n ! ii]) [c..<n_num_keys n]
     (n_children n))[Suc (n_num_keys n) := n_children n ! n_num_keys n]"
  "n_num_keys (shift_up c n) = n_num_keys n" "n_is_leaf (shift_up c n) = n_is_leaf n"
  "n_parent (shift_up c n) = n_parent n"
  using shift_fold_fields [of n "[c..<n_num_keys n]" n] by (simp_all add: shift_up_def Let_def)

text \<open>The children move one further, so the new one goes in behind the old one at the position.\<close>

lemma shift_insert_child:
  assumes "c \<le> n" "Suc n < length a"
  shows "take (Suc (Suc n)) ((fold (\<lambda>ii a'. a'[Suc ii := a ! ii]) [c..<n] a)[Suc n := a ! n, Suc c := x])
    = insert_at (Suc c) x (take (Suc n) a)"
proof (rule nth_equalityI)
  show "length (take (Suc (Suc n)) ((fold (\<lambda>ii a'. a'[Suc ii := a ! ii]) [c..<n] a)[Suc n := a ! n, Suc c := x]))
      = length (insert_at (Suc c) x (take (Suc n) a))"
    using assms by simp
next
  fix j assume "j < length (take (Suc (Suc n)) ((fold (\<lambda>ii a'. a'[Suc ii := a ! ii]) [c..<n] a)[Suc n := a ! n, Suc c := x]))"
  then show "take (Suc (Suc n)) ((fold (\<lambda>ii a'. a'[Suc ii := a ! ii]) [c..<n] a)[Suc n := a ! n, Suc c := x]) ! j
      = insert_at (Suc c) x (take (Suc n) a) ! j"
    using assms nth_shift_fold [of n a j a c]
    by (auto simp: nth_list_update nth_insert_at)
qed

section \<open>Insertion into a node with room\<close>

lemma find_upt:
  "(case List.find P [0..<n] of None \<Rightarrow> n | Some c \<Rightarrow> c) = length (takeWhile (\<lambda>i. \<not> P i) [0..<n])"
  "List.find P [0..<n] = Some c \<Longrightarrow> c < n"
proof -
  show "List.find P [0..<n] = Some c \<Longrightarrow> c < n"
    by (auto simp: find_Some_iff)
  show "(case List.find P [0..<n] of None \<Rightarrow> n | Some c \<Rightarrow> c) = length (takeWhile (\<lambda>i. \<not> P i) [0..<n])"
  proof (cases "List.find P [0..<n]")
    case None
    then have "takeWhile (\<lambda>i. \<not> P i) [0..<n] = [0..<n]"
      by (simp add: find_None_iff takeWhile_eq_all_conv)
    with None show ?thesis by (simp only:) simp
  next
    case (Some c)
    then have "c < n" "P c" "\<forall>j<c. \<not> P j" by (auto simp: find_Some_iff)
    then have "takeWhile (\<lambda>i. \<not> P i) ([0..<c] @ c # [Suc c..<n]) = [0..<c]"
      by (subst takeWhile_append2) auto
    moreover have "[0..<n] = [0..<c] @ c # [Suc c..<n]"
      using \<open>c < n\<close> upt_add_eq_append [of 0 c "n - c"] by (simp add: upt_conv_Cons)
    ultimately show ?thesis using Some by simp
  qed
qed

lemma takeWhile_upt:
  "length (takeWhile (\<lambda>i. P (xs ! i)) [0..<length xs]) = length (takeWhile P xs)"
proof -
  have "takeWhile P xs = takeWhile P (map ((!) xs) [0..<length xs])" by (simp add: map_nth)
  also have "\<dots> = map ((!) xs) (takeWhile (P \<circ> (!) xs) [0..<length xs])" by (rule takeWhile_map)
  finally show ?thesis by (simp add: comp_def)
qed

lemma insert_pos_key_pos:
  assumes "node_ok n"
  shows "(case insert_pos img n k of None \<Rightarrow> n_num_keys n | Some c \<Rightarrow> c) = key_pos (key_at img) k (vkeys n)"
proof -
  have "takeWhile (\<lambda>ii. \<not> key_at img k < key_at img (n_keys n ! ii)) [0..<n_num_keys n]
      = takeWhile (\<lambda>ii. \<not> key_at img k < key_at img (vkeys n ! ii)) [0..<length (vkeys n)]"
    using assms by (intro takeWhile_cong) (auto simp: vkeys_def node_ok_def)
  then show ?thesis
    using find_upt(1) [where P = "\<lambda>ii. key_at img k < key_at img (n_keys n ! ii)" and n = "n_num_keys n"]
      takeWhile_upt [of "\<lambda>k'. \<not> key_at img k < key_at img k'" "vkeys n"]
    by (simp add: insert_pos_def strcmp_lt key_pos_def)
qed

lemma insert_at_end: "insert_at (length xs) x xs = xs @ [x]"
  by (simp add: insert_at_def)

lemma take_update_end: "n < length a \<Longrightarrow> take (Suc n) (a[n := x]) = take n a @ [x]"
  by (subst take_Suc_conv_app_nth) auto

text \<open>The node that \<open>insert_into_node\<close> stores, and where it puts the key.\<close>

definition inserted :: "image \<Rightarrow> node \<Rightarrow> int \<Rightarrow> int \<Rightarrow> int \<Rightarrow> node" where
  "inserted img n k v child =
     fst (case insert_pos img n k of
            None \<Rightarrow> put_in_node (n_num_keys n) k v False child n
          | Some cur_idx \<Rightarrow> put_in_node cur_idx k v False child (shift_up cur_idx n))"

lemma insert_into_node_inserted:
  "fst (insert_into_node img off k v False child)
    = upd_node off (\<lambda>_. inserted img (im_nodes img off) k v child) img"
  by (simp add: insert_into_node_def inserted_def Let_def case_prod_beta)

lemma inserted_frame:
  "n_parent (inserted img n k v child) = n_parent n" "n_is_leaf (inserted img n k v child) = n_is_leaf n"
  "n_num_keys (inserted img n k v child) = Suc (n_num_keys n)"
  by (auto simp: inserted_def put_in_node_def Let_def shift_up_fields split: option.splits)

lemma inserted_ok: "node_ok n \<Longrightarrow> n_num_keys n < ORDER - 1 \<Longrightarrow> node_ok (inserted img n k v child)"
  by (auto simp: node_ok_def inserted_def put_in_node_def Let_def shift_up_fields split: option.splits)

lemma inserted_keys:
  assumes "node_ok n" "n_num_keys n < ORDER - 1"
  shows "vkeys (inserted img n k v child) = insert_at (key_pos (key_at img) k (vkeys n)) k (vkeys n)"
proof (cases "insert_pos img n k")
  case None
  then have "key_pos (key_at img) k (vkeys n) = length (vkeys n)"
    using insert_pos_key_pos [OF assms(1), of img k] by (simp add: length_views [OF assms(1)])
  moreover have "vkeys (inserted img n k v child) = vkeys n @ [k]"
    using None assms by (auto simp: vkeys_def inserted_def put_in_node_def Let_def node_ok_def take_update_end)
  ultimately show ?thesis by (simp only: insert_at_end)
next
  case (Some c)
  then have c: "key_pos (key_at img) k (vkeys n) = c" "c < n_num_keys n"
    using insert_pos_key_pos [OF assms(1), of img k] find_upt(2) by (auto simp: insert_pos_def)
  then show ?thesis
    using Some assms shift_insert [of c "n_num_keys n" "n_keys n" k]
    by (auto simp: vkeys_def inserted_def put_in_node_def Let_def node_ok_def shift_up_fields)
qed

lemma inserted_vals:
  assumes "node_ok n" "n_num_keys n < ORDER - 1" "n_is_leaf n"
  shows "vvals (inserted img n k v child) = insert_at (key_pos (key_at img) k (vkeys n)) v (vvals n)"
proof (cases "insert_pos img n k")
  case None
  then have "key_pos (key_at img) k (vkeys n) = length (vvals n)"
    using insert_pos_key_pos [OF assms(1), of img k] by (simp add: length_views [OF assms(1)])
  moreover have "vvals (inserted img n k v child) = vvals n @ [v]"
    using None assms by (auto simp: vvals_def inserted_def put_in_node_def Let_def node_ok_def take_update_end)
  ultimately show ?thesis by (simp only: insert_at_end)
next
  case (Some c)
  then have c: "key_pos (key_at img) k (vkeys n) = c" "c < n_num_keys n"
    using insert_pos_key_pos [OF assms(1), of img k] find_upt(2) by (auto simp: insert_pos_def)
  then show ?thesis
    using Some assms shift_insert [of c "n_num_keys n" "n_values n" v]
    by (auto simp: vvals_def inserted_def put_in_node_def Let_def node_ok_def shift_up_fields)
qed

lemma inserted_kids:
  assumes "node_ok n" "n_num_keys n < ORDER - 1" "\<not> n_is_leaf n"
  shows "vkids (inserted img n k v child) = insert_at (Suc (key_pos (key_at img) k (vkeys n))) child (vkids n)"
proof (cases "insert_pos img n k")
  case None
  then have "Suc (key_pos (key_at img) k (vkeys n)) = length (vkids n)"
    using insert_pos_key_pos [OF assms(1), of img k] by (simp add: length_views [OF assms(1)])
  moreover have "vkids (inserted img n k v child) = vkids n @ [child]"
    using None assms
    by (auto simp: vkids_def inserted_def put_in_node_def Let_def node_ok_def take_update_end)
  ultimately show ?thesis by (simp only: insert_at_end)
next
  case (Some c)
  then have c: "key_pos (key_at img) k (vkeys n) = c" "c < n_num_keys n"
    using insert_pos_key_pos [OF assms(1), of img k] find_upt(2) by (auto simp: insert_pos_def)
  then show ?thesis
    using Some assms shift_insert_child [of c "n_num_keys n" "n_children n" child]
    by (auto simp: vkids_def inserted_def put_in_node_def Let_def node_ok_def shift_up_fields)
qed

lemmas inserted_views = inserted_frame inserted_ok inserted_keys inserted_vals inserted_kids

section \<open>Splitting a leaf\<close>

text \<open>
  How the two nodes relate to the old ones after the rounds of the copy loop up to
  \<open>m\<close>: the entries from the median on are in the right node, the others are untouched.
\<close>

definition leaf_moved :: "nat \<Rightarrow> node \<Rightarrow> node \<Rightarrow> node \<Rightarrow> node \<Rightarrow> bool" where
  "leaf_moved m n r n' r' \<longleftrightarrow>
     n_parent n' = n_parent n \<and> n_is_leaf n' = n_is_leaf n \<and> n_num_keys n' = n_num_keys n
     \<and> n_values n' = n_values n \<and> n_children n' = n_children n \<and> length (n_keys n') = 23
     \<and> (\<forall>j<23. j < 11 \<or> m \<le> j \<longrightarrow> n_keys n' ! j = n_keys n ! j)
     \<and> node_ok r' \<and> n_parent r' = n_parent r \<and> n_is_leaf r' = n_is_leaf r \<and> n_num_keys r' = m - 11
     \<and> (\<forall>j<m - 11. n_keys r' ! j = n_keys n ! (11 + j) \<and> n_values r' ! j = n_values n ! (11 + j))"

text \<open>An image in which only the nodes may differ, and how.\<close>

definition nodes_only :: "image \<Rightarrow> (int \<Rightarrow> node) \<Rightarrow> image \<Rightarrow> bool" where
  "nodes_only img N img' \<longleftrightarrow> im_nodes img' = N \<and> same_data img' img \<and> im_headers img' = im_headers img"

lemma nodes_only_upd_node:
  "nodes_only img N img' \<Longrightarrow> nodes_only img (N(off := f (N off))) (upd_node off f img')"
  by (simp add: nodes_only_def)

lemma nodes_only_refl: "nodes_only img (im_nodes img) img"
  by (simp add: nodes_only_def)

lemma nodes_only_key_at: "nodes_only img N img' \<Longrightarrow> key_at img' = key_at img"
  by (simp add: nodes_only_def same_data_key_at)

lemma nodes_only_trans: "nodes_only a N b \<Longrightarrow> nodes_only b M c \<Longrightarrow> nodes_only a M c"
  by (auto simp: nodes_only_def intro: same_data_trans)

lemma leaf_moved_step:
  assumes "leaf_moved m n r n' r'" "node_ok n" "11 \<le> m" "m < 23"
  shows "leaf_moved (Suc m) n r (n'\<lparr>n_keys := (n_keys n')[m := -1]\<rparr>)
    (r'\<lparr>n_num_keys := n_num_keys r' + 1, n_keys := (n_keys r')[m - 11 := n_keys n' ! m],
        n_children := (n_children r')[m - 11 := n_children n' ! m],
        n_values := (n_values r')[m - 11 := n_values n' ! m]\<rparr>)"
proof -
  have "(n_keys r')[m - 11 := n_keys n' ! m] ! j = n_keys n ! (11 + j)
      \<and> (n_values r')[m - 11 := n_values n' ! m] ! j = n_values n ! (11 + j)" if "j < Suc m - 11" for j
    using that assms by (cases "j = m - 11") (auto simp: leaf_moved_def node_ok_def nth_list_update)
  then show ?thesis
    using assms by (auto simp: leaf_moved_def node_ok_def nth_list_update)
qed

lemma fold_upt_Suc: "fold f [a..<a + Suc d] s = f (a + d) (fold f [a..<a + d] s)"
  by simp

lemma split_leaf_fold:
  assumes "nodeoffset \<noteq> right" "node_ok n" "im_nodes img nodeoffset = n"
    "node_ok r" "n_num_keys r = 0" "im_nodes img right = r" "d \<le> 12"
  shows "\<exists>n' r'. leaf_moved (11 + d) n r n' r' \<and>
    nodes_only img ((im_nodes img)(nodeoffset := n', right := r'))
      (fold (split_leaf_step nodeoffset right) [11..<11 + d] img)"
  using assms(7)
proof (induction d)
  case 0
  have "leaf_moved (11 + 0) n r n r" using assms by (auto simp: leaf_moved_def node_ok_def)
  moreover have "(im_nodes img)(nodeoffset := n, right := r) = im_nodes img" using assms by auto
  then have "nodes_only img ((im_nodes img)(nodeoffset := n, right := r))
      (fold (split_leaf_step nodeoffset right) [11..<11 + 0] img)"
    by (simp only: nodes_only_refl add_0_right upt_rec [of 11 11] less_irrefl if_False fold_simps(1))
  ultimately show ?case by blast
next
  case (Suc d)
  let ?F = "fold (split_leaf_step nodeoffset right) [11..<11 + d] img"
  obtain n' r' where m: "leaf_moved (11 + d) n r n' r'"
    and F: "nodes_only img ((im_nodes img)(nodeoffset := n', right := r')) ?F"
    using Suc.IH Suc.prems Suc_leD by blast
  let ?n = "n'\<lparr>n_keys := (n_keys n')[11 + d := -1]\<rparr>"
  let ?r = "r'\<lparr>n_num_keys := n_num_keys r' + 1, n_keys := (n_keys r')[11 + d - 11 := n_keys n' ! (11 + d)],
      n_children := (n_children r')[11 + d - 11 := n_children n' ! (11 + d)],
      n_values := (n_values r')[11 + d - 11 := n_values n' ! (11 + d)]\<rparr>"
  have "nodes_only img ((im_nodes img)(nodeoffset := ?n, right := ?r)) (split_leaf_step nodeoffset right (11 + d) ?F)"
    using assms(1) F by (auto simp: nodes_only_def split_leaf_step_def Let_def)
  moreover have "leaf_moved (11 + Suc d) n r ?n ?r"
    using leaf_moved_step [OF m assms(2)] Suc.prems by simp
  moreover have "fold (split_leaf_step nodeoffset right) [11..<11 + Suc d] img
      = split_leaf_step nodeoffset right (11 + d) ?F"
    by (rule fold_upt_Suc)
  ultimately show ?case by metis
qed

text \<open>A full leaf and its fresh right neighbour after the split.\<close>

lemma split_leaf_views:
  assumes "nodeoffset \<noteq> right" "node_ok n" "im_nodes img nodeoffset = n" "n_num_keys n = ORDER - 1"
    "node_ok r" "n_num_keys r = 0" "im_nodes img right = r"
  shows "\<exists>n' r'. nodes_only img ((im_nodes img)(nodeoffset := n', right := r')) (split_leaf nodeoffset right img)
    \<and> node_ok n' \<and> n_parent n' = n_parent n \<and> n_is_leaf n' = n_is_leaf n \<and> n_num_keys n' = 11
    \<and> vkeys n' = take 11 (vkeys n) \<and> vvals n' = take 11 (vvals n)
    \<and> node_ok r' \<and> n_parent r' = n_parent r \<and> n_is_leaf r' = n_is_leaf r \<and> n_num_keys r' = 12
    \<and> vkeys r' = drop 11 (vkeys n) \<and> vvals r' = drop 11 (vvals n)"
proof -
  let ?F = "fold (split_leaf_step nodeoffset right) [11..<23] img"
  obtain n' r' where m: "leaf_moved 23 n r n' r'"
    and F: "nodes_only img ((im_nodes img)(nodeoffset := n', right := r')) ?F"
    using split_leaf_fold [OF assms(1-3,5-7), of 12] by auto
  let ?n = "n'\<lparr>n_num_keys := 11\<rparr>"
  have "nodes_only img ((im_nodes img)(nodeoffset := ?n, right := r')) (split_leaf nodeoffset right img)"
    using assms(1) F by (auto simp: nodes_only_def split_leaf_def)
  moreover have "vkeys ?n = take 11 (vkeys n)" "vvals ?n = take 11 (vvals n)"
    using assms(2,4) m by (auto simp: vkeys_def vvals_def node_ok_def leaf_moved_def intro!: nth_equalityI)
  moreover have "vkeys r' = drop 11 (vkeys n)" "vvals r' = drop 11 (vvals n)"
    using assms(2,4) m by (auto simp: vkeys_def vvals_def node_ok_def leaf_moved_def intro!: nth_equalityI)
  ultimately show ?thesis
    using assms(2) m by (intro exI [of _ ?n] exI [of _ r']) (simp add: node_ok_def leaf_moved_def)
qed

section \<open>Splitting a parent\<close>

definition parent_moved :: "nat \<Rightarrow> node \<Rightarrow> node \<Rightarrow> node \<Rightarrow> node \<Rightarrow> bool" where
  "parent_moved d n r n' r' \<longleftrightarrow>
     n_parent n' = n_parent n \<and> n_is_leaf n' = n_is_leaf n \<and> n_num_keys n' = n_num_keys n - d
     \<and> n_values n' = n_values n \<and> n_children n' = n_children n \<and> length (n_keys n') = 23
     \<and> (\<forall>j<23. j < 12 \<or> 12 + d \<le> j \<longrightarrow> n_keys n' ! j = n_keys n ! j)
     \<and> node_ok r' \<and> n_parent r' = n_parent r \<and> n_is_leaf r' = n_is_leaf r \<and> n_num_keys r' = d
     \<and> (\<forall>j<d. n_keys r' ! j = n_keys n ! (12 + j) \<and> n_children r' ! j = n_children n ! (12 + j))"

text \<open>The children that move get the right node as their parent.\<close>

definition reparent :: "int set \<Rightarrow> int \<Rightarrow> (int \<Rightarrow> node) \<Rightarrow> (int \<Rightarrow> node)" where
  "reparent S p N = (\<lambda>x. if x \<in> S then (N x)\<lparr>n_parent := p\<rparr> else N x)"

lemma reparent_simps:
  "reparent {} p N = N" "x \<notin> S \<Longrightarrow> reparent S p N x = N x"
  "x \<in> S \<Longrightarrow> reparent S p N x = (N x)\<lparr>n_parent := p\<rparr>"
  "(reparent S p N)(x := (reparent S p N x)\<lparr>n_parent := p\<rparr>) = reparent (insert x S) p N"
  by (auto simp: reparent_def fun_eq_iff)

lemma parent_moved_step:
  assumes "parent_moved d n r n' r'" "node_ok n" "d < 11"
  shows "parent_moved (Suc d) n r (n'\<lparr>n_keys := (n_keys n')[12 + d := -1], n_num_keys := n_num_keys n' - 1\<rparr>)
    (r'\<lparr>n_num_keys := n_num_keys r' + 1, n_keys := (n_keys r')[d := n_keys n' ! (12 + d)],
        n_children := (n_children r')[d := n_children n' ! (12 + d)]\<rparr>)"
proof -
  have "(n_keys r')[d := n_keys n' ! (12 + d)] ! j = n_keys n ! (12 + j)
      \<and> (n_children r')[d := n_children n' ! (12 + d)] ! j = n_children n ! (12 + j)" if "j < Suc d" for j
    using that assms by (cases "j = d") (auto simp: parent_moved_def node_ok_def nth_list_update)
  then show ?thesis
    using assms by (auto simp: parent_moved_def node_ok_def nth_list_update)
qed

lemma split_parent_step_nodes:
  assumes "nodeoffset \<noteq> right" "x = n_children n' ! (12 + d)" "x \<noteq> nodeoffset" "x \<noteq> right"
    "nodes_only img ((reparent S right N)(nodeoffset := n', right := r')) img'"
  shows "nodes_only img ((reparent (insert x S) right N)
      (nodeoffset := n'\<lparr>n_keys := (n_keys n')[12 + d := -1], n_num_keys := n_num_keys n' - 1\<rparr>,
       right := r'\<lparr>n_num_keys := n_num_keys r' + 1, n_keys := (n_keys r')[d := n_keys n' ! (12 + d)],
         n_children := (n_children r')[d := x]\<rparr>))
    (split_parent_step nodeoffset right (12 + d) img')"
  using assms by (auto simp: nodes_only_def split_parent_step_def Let_def reparent_def fun_eq_iff)

lemma split_parent_fold:
  assumes "nodeoffset \<noteq> right" "node_ok n" "im_nodes img nodeoffset = n"
    "node_ok r" "n_num_keys r = 0" "im_nodes img right = r"
    "nodeoffset \<notin> set (n_children n)" "right \<notin> set (n_children n)" "d \<le> 11"
  shows "\<exists>n' r'. parent_moved d n r n' r' \<and>
    nodes_only img ((reparent (set (take d (drop 12 (n_children n)))) right (im_nodes img))
        (nodeoffset := n', right := r'))
      (fold (split_parent_step nodeoffset right) [12..<12 + d] img)"
  using assms(9)
proof (induction d)
  case 0
  have "parent_moved 0 n r n r" using assms by (auto simp: parent_moved_def node_ok_def)
  moreover have "(im_nodes img)(nodeoffset := n, right := r) = im_nodes img" using assms by auto
  then have "nodes_only img ((reparent (set (take 0 (drop 12 (n_children n)))) right (im_nodes img))
      (nodeoffset := n, right := r)) (fold (split_parent_step nodeoffset right) [12..<12 + 0] img)"
    by (simp only: nodes_only_refl add_0_right upt_rec [of 12 12] less_irrefl if_False fold_simps(1)
        take_0 list.set reparent_simps)
  ultimately show ?case by blast
next
  case (Suc d)
  let ?F = "fold (split_parent_step nodeoffset right) [12..<12 + d] img"
  let ?S = "set (take d (drop 12 (n_children n)))"
  obtain n' r' where m: "parent_moved d n r n' r'"
    and F: "nodes_only img ((reparent ?S right (im_nodes img))(nodeoffset := n', right := r')) ?F"
    using Suc.IH Suc.prems Suc_leD by blast
  let ?x = "n_children n' ! (12 + d)"
  have x: "?x = n_children n ! (12 + d)" "?x \<in> set (n_children n)"
    using m assms(2) Suc.prems by (auto simp: parent_moved_def node_ok_def)
  have S: "set (take (Suc d) (drop 12 (n_children n))) = insert ?x ?S"
    using assms(2) Suc.prems x by (simp add: take_Suc_conv_app_nth node_ok_def)
  have "?x \<noteq> nodeoffset" "?x \<noteq> right" "d < 11" using x(2) assms(7,8) Suc.prems by auto
  note step = split_parent_step_nodes [OF assms(1) refl this(1,2) F, folded S] parent_moved_step [OF m assms(2) this(3)]
  show ?case by (subst fold_upt_Suc) (rule exI, rule exI, rule conjI, rule step(2), rule step(1))
qed

text \<open>A full inner node and its fresh right neighbour after the split; the median key is gone.\<close>

lemma split_parent_views:
  assumes "nodeoffset \<noteq> right" "node_ok n" "im_nodes img nodeoffset = n" "n_num_keys n = ORDER - 1"
    "node_ok r" "n_num_keys r = 0" "im_nodes img right = r"
    "nodeoffset \<notin> set (n_children n)" "right \<notin> set (n_children n)"
  shows "\<exists>n' r'. nodes_only img ((reparent (set (drop 12 (vkids n))) right (im_nodes img))
        (nodeoffset := n', right := r')) (split_parent nodeoffset right img)
    \<and> node_ok n' \<and> n_parent n' = n_parent n \<and> n_is_leaf n' = n_is_leaf n \<and> n_num_keys n' = 11
    \<and> vkeys n' = take 11 (vkeys n) \<and> vkids n' = take 12 (vkids n)
    \<and> node_ok r' \<and> n_parent r' = n_parent r \<and> \<not> n_is_leaf r' \<and> n_num_keys r' = 11
    \<and> vkeys r' = drop 12 (vkeys n) \<and> vkids r' = drop 12 (vkids n)"
proof -
  let ?F = "fold (split_parent_step nodeoffset right) [12..<23] img"
  let ?S = "set (take 11 (drop 12 (n_children n)))"
  obtain n' r' where m: "parent_moved 11 n r n' r'"
    and F: "nodes_only img ((reparent ?S right (im_nodes img))(nodeoffset := n', right := r')) ?F"
    using split_parent_fold [OF assms(1-3,5-9), of 11] by auto
  let ?x = "n_children n' ! 23"
  have x: "?x = n_children n ! 23" "?x \<in> set (n_children n)"
    using m assms(2) by (auto simp: parent_moved_def node_ok_def)
  have "set (take (Suc 11) (drop 12 (n_children n))) = insert ?x ?S"
    using assms(2) x by (subst take_Suc_conv_app_nth) (simp_all add: node_ok_def)
  then have S: "set (drop 12 (vkids n)) = insert ?x ?S"
    using assms(2,4) by (simp add: vkids_def node_ok_def)
  let ?n = "n'\<lparr>n_keys := (n_keys n')[11 := -1], n_num_keys := n_num_keys n' - 1\<rparr>"
  let ?r = "r'\<lparr>n_children := (n_children r')[11 := ?x], n_is_leaf := False\<rparr>"
  have "nodes_only img ((reparent (insert ?x ?S) right (im_nodes img))(nodeoffset := ?n, right := ?r))
      (split_parent nodeoffset right img)"
    using F assms(1,8,9) x by (auto simp: nodes_only_def split_parent_def Let_def reparent_def fun_eq_iff)
  moreover have "vkeys ?n = take 11 (vkeys n)" "vkids ?n = take 12 (vkids n)"
    using assms(2,4) m by (auto simp: vkeys_def vkids_def node_ok_def parent_moved_def intro!: nth_equalityI)
  moreover have "vkeys ?r = drop 12 (vkeys n)"
    using assms(2,4) m by (auto simp: vkeys_def node_ok_def parent_moved_def intro!: nth_equalityI)
  moreover have "vkids ?r = drop 12 (vkids n)"
  proof (rule nth_equalityI)
    fix j assume "j < length (vkids ?r)"
    then have "j < 12" using m by (simp add: vkids_def node_ok_def parent_moved_def)
    then show "vkids ?r ! j = drop 12 (vkids n) ! j"
      using m assms(2,4) by (cases "j = 11") (auto simp: vkids_def node_ok_def parent_moved_def nth_list_update)
  qed (use m assms(2,4) in \<open>simp add: vkids_def node_ok_def parent_moved_def\<close>)
  ultimately show ?thesis
    using assms(2,4) m S by (intro exI [of _ ?n] exI [of _ ?r]) (simp add: node_ok_def parent_moved_def)
qed

end
