(* ===== verification/Bplus_Tree.thy ===== *)
theory Bplus_Tree
  imports Bplus_Node "HOL-Library.Multiset"
begin

text \<open>
  The B+tree as a tree: a leaf holds key and value offsets, an inner node separators and
  children, both with the file offset of the node they stand for. \<open>flat\<close> lists the
  entries and separators from left to right; a tree is in order when this list is, a
  separator coming before an entry with the same key. A position in a tree is a context
  (the frames from the node up to the root), and \<open>carry\<close> is the insertion of a
  separator and a new node into the frame above, with the splits this causes, as
  \<open>split_insert_node\<close> does them. All lemmas here are about trees; that the image
  operations carry out the tree operations is proved in \<open>Bplus_Insert\<close>.
\<close>

section \<open>Trees and their order\<close>

datatype bt = Leaf int "int list" "int list" | Inner int "int list" "bt list"

datatype item = Sep string | Ent string int

fun item_key :: "item \<Rightarrow> string" where
  "item_key (Sep k) = k"
| "item_key (Ent k v) = k"

fun item_less :: "item \<Rightarrow> item \<Rightarrow> bool" where
  "item_less (Sep a) (Ent b v) = (a \<le> b)"
| "item_less (Sep a) (Sep b) = (a < b)"
| "item_less (Ent a v) i = (a < item_key i)"

abbreviation in_order :: "item list \<Rightarrow> bool" where
  "in_order \<equiv> sorted_wrt item_less"

fun ents :: "item list \<Rightarrow> (string \<times> int) list" where
  "ents [] = []"
| "ents (Sep k # xs) = ents xs"
| "ents (Ent k v # xs) = (k, v) # ents xs"

fun off :: "bt \<Rightarrow> int" where
  "off (Leaf p ks vs) = p"
| "off (Inner p ks ts) = p"

fun offs :: "bt \<Rightarrow> int list" where
  "offs (Leaf p ks vs) = [p]"
| "offs (Inner p ks ts) = p # concat (map offs ts)"

text \<open>Separators between what is left and right of them.\<close>

fun interleave :: "'a list \<Rightarrow> 'a list list \<Rightarrow> 'a list" where
  "interleave [] fs = concat fs"
| "interleave (k # ks) [] = k # ks"
| "interleave (k # ks) (f # fs) = f @ k # interleave ks fs"

fun flat :: "(int \<Rightarrow> string) \<Rightarrow> bt \<Rightarrow> item list" where
  "flat K (Leaf p ks vs) = map2 (\<lambda>k v. Ent (K k) v) ks vs"
| "flat K (Inner p ks ts) = interleave (map (\<lambda>k. Sep (K k)) ks) (map (flat K) ts)"

text \<open>
  The shape of a B+tree of height \<open>h\<close>: all leaves at the same depth, one child more than
  separators, and between \<open>lo\<close> and 23 keys in the root and between 11 and 23 elsewhere.
\<close>

fun shape :: "nat \<Rightarrow> nat \<Rightarrow> bt \<Rightarrow> bool" where
  "shape lo h (Leaf p ks vs) \<longleftrightarrow> h = 0 \<and> length vs = length ks \<and> lo \<le> length ks \<and> length ks \<le> 23"
| "shape lo h (Inner p ks ts) \<longleftrightarrow>
     0 < h \<and> length ts = Suc (length ks) \<and> lo \<le> length ks \<and> length ks \<le> 23
     \<and> (\<forall>t \<in> set ts. shape 11 (h - 1) t)"

section \<open>Contexts\<close>

type_synonym frame = "int \<times> int list \<times> bt list \<times> int list \<times> bt list"

fun plug :: "bt \<Rightarrow> frame list \<Rightarrow> bt" where
  "plug t [] = t"
| "plug t ((p, ks1, ts1, ks2, ts2) # c) = plug (Inner p (ks1 @ ks2) (ts1 @ t # ts2)) c"

fun ctx_offs :: "frame list \<Rightarrow> int list" where
  "ctx_offs [] = []"
| "ctx_offs ((p, ks1, ts1, ks2, ts2) # c) = p # concat (map offs ts1) @ concat (map offs ts2) @ ctx_offs c"

fun shape_ctx :: "nat \<Rightarrow> frame list \<Rightarrow> bool" where
  "shape_ctx h [] \<longleftrightarrow> True"
| "shape_ctx h ((p, ks1, ts1, ks2, ts2) # c) \<longleftrightarrow>
     length ks1 = length ts1 \<and> length ks2 = length ts2
     \<and> (if c = [] then 1 else 11) \<le> length ks1 + length ks2 \<and> length ks1 + length ks2 \<le> 23
     \<and> (\<forall>t \<in> set ts1 \<union> set ts2. shape 11 h t) \<and> shape_ctx (Suc h) c"

definition seps :: "(int \<Rightarrow> string) \<Rightarrow> int list \<Rightarrow> item list" where
  "seps K ks = map (\<lambda>k. Sep (K k)) ks"

fun left_of :: "(int \<Rightarrow> string) \<Rightarrow> frame list \<Rightarrow> item list" where
  "left_of K [] = []"
| "left_of K ((p, ks1, ts1, ks2, ts2) # c) = left_of K c @ interleave (seps K ks1) (map (flat K) ts1)"

fun right_of :: "(int \<Rightarrow> string) \<Rightarrow> frame list \<Rightarrow> item list" where
  "right_of K [] = []"
| "right_of K ((p, ks1, ts1, ks2, ts2) # c) =
     concat (map2 (#) (seps K ks2) (map (flat K) ts2)) @ right_of K c"

text \<open>
  Insertion of the separator \<open>s\<close> and the node \<open>t2\<close> behind \<open>t1\<close>: into the frame
  when it has room, else the frame's node is cut at the median and the median is carried
  up with its new right half at the fresh offset \<open>f\<close>; at the top a new root is made.
\<close>

fun carry :: "frame list \<Rightarrow> bt \<Rightarrow> int \<Rightarrow> bt \<Rightarrow> int \<Rightarrow> bt" where
  "carry [] t1 s t2 f = Inner f [s] [t1, t2]"
| "carry ((p, ks1, ts1, ks2, ts2) # c) t1 s t2 f =
     (if length ks1 + length ks2 < 23 then plug (Inner p (ks1 @ s # ks2) (ts1 @ t1 # t2 # ts2)) c
      else if length ks1 \<le> 11
      then carry c (Inner p (ks1 @ s # take (11 - length ks1) ks2)
                     (ts1 @ t1 # t2 # take (11 - length ks1) ts2))
             (ks2 ! (11 - length ks1))
             (Inner f (drop (12 - length ks1) ks2) (drop (11 - length ks1) ts2)) (f + sizeof_node)
      else carry c (Inner p (take 11 ks1) (take 12 ts1)) (ks1 ! 11)
             (Inner f (drop 12 ks1 @ s # ks2) (drop 12 ts1 @ t1 # t2 # ts2)) (f + sizeof_node))"

section \<open>Order\<close>

lemma item_less_trans: "item_less a b \<Longrightarrow> item_less b c \<Longrightarrow> item_less a c"
  by (cases a; cases b; cases c) auto

lemma item_less_keys: "item_less a b \<Longrightarrow> item_key a \<le> item_key b"
  by (cases a; cases b) auto

lemma ents_append [simp]: "ents (xs @ ys) = ents xs @ ents ys"
  by (induction xs rule: ents.induct) auto

lemma in_ents: "(k, v) \<in> set (ents xs) \<longleftrightarrow> Ent k v \<in> set xs"
  by (induction xs rule: ents.induct) auto

lemma ents_sorted: "in_order xs \<Longrightarrow> sorted_wrt (<) (map fst (ents xs))"
  by (induction xs rule: ents.induct) (auto simp: in_ents, fastforce)

lemma interleave_append:
  "length ks1 = length fs1 \<Longrightarrow> interleave (ks1 @ ks2) (fs1 @ fs2) = interleave ks1 fs1 @ interleave ks2 fs2"
  by (induction ks1 fs1 rule: list_induct2) auto

lemma interleave_Cons: "length ks = length fs \<Longrightarrow> interleave ks (f # fs) = f @ concat (map2 (#) ks fs)"
  by (induction ks fs arbitrary: f rule: list_induct2) auto

lemma set_interleave: "length fs = Suc (length ks) \<Longrightarrow> set (interleave ks fs) = set ks \<union> set (concat fs)"
  by (induction ks fs rule: interleave.induct) auto

lemma seps_append [simp]: "seps K (ks1 @ ks2) = seps K ks1 @ seps K ks2"
  and seps_Cons [simp]: "seps K (k # ks) = Sep (K k) # seps K ks"
  and length_seps [simp]: "length (seps K ks) = length ks"
  by (simp_all add: seps_def)

lemma flat_frame:
  assumes "length ks1 = length ts1" "length ks2 = length ts2"
  shows "flat K (Inner p (ks1 @ ks2) (ts1 @ t # ts2)) =
    interleave (seps K ks1) (map (flat K) ts1) @ flat K t @ concat (map2 (#) (seps K ks2) (map (flat K) ts2))"
  using assms by (simp add: seps_def interleave_append interleave_Cons)

lemma flat_plug:
  assumes "shape_ctx h c"
  shows "flat K (plug t c) = left_of K c @ flat K t @ right_of K c"
  using assms
proof (induction c arbitrary: t h)
  case (Cons fr c)
  obtain p ks1 ts1 ks2 ts2 where fr: "fr = (p, ks1, ts1, ks2, ts2)" by (cases fr)
  have "length ks1 = length ts1" "length ks2 = length ts2" "shape_ctx (Suc h) c" using Cons.prems fr by auto
  then show ?case
    using Cons.IH [of "Suc h" "Inner p (ks1 @ ks2) (ts1 @ t # ts2)"] fr
    by (simp del: flat.simps add: flat_frame)
qed simp

lemma shape_plug:
  "shape (if c = [] then 1 else 11) h t \<Longrightarrow> shape_ctx h c \<Longrightarrow> shape 1 (h + length c) (plug t c)"
proof (induction c arbitrary: t h)
  case (Cons fr c)
  obtain p ks1 ts1 ks2 ts2 where fr: "fr = (p, ks1, ts1, ks2, ts2)" by (cases fr)
  with Cons have "shape (if c = [] then 1 else 11) (Suc h) (Inner p (ks1 @ ks2) (ts1 @ t # ts2))"
    by auto
  with Cons fr show ?case by fastforce
qed simp

lemma plug_append: "plug t (c @ d) = plug (plug t c) d"
  by (induction t c rule: plug.induct) auto

lemma offs_plug: "mset (offs (plug t c)) = mset (offs t) + mset (ctx_offs c)"
  by (induction t c rule: plug.induct) auto

section \<open>Carrying a split up\<close>

lemma interleave_cut_left:
  assumes "length ks = length fs" "m < length ks"
  shows "interleave ks fs
    = interleave (take m ks) (take (Suc m) fs) @ ks ! m # interleave (drop (Suc m) ks) (drop (Suc m) fs)"
  using assms
proof (induction ks fs arbitrary: m rule: list_induct2)
  case (Cons k ks f fs)
  then show ?case by (cases m) auto
qed simp

lemma interleave_cut_right:
  assumes "length ks = length fs" "m < length ks"
  shows "concat (map2 (#) ks fs)
    = concat (map2 (#) (take m ks) (take m fs)) @ ks ! m # interleave (drop (Suc m) ks) (drop m fs)"
  using assms
proof (induction ks fs arbitrary: m rule: list_induct2)
  case (Cons k ks f fs)
  then show ?case by (cases m) (auto simp: interleave_Cons)
qed simp

lemma carry_flat:
  "shape_ctx h c \<Longrightarrow>
    flat K (carry c t1 s t2 f) = left_of K c @ flat K t1 @ Sep (K s) # flat K t2 @ right_of K c"
proof (induction c t1 s t2 f arbitrary: h rule: carry.induct)
  case (2 p ks1 ts1 ks2 ts2 c t1 s t2 f)
  let ?F = "map (flat K)"
  have len: "length ks1 = length ts1" "length ks2 = length ts2" "length ks1 + length ks2 \<le> 23"
    and c: "shape_ctx (Suc h) c" using "2.prems" by auto
  have ins: "flat K (Inner q (as @ s # bs) (us @ t1 # t2 # ws)) =
      interleave (seps K as) (?F us) @ flat K t1 @ Sep (K s) # flat K t2 @ concat (map2 (#) (seps K bs) (?F ws))"
    if "length as = length us" "length bs = length ws" for q as bs us ws
    using that by (simp add: seps_def interleave_append interleave_Cons)
  consider "length ks1 + length ks2 < 23" | "length ks1 + length ks2 = 23" "length ks1 \<le> 11"
    | "length ks1 + length ks2 = 23" "\<not> length ks1 \<le> 11"
    using len by linarith
  then show ?case
  proof cases
    case 1
    then show ?thesis using len flat_plug [OF c] ins [OF len(1,2)] by (simp del: flat.simps)
  next
    case 2
    let ?m = "11 - length ks1"
    have m: "?m < length ks2" "12 - length ks1 = Suc ?m" using 2 by auto
    have "flat K (carry ((p, ks1, ts1, ks2, ts2) # c) t1 s t2 f) = left_of K c
        @ flat K (Inner p (ks1 @ s # take ?m ks2) (ts1 @ t1 # t2 # take ?m ts2))
        @ Sep (K (ks2 ! ?m)) # flat K (Inner f (drop (Suc ?m) ks2) (drop ?m ts2)) @ right_of K c"
      using "2.IH"(1) [OF _ _ c] 2 m(2) by (simp del: flat.simps)
    moreover have "concat (map2 (#) (seps K ks2) (?F ts2)) =
        concat (map2 (#) (seps K (take ?m ks2)) (?F (take ?m ts2)))
        @ Sep (K (ks2 ! ?m)) # flat K (Inner f (drop (Suc ?m) ks2) (drop ?m ts2))"
      using interleave_cut_right [of "seps K ks2" "?F ts2" ?m] len m(1)
      by (simp add: seps_def take_map drop_map)
    ultimately show ?thesis using ins [of ks1 ts1 "take ?m ks2" "take ?m ts2"] len by (simp del: flat.simps)
  next
    case 3
    have "flat K (carry ((p, ks1, ts1, ks2, ts2) # c) t1 s t2 f) = left_of K c
        @ flat K (Inner p (take 11 ks1) (take 12 ts1))
        @ Sep (K (ks1 ! 11)) # flat K (Inner f (drop 12 ks1 @ s # ks2) (drop 12 ts1 @ t1 # t2 # ts2))
        @ right_of K c"
      using "2.IH"(2) [OF _ _ c] 3 by (simp del: flat.simps)
    moreover have "interleave (seps K ks1) (?F ts1) = flat K (Inner p (take 11 ks1) (take 12 ts1))
        @ Sep (K (ks1 ! 11)) # interleave (seps K (drop 12 ks1)) (?F (drop 12 ts1))"
      using interleave_cut_left [of "seps K ks1" "?F ts1" 11] len 3
      by (simp add: seps_def take_map drop_map)
    ultimately show ?thesis using ins [of "drop 12 ks1" "drop 12 ts1" ks2 ts2] len by (simp del: flat.simps)
  qed
qed simp

lemma carry_shape:
  "shape_ctx h c \<Longrightarrow> shape 11 h t1 \<Longrightarrow> shape 11 h t2 \<Longrightarrow> \<exists>H. shape 1 H (carry c t1 s t2 f)"
proof (induction c t1 s t2 f arbitrary: h rule: carry.induct)
  case (1 t1 s t2 f)
  then have "shape 1 (Suc h) (Inner f [s] [t1, t2])" by simp
  then show ?case by (metis carry.simps(1))
next
  case (2 p ks1 ts1 ks2 ts2 c t1 s t2 f)
  have len: "length ks1 = length ts1" "length ks2 = length ts2" "length ks1 + length ks2 \<le> 23"
    and c: "shape_ctx (Suc h) c" and kids: "\<forall>t \<in> set ts1 \<union> set ts2. shape 11 h t"
    using "2.prems" by auto
  consider "length ks1 + length ks2 < 23" | "length ks1 + length ks2 = 23" "length ks1 \<le> 11"
    | "length ks1 + length ks2 = 23" "\<not> length ks1 \<le> 11"
    using len by linarith
  then show ?case
  proof cases
    case 1
    then have "shape (if c = [] then 1 else 11) (Suc h) (Inner p (ks1 @ s # ks2) (ts1 @ t1 # t2 # ts2))"
      using len kids "2.prems" by auto
    from shape_plug [OF this c] 1 show ?thesis by (metis carry.simps(2))
  next
    case 2
    let ?m = "11 - length ks1"
    have "shape 11 (Suc h) (Inner p (ks1 @ s # take ?m ks2) (ts1 @ t1 # t2 # take ?m ts2))"
      using 2 len kids "2.prems"(2,3) by (auto dest: in_set_takeD)
    moreover have "shape 11 (Suc h) (Inner f (drop (12 - length ks1) ks2) (drop ?m ts2))"
      using 2 len kids by (auto dest: in_set_dropD)
    ultimately show ?thesis using "2.IH"(1) [OF _ _ c] 2 by simp
  next
    case 3
    have "shape 11 (Suc h) (Inner p (take 11 ks1) (take 12 ts1))"
      using 3 len kids by (auto dest: in_set_takeD)
    moreover have "shape 11 (Suc h) (Inner f (drop 12 ks1 @ s # ks2) (drop 12 ts1 @ t1 # t2 # ts2))"
      using 3 len kids "2.prems"(2,3) by (auto dest: in_set_dropD)
    ultimately show ?thesis using "2.IH"(2) [OF _ _ c] 3 by simp
  qed
qed

text \<open>How many nodes are made above the first split, and where.\<close>

fun fresh :: "frame list \<Rightarrow> nat" where
  "fresh [] = 1"
| "fresh ((p, ks1, ts1, ks2, ts2) # c) = (if length ks1 + length ks2 < 23 then 0 else Suc (fresh c))"

definition fresh_offs :: "int \<Rightarrow> nat \<Rightarrow> int list" where
  "fresh_offs f n = map (\<lambda>i. f + sizeof_node * int i) [0..<n]"

lemma fresh_offs_Suc: "fresh_offs f (Suc n) = f # fresh_offs (f + sizeof_node) n"
  by (simp add: fresh_offs_def map_upt_Suc algebra_simps del: upt_Suc)

lemma carry_offs:
  "mset (offs (carry c t1 s t2 f)) = mset (ctx_offs c @ offs t1 @ offs t2 @ fresh_offs f (fresh c))"
proof (induction c t1 s t2 f rule: carry.induct)
  case (1 t1 s t2 f)
  then show ?case by (simp add: fresh_offs_def)
next
  case (2 p ks1 ts1 ks2 ts2 c t1 s t2 f)
  have cut: "mset (concat (map offs ts)) = mset (concat (map offs (take n ts))) + mset (concat (map offs (drop n ts)))"
    for ts n by (metis append_take_drop_id concat_append map_append mset_append)
  consider "length ks1 + length ks2 < 23" | "\<not> length ks1 + length ks2 < 23" "length ks1 \<le> 11"
    | "\<not> length ks1 + length ks2 < 23" "\<not> length ks1 \<le> 11" by linarith
  then show ?case
  proof cases
    case 1
    then show ?thesis by (simp add: offs_plug fresh_offs_def)
  next
    case 2
    then show ?thesis using "2.IH"(1) cut [of ts2 "11 - length ks1"] by (simp add: fresh_offs_Suc)
  next
    case 3
    then show ?thesis using "2.IH"(2) cut [of ts1 12] by (simp add: fresh_offs_Suc)
  qed
qed

section \<open>Inserting an entry\<close>

definition leaf_ins :: "(int \<Rightarrow> string) \<Rightarrow> int \<Rightarrow> int \<Rightarrow> int \<Rightarrow> int list \<Rightarrow> int list \<Rightarrow> bt" where
  "leaf_ins K k v p ks vs =
     (let i = key_pos K k ks in Leaf p (insert_at i k ks) (insert_at i v vs))"

text \<open>
  The entry goes into the leaf; a full leaf is cut at the median first and the entry goes
  into the half it belongs to, the right half being the new node at the offset \<open>f\<close>.
\<close>

definition tree_insert :: "(int \<Rightarrow> string) \<Rightarrow> int \<Rightarrow> int \<Rightarrow> frame list \<Rightarrow> int \<Rightarrow> int list \<Rightarrow> int list \<Rightarrow> int \<Rightarrow> bt" where
  "tree_insert K k v c p ks vs f =
     (if length ks < 23 then plug (leaf_ins K k v p ks vs) c
      else if K k < K (ks ! 11)
      then carry c (leaf_ins K k v p (take 11 ks) (take 11 vs)) (ks ! 11)
             (Leaf f (drop 11 ks) (drop 11 vs)) (f + sizeof_node)
      else carry c (Leaf p (take 11 ks) (take 11 vs)) (ks ! 11)
             (leaf_ins K k v f (drop 11 ks) (drop 11 vs)) (f + sizeof_node))"

lemma key_pos_append:
  assumes "\<forall>a \<in> set as. \<not> K k < K a"
  shows "key_pos K k (as @ bs) = length as + key_pos K k bs"
  using assms by (simp add: key_pos_def)

lemma key_pos_stop:
  assumes "bs \<noteq> []" "K k < K (hd bs)"
  shows "key_pos K k (as @ bs) = key_pos K k as"
  using assms by (induction as) (auto simp: key_pos_def hd_conv_nth neq_Nil_conv)

lemma key_pos_between:
  assumes "\<forall>a \<in> set as. \<not> K k < K a" "\<forall>b \<in> set bs. K k < K b"
  shows "key_pos K k (as @ bs) = length as"
  using assms key_pos_append [of as K k bs] by (cases bs) (auto simp: key_pos_def)

lemma insert_at_append: "insert_at (length as) x (as @ bs) = as @ x # bs"
  by (simp add: insert_at_def)

lemma insert_at_append_right: "insert_at (length as + i) x (as @ bs) = as @ insert_at i x bs"
  by (simp add: insert_at_def)

lemma insert_at_append_left: "i \<le> length as \<Longrightarrow> insert_at i x (as @ bs) = insert_at i x as @ bs"
  by (simp add: insert_at_def)

lemma zip_insert_at:
  "length as = length bs \<Longrightarrow> zip (insert_at i a as) (insert_at i b bs) = insert_at i (a, b) (zip as bs)"
  by (simp add: insert_at_def take_zip drop_zip min_def)

lemma leaf_ins_flat:
  "length vs = length ks \<Longrightarrow>
    flat K (leaf_ins K k v p ks vs) = insert_at (key_pos K k ks) (Ent (K k) v) (flat K (Leaf p ks vs))"
  by (simp add: leaf_ins_def Let_def zip_insert_at map_insert_at)

lemma off_leaf_ins [simp]: "off (leaf_ins K k v p ks vs) = p"
  and offs_leaf_ins [simp]: "offs (leaf_ins K k v p ks vs) = [p]"
  by (simp_all add: leaf_ins_def Let_def)

lemma sorted_keys:
  assumes "length vs = length ks" "in_order (flat K (Leaf p ks vs))"
  shows "sorted_wrt (\<lambda>a b. K a < K b) ks"
proof -
  have "ks ! i = a \<and> ks ! j = b \<longrightarrow> K a < K b" if "i < j" "j < length ks" for i j a b
    using that assms sorted_wrt_nth_less [OF assms(2), of i j] by auto
  then show ?thesis by (simp add: sorted_wrt_iff_nth_less)
qed

text \<open>Cutting a full leaf and inserting into one half is inserting into the whole.\<close>

lemma leaf_cut_flat:
  assumes "length vs = length ks" "length ks = 23" "sorted_wrt (\<lambda>a b. K a < K b) ks"
  shows "(if K k < K (ks ! 11)
      then flat K (leaf_ins K k v p (take 11 ks) (take 11 vs)) @ flat K (Leaf f (drop 11 ks) (drop 11 vs))
      else flat K (Leaf p (take 11 ks) (take 11 vs)) @ flat K (leaf_ins K k v f (drop 11 ks) (drop 11 vs)))
    = insert_at (key_pos K k ks) (Ent (K k) v) (flat K (Leaf p ks vs))"
proof -
  let ?a = "take 11 ks" and ?b = "drop 11 ks"
  have ks: "ks = ?a @ ?b" and hd: "?b \<noteq> []" "hd ?b = ks ! 11"
    using assms(2) by (simp_all add: hd_drop_conv_nth)
  have E: "flat K (Leaf p ks vs) = flat K (Leaf p ?a (take 11 vs)) @ flat K (Leaf f ?b (drop 11 vs))"
    by (simp flip: map_append take_zip drop_zip)
  have len: "length (flat K (Leaf p ?a (take 11 vs))) = length ?a" using assms(1,2) by simp
  show ?thesis
  proof (cases "K k < K (ks ! 11)")
    case True
    then have "key_pos K k ks = key_pos K k ?a" using key_pos_stop [of ?b K k ?a] hd ks by simp
    then show ?thesis
      using True assms(1) len key_pos_le [of K k ?a] unfolding E
      by (simp add: leaf_ins_flat insert_at_append_left del: flat.simps)
  next
    case False
    have "\<forall>x \<in> set ?a. K x < K (ks ! 11)"
    proof
      fix x assume "x \<in> set ?a"
      then obtain j where "j < 11" "x = ks ! j" using assms(2) by (auto simp: in_set_conv_nth)
      then show "K x < K (ks ! 11)" using assms(2,3) by (simp add: sorted_wrt_iff_nth_less)
    qed
    then have "key_pos K k ks = length ?a + key_pos K k ?b"
      using False key_pos_append [of ?a K k ?b] ks by (metis order_less_trans)
    then show ?thesis
      using False assms(1) len insert_at_append_right [of "flat K (Leaf p ?a (take 11 vs))"] unfolding E
      by (simp add: leaf_ins_flat del: flat.simps)
  qed
qed

lemma omap_put_between:
  assumes "\<forall>e \<in> set xs. fst e < k" "\<forall>e \<in> set ys. k < fst e"
  shows "omap_put k v (xs @ ys) = xs @ (k, v) # ys"
  using assms
proof (induction xs)
  case Nil
  then show ?case by (cases ys) auto
qed auto

lemma ents_in_set: "e \<in> set (ents xs) \<longleftrightarrow> Ent (fst e) (snd e) \<in> set xs"
  by (cases e) (simp add: in_ents)

text \<open>Where a new key belongs among the entries of a leaf.\<close>

lemma leaf_position:
  assumes "length vs = length ks" "sorted_wrt (\<lambda>a b. K a < K b) ks" "K k \<notin> K ` set ks"
  shows "(\<forall>x \<in> set (take (key_pos K k ks) (flat K (Leaf p ks vs))). item_less x (Ent (K k) v))
    \<and> (\<forall>x \<in> set (drop (key_pos K k ks) (flat K (Leaf p ks vs))). item_less (Ent (K k) v) x)"
proof -
  let ?i = "key_pos K k ks" and ?E = "flat K (Leaf p ks vs)"
  have lt: "K (ks ! j) < K k" if "j < ?i" for j
  proof -
    have j: "j < length ks" "ks ! j = takeWhile (\<lambda>a. \<not> K k < K a) ks ! j"
      using that key_pos_le [of K k ks] by (simp_all add: key_pos_def List.takeWhile_nth)
    then have "\<not> K k < K (ks ! j)"
      using that set_takeWhileD nth_mem by (metis (mono_tags, lifting) key_pos_def)
    moreover have "K (ks ! j) \<noteq> K k" using j(1) assms(3) by (metis imageI nth_mem)
    ultimately show ?thesis by simp
  qed
  have gt: "K k < K (ks ! j)" if "?i \<le> j" "j < length ks" for j
  proof -
    have "K k < K (ks ! ?i)"
      using that nth_length_takeWhile [of "\<lambda>a. \<not> K k < K a" ks] by (simp add: key_pos_def)
    then show ?thesis
      using that assms(2) by (cases "j = ?i") (auto simp: sorted_wrt_iff_nth_less intro: less_trans)
  qed
  have E: "j < length ks \<Longrightarrow> ?E ! j = Ent (K (ks ! j)) (vs ! j)" "length ?E = length ks" for j
    using assms(1) by simp_all
  show ?thesis
    using lt gt E key_pos_le [of K k ks]
    by (auto simp: in_set_conv_nth simp del: flat.simps)
qed

lemma sep_insert:
  assumes "in_order (L @ X @ Y @ R)" "Y = Ent m w # Y'" "X \<noteq> []" "\<forall>x \<in> set X. \<exists>a b. x = Ent a b"
  shows "in_order (L @ X @ Sep m # Y @ R)"
proof -
  have X: "item_less x (Sep m)" if "x \<in> set X" for x
    using that assms by (force simp: sorted_wrt_append)
  have "item_less x (Sep m)" if "x \<in> set L" for x
    using that assms(1,3) X by (metis UnCI item_less_trans last_in_set set_append sorted_wrt_append)
  moreover have "item_less (Sep m) y" if "y \<in> set Y \<union> set R" for y
  proof -
    have "y = Ent m w \<or> item_less (Ent m w) y" using that assms(1,2) by (auto simp: sorted_wrt_append)
    then show ?thesis by (cases y) auto
  qed
  ultimately show ?thesis using assms(1) X by (auto simp: sorted_wrt_append)
qed

lemma tree_insert_flat:
  assumes "shape_ctx 0 c" "length vs = length ks" "length ks \<le> 23"
    and ord: "in_order (left_of K c @ flat K (Leaf p ks vs) @ right_of K c)"
    and new: "K k \<notin> K ` set ks"
    and L: "\<forall>x \<in> set (left_of K c). item_less x (Ent (K k) v)"
    and R: "\<forall>x \<in> set (right_of K c). item_less (Ent (K k) v) x"
  shows "in_order (flat K (tree_insert K k v c p ks vs f))
    \<and> ents (flat K (tree_insert K k v c p ks vs f)) = omap_put (K k) v (ents (flat K (plug (Leaf p ks vs) c)))"
proof -
  let ?E = "flat K (Leaf p ks vs)" and ?e = "Ent (K k) v" and ?i = "key_pos K k ks"
  let ?E' = "insert_at ?i ?e ?E" and ?L = "left_of K c" and ?R = "right_of K c"
  have sorted: "sorted_wrt (\<lambda>a b. K a < K b) ks"
    using sorted_keys [of vs ks K p] assms(2) ord by (simp add: sorted_wrt_append del: flat.simps)
  note pos = leaf_position [OF assms(2) sorted new, of p v]
  have ord2: "in_order ((?L @ take ?i ?E) @ drop ?i ?E @ ?R)"
    using ord by (metis append.assoc append_take_drop_id)
  then have ord': "in_order (?L @ ?E' @ ?R)"
    using L R pos by (auto simp: insert_at_def sorted_wrt_append simp del: flat.simps)
  have put: "ents (?L @ ?E' @ ?R) = omap_put (K k) v (ents (?L @ ?E @ ?R))"
  proof -
    have "ents (?L @ ?E @ ?R) = ents (?L @ take ?i ?E) @ ents (drop ?i ?E @ ?R)"
      by (metis append.assoc append_take_drop_id ents_append)
    moreover have "\<forall>e \<in> set (ents (?L @ take ?i ?E)). fst e < K k"
      using L pos by (fastforce simp: ents_in_set simp del: flat.simps)
    moreover have "\<forall>e \<in> set (ents (drop ?i ?E @ ?R)). K k < fst e"
      using R pos by (fastforce simp: ents_in_set simp del: flat.simps)
    ultimately have "omap_put (K k) v (ents (?L @ ?E @ ?R))
        = ents (?L @ take ?i ?E) @ (K k, v) # ents (drop ?i ?E @ ?R)"
      by (simp only: omap_put_between)
    then show ?thesis by (simp add: insert_at_def del: flat.simps)
  qed
  have goal: ?thesis if "flat K (tree_insert K k v c p ks vs f) = ?L @ X @ Z @ ?R"
      "Z = Y \<or> Z = Sep (K (ks ! 11)) # Y \<and> X \<noteq> [] \<and> (\<exists>w Y'. Y = Ent (K (ks ! 11)) w # Y')" "X @ Y = ?E'"
    for X Y Z
  proof -
    have "\<forall>x \<in> set X. \<exists>a b. x = Ent a b"
    proof
      fix x assume "x \<in> set X"
      then have "x \<in> set ?E'" using that(3) by (metis UnCI set_append)
      then show "\<exists>a b. x = Ent a b" by auto
    qed
    then have "in_order (?L @ X @ Z @ ?R)"
      using that(2,3) ord' sep_insert [of ?L X Y ?R] by (metis append.assoc append_Cons)
    moreover have "ents (?L @ X @ Z @ ?R) = ents (?L @ ?E' @ ?R)"
      using that(2) unfolding that(3) [symmetric] by auto
    ultimately show ?thesis using put by (simp only: that(1) flat_plug [OF assms(1)])
  qed
  show ?thesis
  proof (cases "length ks < 23")
    case True
    then show ?thesis
      using goal [of "?E'" "[]" "[]"] flat_plug [OF assms(1)] leaf_ins_flat [OF assms(2)]
      by (simp add: tree_insert_def del: flat.simps)
  next
    case False
    then have full: "length ks = 23" using assms(3) by simp
    let ?t1 = "if K k < K (ks ! 11) then leaf_ins K k v p (take 11 ks) (take 11 vs) else Leaf p (take 11 ks) (take 11 vs)"
    let ?t2 = "if K k < K (ks ! 11) then Leaf f (drop 11 ks) (drop 11 vs) else leaf_ins K k v f (drop 11 ks) (drop 11 vs)"
    have cut: "flat K ?t1 @ flat K ?t2 = ?E'" using leaf_cut_flat [OF assms(2) full sorted, of k v p f] by auto
    have drop: "drop 11 ks = ks ! 11 # drop 12 ks" "drop 11 vs = vs ! 11 # drop 12 vs"
      using full assms(2) Cons_nth_drop_Suc [of 11 ks] Cons_nth_drop_Suc [of 11 vs] by simp_all
    have "flat K ?t1 \<noteq> []" using full assms(2) by (auto simp: leaf_ins_def Let_def insert_at_def)
    moreover have "\<exists>w Y'. flat K ?t2 = Ent (K (ks ! 11)) w # Y'"
      unfolding drop by (auto simp: leaf_ins_def Let_def key_pos_def insert_at_def)
    moreover have "flat K (tree_insert K k v c p ks vs f) = ?L @ flat K ?t1 @ (Sep (K (ks ! 11)) # flat K ?t2) @ ?R"
      using full carry_flat [OF assms(1)] by (simp add: tree_insert_def)
    ultimately show ?thesis using goal [of "flat K ?t1" "Sep (K (ks ! 11)) # flat K ?t2" "flat K ?t2"] cut by simp
  qed
qed

lemma tree_insert_shape:
  assumes "shape_ctx 0 c" "shape (if c = [] then 1 else 11) 0 (Leaf p ks vs)"
  shows "\<exists>H. shape 1 H (tree_insert K k v c p ks vs f)"
proof (cases "length ks < 23")
  case True
  then have "shape (if c = [] then 1 else 11) 0 (leaf_ins K k v p ks vs)"
    using assms(2) by (simp add: leaf_ins_def Let_def)
  from shape_plug [OF this assms(1)] True show ?thesis by (auto simp: tree_insert_def)
next
  case False
  then have full: "length ks = 23" "length vs = 23" using assms(2) by auto
  then have "shape 11 0 (leaf_ins K k v p (take 11 ks) (take 11 vs))" "shape 11 0 (Leaf f (drop 11 ks) (drop 11 vs))"
      "shape 11 0 (Leaf p (take 11 ks) (take 11 vs))" "shape 11 0 (leaf_ins K k v f (drop 11 ks) (drop 11 vs))"
    by (auto simp: leaf_ins_def Let_def)
  then show ?thesis
    using full carry_shape [OF assms(1)] by (auto simp: tree_insert_def simp del: One_nat_def)
qed

lemma tree_insert_offs:
  "mset (offs (tree_insert K k v c p ks vs f)) = mset (ctx_offs c) + {#p#}
     + (if length ks < 23 then {#} else mset (fresh_offs f (Suc (fresh c))))"
  by (auto simp: tree_insert_def offs_plug carry_offs fresh_offs_Suc)

section \<open>The way down\<close>

text \<open>
  Going from a node to a leaf, \<open>pick\<close> choosing the child from the separators; the result
  is the leaf with its context.
\<close>

function descend :: "(int list \<Rightarrow> nat) \<Rightarrow> frame list \<Rightarrow> bt \<Rightarrow> frame list \<times> bt" where
  "descend pick c (Leaf p ks vs) = (c, Leaf p ks vs)"
| "descend pick c (Inner p ks ts) =
     (let i = pick ks
      in if i < length ts
         then descend pick ((p, take i ks, take i ts, drop i ks, drop (Suc i) ts) # c) (ts ! i)
         else (c, Inner p ks ts))"
  by pat_completeness auto
termination
  by (relation "measure (\<lambda>(pick, c, t). size t)")
    (auto simp: less_Suc_eq_le intro: size_list_estimation' [OF nth_mem])

text \<open>What makes a choice right for a key: the separators before it are at most the key, the others are larger.\<close>

definition pick_ok :: "(int \<Rightarrow> string) \<Rightarrow> string \<Rightarrow> (int list \<Rightarrow> nat) \<Rightarrow> int list \<Rightarrow> bool" where
  "pick_ok K key pick ks \<longleftrightarrow> pick ks \<le> length ks
     \<and> (\<forall>k \<in> set (take (pick ks) ks). K k \<le> key) \<and> (\<forall>k \<in> set (drop (pick ks) ks). key < K k)"

fun keys_of_inner :: "bt \<Rightarrow> int list set" where
  "keys_of_inner (Leaf p ks vs) = {}"
| "keys_of_inner (Inner p ks ts) = insert ks (\<Union>t \<in> set ts. keys_of_inner t)"

definition beside :: "(int \<Rightarrow> string) \<Rightarrow> string \<Rightarrow> frame list \<Rightarrow> bool" where
  "beside K key c \<longleftrightarrow> (\<forall>x \<in> set (left_of K c). \<forall>v. item_less x (Ent key v))
     \<and> (\<forall>x \<in> set (right_of K c). \<forall>v. item_less (Ent key v) x)"

lemma last_interleave: "length ks = length fs \<Longrightarrow> ks \<noteq> [] \<Longrightarrow> \<exists>xs. interleave ks fs = xs @ [last ks]"
proof (induction ks fs rule: list_induct2)
  case (Cons k ks f fs)
  show ?case
  proof (cases "ks = []")
    case False
    then obtain xs where "interleave ks fs = xs @ [last ks]" using Cons.IH by blast
    then have "interleave (k # ks) (f # fs) = (f @ k # xs) @ [last (k # ks)]" using False by simp
    then show ?thesis by blast
  qed (use Cons in auto)
qed simp

lemma beside_frame:
  assumes "beside K key c" "length ts = Suc (length ks)" "pick_ok K key pick ks" "i = pick ks"
    and ord: "in_order (flat K (Inner p ks ts))"
  shows "beside K key ((p, take i ks, take i ts, drop i ks, drop (Suc i) ts) # c)"
proof -
  have i: "i \<le> length ks" "i < length ts" using assms(2-4) by (simp_all add: pick_ok_def)
  let ?ks1 = "seps K (take i ks)" and ?ts1 = "map (flat K) (take i ts)"
  let ?ks2 = "seps K (drop i ks)" and ?ts2 = "map (flat K) (drop (Suc i) ts)"
  have "flat K (Inner p (take i ks @ drop i ks) (take i ts @ ts ! i # drop (Suc i) ts)) =
      interleave ?ks1 ?ts1 @ flat K (ts ! i) @ concat (map2 (#) ?ks2 ?ts2)"
    using i assms(2) by (intro flat_frame) auto
  then have ord2: "in_order (interleave ?ks1 ?ts1)" "in_order (concat (map2 (#) ?ks2 ?ts2))"
    using ord i(2) by (simp_all add: id_take_nth_drop [symmetric] sorted_wrt_append del: flat.simps)
  have "item_less x (Ent key v)" if "x \<in> set (interleave ?ks1 ?ts1)" for x v
  proof -
    have ne: "take i ks \<noteq> []" using that i assms(2) by (cases "take i ks = []") (auto simp: seps_def)
    then obtain xs where xs: "interleave ?ks1 ?ts1 = xs @ [Sep (K (last (take i ks)))]"
      using last_interleave [of ?ks1 ?ts1] i assms(2) by (auto simp: seps_def last_map)
    have "K (last (take i ks)) \<le> key" using assms(3,4) ne by (auto simp: pick_ok_def)
    then have "item_less (Sep (K (last (take i ks)))) (Ent key v)" by simp
    then show ?thesis using that ord2(1) item_less_trans unfolding xs by (auto simp: sorted_wrt_append)
  qed
  moreover have "item_less (Ent key v) x" if x: "x \<in> set (concat (map2 (#) ?ks2 ?ts2))" for x v
  proof -
    obtain a as where as: "drop i ks = a # as" using x by (cases "drop i ks") (auto simp: seps_def)
    obtain t us where us: "drop (Suc i) ts = t # us"
      using as i assms(2) by (cases "drop (Suc i) ts") (auto simp: drop_eq_Nil)
    have "item_less (Ent key v) (Sep (K a))" using assms(3,4) as by (auto simp: pick_ok_def)
    moreover obtain xs where xs: "concat (map2 (#) ?ks2 ?ts2) = Sep (K a) # xs" by (simp add: as us)
    have "x = Sep (K a) \<or> item_less (Sep (K a)) x" using x ord2(2) unfolding xs by auto
    ultimately show ?thesis using item_less_trans by blast
  qed
  ultimately show ?thesis
    using assms(1) unfolding beside_def left_of.simps right_of.simps set_append by blast
qed

text \<open>Right choices lead to the leaf the key belongs to.\<close>

lemma path_leaf:
  assumes "shape (if c = [] then 1 else 11) h t" "shape_ctx h c" "in_order (flat K (plug t c))"
    and "\<forall>ks \<in> keys_of_inner t. pick_ok K key pick ks" "beside K key c"
  shows "\<exists>c' p ks vs. descend pick c t = (c', Leaf p ks vs) \<and> plug (Leaf p ks vs) c' = plug t c
    \<and> shape_ctx 0 c' \<and> shape (if c' = [] then 1 else 11) 0 (Leaf p ks vs) \<and> beside K key c'"
  using assms
proof (induction pick c t arbitrary: h rule: descend.induct)
  case (1 pick c p ks vs)
  then show ?case by auto
next
  case (2 pick c p ks ts)
  let ?i = "pick ks"
  let ?c = "(p, take ?i ks, take ?i ts, drop ?i ks, drop (Suc ?i) ts) # c"
  have i: "?i < length ts" "?i \<le> length ks" and h: "0 < h" "shape 11 (h - 1) (ts ! ?i)"
    using "2.prems"(1,4) by (auto simp: pick_ok_def)
  have cut: "ts = take ?i ts @ ts ! ?i # drop (Suc ?i) ts" by (rule id_take_nth_drop [OF i(1)])
  have plug: "plug (ts ! ?i) ?c = plug (Inner p ks ts) c" using cut by simp
  have "in_order (flat K (Inner p ks ts))"
    using "2.prems"(3) flat_plug [OF "2.prems"(2)] by (simp add: sorted_wrt_append del: flat.simps)
  then have "beside K key ?c"
    using beside_frame [OF "2.prems"(5), of ts ks pick ?i p] "2.prems"(1,4) by simp
  moreover have "shape_ctx (h - 1) ?c"
    using "2.prems"(1,2) i h(1) by (auto dest: in_set_takeD in_set_dropD)
  moreover have "\<forall>ks \<in> keys_of_inner (ts ! ?i). pick_ok K key pick ks"
    using "2.prems"(4) i(1) by auto
  moreover have "shape (if ?c = [] then 1 else 11) (h - 1) (ts ! ?i)" using h(2) by simp
  moreover have "descend pick c (Inner p ks ts) = descend pick ?c (ts ! ?i)" using i(1) by (simp add: Let_def)
  ultimately show ?case
    using "2.IH" [OF refl i(1), of "h - 1"] "2.prems"(3) plug by metis
qed

text \<open>The right choice: as many separators as are not larger than the key.\<close>

definition child_idx :: "(int \<Rightarrow> string) \<Rightarrow> string \<Rightarrow> int list \<Rightarrow> nat" where
  "child_idx K key ks = length (takeWhile (\<lambda>k. K k \<le> key) ks)"

lemma interleave_seps_sorted:
  "length fs = Suc (length ks) \<Longrightarrow> in_order (interleave (seps K ks) fs) \<Longrightarrow>
    sorted_wrt (\<lambda>a b. K a < K b) ks \<and> (\<forall>f \<in> set fs. in_order f)"
proof (induction ks arbitrary: fs)
  case Nil
  then show ?case by (cases fs) (auto simp: seps_def)
next
  case (Cons k ks)
  then obtain f fs' where fs: "fs = f # fs'" by (cases fs) auto
  then have len: "length fs' = Suc (length ks)" using Cons.prems(1) by simp
  have "\<forall>x \<in> set (seps K ks). item_less (Sep (K k)) x"
    using Cons.prems(2) set_interleave [of fs' "seps K ks"] len fs by (simp add: sorted_wrt_append)
  then have "\<forall>b \<in> set ks. K k < K b" by (auto simp: seps_def)
  then show ?case using Cons.IH [OF len] Cons.prems(2) fs by (auto simp: sorted_wrt_append)
qed

lemma inner_keys:
  assumes "shape lo h t" "in_order (flat K t)" "ks \<in> keys_of_inner t"
  shows "sorted_wrt (\<lambda>a b. K a < K b) ks \<and> min lo 11 \<le> length ks \<and> (\<forall>k \<in> set ks. Sep (K k) \<in> set (flat K t))"
  using assms
proof (induction t arbitrary: lo h)
  case (Inner p ks' ts)
  have len: "length (map (flat K) ts) = Suc (length ks')" using Inner.prems(1) by simp
  note ord = interleave_seps_sorted [OF len, of K] Inner.prems(2)
  have set: "set (flat K (Inner p ks' ts)) = set (seps K ks') \<union> (\<Union>t \<in> set ts. set (flat K t))"
    using set_interleave [of "map (flat K) ts" "seps K ks'"] len by (auto simp: seps_def)
  show ?case
  proof (cases "ks = ks'")
    case True
    then show ?thesis using ord set Inner.prems(1) by (auto simp: seps_def)
  next
    case False
    then obtain t where t: "t \<in> set ts" "ks \<in> keys_of_inner t" using Inner.prems(3) by auto
    moreover have "shape 11 (h - 1) t" "in_order (flat K t)"
      using t ord Inner.prems(1) by (auto simp: seps_def)
    ultimately show ?thesis using Inner.IH [of t 11 "h - 1"] set by auto
  qed
qed simp

lemma child_idx_ok:
  assumes "sorted_wrt (\<lambda>a b. K a < K b) ks"
  shows "pick_ok K key (child_idx K key) ks"
proof -
  let ?i = "child_idx K key ks"
  have "key < K x" if x: "x \<in> set (drop ?i ks)" for x
  proof -
    obtain y ys where ys: "drop ?i ks = y # ys" using x by (cases "drop ?i ks") auto
    then have "\<not> K y \<le> key"
      by (metis (mono_tags, lifting) child_idx_def dropWhile_eq_drop hd_dropWhile list.discI list.sel(1))
    moreover have "sorted_wrt (\<lambda>a b. K a < K b) (y # ys)" using assms ys sorted_wrt_drop by metis
    ultimately show ?thesis using x unfolding ys by auto
  qed
  moreover have "K x \<le> key" if "x \<in> set (take ?i ks)" for x
  proof -
    have "take ?i ks = takeWhile (\<lambda>k. K k \<le> key) ks"
      unfolding child_idx_def by (rule takeWhile_eq_take [symmetric])
    then show ?thesis using that set_takeWhileD [of x "\<lambda>k. K k \<le> key" ks] by simp
  qed
  moreover have "?i \<le> length ks" by (simp add: child_idx_def length_takeWhile_le)
  ultimately show ?thesis unfolding pick_ok_def by blast
qed

text \<open>The leaf on the way of a key and what it says about the whole tree.\<close>

lemma way_down:
  assumes "shape 1 H t" "in_order (flat K t)"
  obtains c p ks vs where "descend (child_idx K key) [] t = (c, Leaf p ks vs)" "plug (Leaf p ks vs) c = t"
    "shape_ctx 0 c" "shape (if c = [] then 1 else 11) 0 (Leaf p ks vs)" "beside K key c"
proof -
  have "\<forall>ks \<in> keys_of_inner t. pick_ok K key (child_idx K key) ks"
    using inner_keys [OF assms] child_idx_ok by blast
  moreover have "beside K key []" by (simp add: beside_def)
  moreover have "shape (if ([] :: frame list) = [] then 1 else 11) H t" "shape_ctx H []"
    "in_order (flat K (plug t []))"
    using assms by simp_all
  ultimately obtain c p ks vs where "descend (child_idx K key) [] t = (c, Leaf p ks vs)"
      "plug (Leaf p ks vs) c = plug t []" "shape_ctx 0 c" "shape (if c = [] then 1 else 11) 0 (Leaf p ks vs)"
      "beside K key c"
    using path_leaf [of "[]" H t K key "child_idx K key"] by blast
  then show thesis using that by simp
qed

lemma map_of_beside:
  assumes "beside K key c"
  shows "map_of (ents (left_of K c @ E @ right_of K c)) key = map_of (ents E) key"
proof -
  have "key \<notin> fst ` set (ents (left_of K c))" "key \<notin> fst ` set (ents (right_of K c))"
    using assms by (fastforce simp: beside_def ents_in_set)+
  then have "map_of (ents (left_of K c)) key = None" "map_of (ents (right_of K c)) key = None"
    by (simp_all add: map_of_eq_None_iff)
  then show ?thesis by (simp add: map_add_def split: option.splits)
qed

section \<open>Size\<close>

lemma shape_size: "shape 11 h t \<Longrightarrow> 11 * 12 ^ h \<le> length (ents (flat K t))"
proof (induction t arbitrary: h)
  case (Leaf p ks vs)
  have "length (ents (map2 (\<lambda>k v. Ent (K k) v) ks vs)) = length ks" if "length ks = length vs"
    using that by (induction ks vs rule: list_induct2) auto
  then show ?case using Leaf by simp
next
  case (Inner p ks ts)
  have len: "length ts = Suc (length ks)" "11 \<le> length ks" "0 < h" using Inner.prems by auto
  have "ents (interleave (seps K ks) (map (flat K) ts)) = concat (map (\<lambda>t. ents (flat K t)) ts)"
  proof -
    have "length ks < length fs \<Longrightarrow> ents (interleave (seps K ks) fs) = concat (map ents fs)" for fs
    proof (induction "seps K ks" fs arbitrary: ks rule: interleave.induct)
      case (1 fs)
      have "ents (concat fs) = concat (map ents fs)" by (induction fs) auto
      then show ?case using 1 by (simp add: seps_def)
    qed (auto simp: seps_def)
    from this [of "map (flat K) ts"] show ?thesis using len by (simp add: comp_def)
  qed
  then have "length (ents (flat K (Inner p ks ts))) = sum_list (map (\<lambda>t. length (ents (flat K t))) ts)"
    by (simp add: seps_def length_concat comp_def)
  moreover have "length ts * (11 * 12 ^ (h - 1)) \<le> sum_list (map (\<lambda>t. length (ents (flat K t))) ts)"
  proof -
    have "\<forall>t \<in> set ts. 11 * 12 ^ (h - 1) \<le> length (ents (flat K t))" using Inner by auto
    then show ?thesis by (induction ts) auto
  qed
  moreover have "11 * 12 ^ h \<le> length ts * (11 * 12 ^ (h - 1))"
    using len by (cases h) auto
  ultimately show ?case by linarith
qed

end
