(* ===== verification/Bplus_Insert.thy ===== *)
theory Bplus_Insert
  imports Bplus_Tree
begin

text \<open>
  The image operations carry out the tree operations. \<open>rep N q t\<close> says that the nodes
  \<open>N\<close> of an image hold the tree \<open>t\<close>, whose root has the parent offset \<open>q\<close>. The main
  lemma \<open>climb_carry\<close> shows that what \<open>split_insert_node\<close> does after a split, with
  all the splits above, ends and is \<open>carry\<close>.
\<close>

section \<open>Trees in an image\<close>

fun rep :: "(int \<Rightarrow> node) \<Rightarrow> int \<Rightarrow> bt \<Rightarrow> bool" where
  "rep N q (Leaf p ks vs) \<longleftrightarrow> node_ok (N p) \<and> n_parent (N p) = q \<and> n_is_leaf (N p)
     \<and> vkeys (N p) = ks \<and> vvals (N p) = vs"
| "rep N q (Inner p ks ts) \<longleftrightarrow> node_ok (N p) \<and> n_parent (N p) = q \<and> \<not> n_is_leaf (N p)
     \<and> vkeys (N p) = ks \<and> vkids (N p) = map off ts \<and> (\<forall>t \<in> set ts. rep N p t)"

fun par :: "frame list \<Rightarrow> int" where
  "par [] = -1"
| "par ((p, ks1, ts1, ks2, ts2) # c) = p"

fun rep_ctx :: "(int \<Rightarrow> node) \<Rightarrow> frame list \<Rightarrow> int \<Rightarrow> bool" where
  "rep_ctx N [] h \<longleftrightarrow> True"
| "rep_ctx N ((p, ks1, ts1, ks2, ts2) # c) h \<longleftrightarrow>
     node_ok (N p) \<and> n_parent (N p) = par c \<and> \<not> n_is_leaf (N p) \<and> vkeys (N p) = ks1 @ ks2
     \<and> vkids (N p) = map off ts1 @ h # map off ts2 \<and> (\<forall>t \<in> set ts1 \<union> set ts2. rep N p t)
     \<and> rep_ctx N c p"

fun root_off :: "frame list \<Rightarrow> int \<Rightarrow> int" where
  "root_off [] h = h"
| "root_off ((p, ks1, ts1, ks2, ts2) # c) h = root_off c p"

lemma off_in_offs [simp]: "off t \<in> set (offs t)"
  by (cases t) auto

lemma off_plug: "off (plug t c) = root_off c (off t)"
  by (induction t c rule: plug.induct) auto

lemma rep_plug: "rep N (-1) (plug t c) \<longleftrightarrow> rep N (par c) t \<and> rep_ctx N c (off t)"
proof (induction t c rule: plug.induct)
  case (2 t p ks1 ts1 ks2 ts2 c)
  then show ?case by auto
qed simp

lemma rep_same: "\<forall>x \<in> set (offs t). N' x = N x \<Longrightarrow> rep N' q t = rep N q t"
proof (induction t arbitrary: q)
  case (Inner p ks ts)
  then have "rep N' p t = rep N p t" if "t \<in> set ts" for t using that by auto
  with Inner show ?case by auto
qed auto

lemma rep_ctx_same: "\<forall>x \<in> set (ctx_offs c). N' x = N x \<Longrightarrow> rep_ctx N' c h = rep_ctx N c h"
proof (induction N c h rule: rep_ctx.induct)
  case (2 N p ks1 ts1 ks2 ts2 c h)
  have "rep N' p t = rep N p t" if "t \<in> set ts1 \<union> set ts2" for t
    using that "2.prems" by (intro rep_same) auto
  with 2 show ?case by auto
qed simp

text \<open>Giving the root of a tree another parent.\<close>

lemma rep_moved:
  assumes "rep N q t" "distinct (offs t)" "N' (off t) = (N (off t))\<lparr>n_parent := q'\<rparr>"
    "\<forall>x \<in> set (offs t) - {off t}. N' x = N x"
  shows "rep N' q' t"
proof (cases t)
  case (Inner p ks ts)
  have "rep N' p u = rep N p u" if "u \<in> set ts" for u
    using that assms(2,4) Inner by (intro rep_same) auto
  then show ?thesis using assms(1,3) Inner by auto
qed (use assms in auto)

lemma rep_off: "rep N q t \<Longrightarrow> node_ok (N (off t)) \<and> n_parent (N (off t)) = q"
  by (cases t) auto

lemma offs_unique:
  "distinct (concat (map offs ts)) \<Longrightarrow> t \<in> set ts \<Longrightarrow> u \<in> set ts \<Longrightarrow>
    x \<in> set (offs t) \<Longrightarrow> x \<in> set (offs u) \<Longrightarrow> t = u"
  by (induction ts) auto

lemma distinct_kids: "distinct (concat (map offs ts)) \<Longrightarrow> distinct ts"
proof (induction ts)
  case (Cons t ts)
  then have "t \<notin> set ts" using off_in_offs [of t] by (auto simp del: off_in_offs)
  with Cons show ?case by simp
qed simp

lemma distinct_offs_kid: "distinct (concat (map offs ts)) \<Longrightarrow> t \<in> set ts \<Longrightarrow> distinct (offs t)"
  by (induction ts) auto

text \<open>The children behind a cut get the new right node as their parent, the others keep theirs.\<close>

lemma rep_reparent:
  assumes "distinct (concat (map offs kids))" "\<forall>t \<in> set kids. rep N p t"
  shows "(\<forall>t \<in> set (take n kids). rep (reparent (off ` set (drop n kids)) f N) p t)
    \<and> (\<forall>t \<in> set (drop n kids). rep (reparent (off ` set (drop n kids)) f N) f t)"
proof -
  let ?S = "off ` set (drop n kids)"
  have S: "x \<notin> ?S \<or> t \<in> set (drop n kids) \<and> x = off t" if "t \<in> set kids" "x \<in> set (offs t)" for t x
  proof (rule disjCI)
    assume "\<not> (t \<in> set (drop n kids) \<and> x = off t)"
    moreover have "t = u" if "u \<in> set (drop n kids)" "x = off u" for u
      using offs_unique [OF assms(1) \<open>t \<in> set kids\<close> in_set_dropD [OF that(1)] \<open>x \<in> set (offs t)\<close>] that(2) by simp
    ultimately show "x \<notin> ?S" by blast
  qed
  have "rep (reparent ?S f N) p t" if t: "t \<in> set (take n kids)" for t
  proof -
    have "t \<notin> set (drop n kids)"
      using t set_take_disj_set_drop_if_distinct [OF distinct_kids [OF assms(1)], of n n] by auto
    then have "\<forall>x \<in> set (offs t). reparent ?S f N x = N x"
      using S t by (auto simp: reparent_def dest: in_set_takeD)
    from rep_same [OF this] assms(2) t show ?thesis by (auto dest: in_set_takeD)
  qed
  moreover have "rep (reparent ?S f N) f t" if t: "t \<in> set (drop n kids)" for t
  proof (rule rep_moved [where N = N and q = p])
    show "rep N p t" "distinct (offs t)"
      using t assms distinct_offs_kid by (auto dest: in_set_dropD)
    show "reparent ?S f N (off t) = (N (off t))\<lparr>n_parent := f\<rparr>" using t by (simp add: reparent_def)
    show "\<forall>x \<in> set (offs t) - {off t}. reparent ?S f N x = N x"
      using S t by (auto simp: reparent_def dest: in_set_dropD)
  qed
  ultimately show ?thesis by blast
qed

section \<open>The state around a tree\<close>

abbreviation nodes :: "bplus \<Rightarrow> int \<Rightarrow> node" where
  "nodes bp \<equiv> im_nodes (bp_img bp)"

abbreviation brk :: "bplus \<Rightarrow> int" where
  "brk bp \<equiv> tf_cur_size (bp_mem bp)"

definition alloc_ok :: "bplus \<Rightarrow> bool" where
  "alloc_ok bp \<longleftrightarrow> tf_inv (bp_mem bp) \<and> (\<forall>x \<ge> brk bp. nodes bp x = zero_node)"

definition rooted :: "bplus \<Rightarrow> int \<Rightarrow> bool" where
  "rooted bp r \<longleftrightarrow> tf_off (bp_mem bp) (bp_rootidx bp) = Some r
     \<and> (\<exists>hoff. tf_off (bp_mem bp) (bp_headeridx bp) = Some hoff \<and> hd_root (im_headers (bp_img bp) hoff) = r)"

text \<open>What a tree operation may change: nodes, the root index, the header's root, and the break.\<close>

definition only_tree :: "bplus \<Rightarrow> bplus \<Rightarrow> bool" where
  "only_tree bp bp' \<longleftrightarrow>
     (\<exists>mem ri img. bp' = bp\<lparr>bp_mem := mem, bp_rootidx := ri, bp_img := img\<rparr>)
     \<and> same_data (bp_img bp') (bp_img bp)
     \<and> (\<forall>ix z. tf_off (bp_mem bp) ix = Some z \<longrightarrow> tf_off (bp_mem bp') ix = Some z)
     \<and> (\<forall>x. im_headers (bp_img bp') x = (im_headers (bp_img bp) x)\<lparr>hd_root := hd_root (im_headers (bp_img bp') x)\<rparr>)"

lemma only_tree_refl: "only_tree bp bp"
  unfolding only_tree_def by (auto intro!: exI [of _ "bp_mem bp"] exI [of _ "bp_rootidx bp"] exI [of _ "bp_img bp"])

lemma only_tree_I:
  assumes "\<And>ix z. tf_off (bp_mem bp) ix = Some z \<Longrightarrow> tf_off mem1 ix = Some z"
    "same_data img1 (bp_img bp)" "im_headers img1 = im_headers (bp_img bp)"
  shows "only_tree bp (bp\<lparr>bp_mem := mem1, bp_img := img1\<rparr>)"
proof -
  have "bp\<lparr>bp_mem := mem1, bp_img := img1\<rparr> = bp\<lparr>bp_mem := mem1, bp_rootidx := bp_rootidx bp, bp_img := img1\<rparr>"
    by simp
  then have "\<exists>mem ri img. bp\<lparr>bp_mem := mem1, bp_img := img1\<rparr> = bp\<lparr>bp_mem := mem, bp_rootidx := ri, bp_img := img\<rparr>"
    by metis
  then show ?thesis using assms by (simp add: only_tree_def)
qed

lemma only_tree_headeridx: "only_tree bp bp' \<Longrightarrow> bp_headeridx bp' = bp_headeridx bp"
  by (auto simp: only_tree_def)

lemma only_tree_key_at: "only_tree bp bp' \<Longrightarrow> key_at (bp_img bp') = key_at (bp_img bp)"
  by (simp add: only_tree_def same_data_key_at)

lemma only_tree_trans: 
  assumes "only_tree a b" "only_tree b c"
  shows "only_tree a c"
proof -
  obtain m i g m' i' g' where "b = a\<lparr>bp_mem := m, bp_rootidx := i, bp_img := g\<rparr>"
      "c = b\<lparr>bp_mem := m', bp_rootidx := i', bp_img := g'\<rparr>"
    using assms unfolding only_tree_def by blast
  then have "\<exists>mem ri img. c = a\<lparr>bp_mem := mem, bp_rootidx := ri, bp_img := img\<rparr>" by auto
  moreover have "im_headers (bp_img c) x = (im_headers (bp_img a) x)\<lparr>hd_root := hd_root (im_headers (bp_img c) x)\<rparr>" for x
    using assms unfolding only_tree_def by (metis header.update_convs(3) header.surjective)
  ultimately show ?thesis using assms same_data_trans unfolding only_tree_def by blast
qed

text \<open>Allocating a node: the new region starts at the break.\<close>

lemma get_tire_node:
  assumes "alloc_ok bp"
  obtains mem1 ri where "get_tire (bp_mem bp) sizeof_node = (mem1, ri)" "tf_inv mem1"
    "get_offset mem1 ri = Inr (brk bp)" "tf_cur_size mem1 = brk bp + sizeof_node"
    "\<And>ix z. tf_off (bp_mem bp) ix = Some z \<Longrightarrow> tf_off mem1 ix = Some z"
proof -
  let ?r = "get_tire (bp_mem bp) sizeof_node"
  have inv: "tf_inv (bp_mem bp)" using assms by (simp add: alloc_ok_def)
  show thesis
  proof (rule that [of "fst ?r" "snd ?r"])
    show "tf_inv (fst ?r)" by (rule tf.ok_alloc [OF inv]) simp
    show "get_offset (fst ?r) (snd ?r) = Inr (brk bp)" by (simp add: get_offset_off tf.off_new [OF inv])
    show "tf_cur_size (fst ?r) = brk bp + sizeof_node" by (rule tf.top_alloc [OF inv])
  qed (simp_all add: tf.off_known [OF inv])
qed

lemma alloc_ok_I:
  assumes "alloc_ok bp" "tf_inv mem1" "tf_cur_size mem1 = brk bp + sizeof_node"
    "\<And>x. brk bp + sizeof_node \<le> x \<Longrightarrow> N x = nodes bp x" "im_nodes img1 = N"
  shows "alloc_ok (bp\<lparr>bp_mem := mem1, bp_img := img1\<rparr>)"
  using assms by (auto simp: alloc_ok_def)

text \<open>
  Splitting a full inner node at \<open>p\<close> and inserting the separator \<open>k\<close> and the node at
  \<open>tgt\<close>: the node that is left, the new one at the break, and the parents of those moved.
\<close>

lemma split_half_parent:
  fixes k :: int
  assumes "alloc_ok bp" "nodes bp p = n" "node_ok n" "\<not> n_is_leaf n" "n_num_keys n = 23"
    "p \<notin> set (vkids n)" "\<forall>x \<in> set (vkids n). x < brk bp" "p < brk bp"
    "tf_off (bp_mem bp) targ = Some tgt" "tgt \<noteq> p" "tgt < brk bp" "tgt \<notin> set (vkids n)"
  defines "f \<equiv> brk bp" and "K \<equiv> key_at (bp_img bp)" and "ks \<equiv> vkeys n" and "kids \<equiv> vkids n"
  defines "lt \<equiv> K k < K (ks ! 11)"
  shows "\<exists>bp1 ri n' r'. split_half bp p k v True targ = Inr (bp1, ri, f, ks ! 11)
    \<and> only_tree bp bp1 \<and> alloc_ok bp1 \<and> brk bp1 = f + sizeof_node \<and> bp_rootidx bp1 = bp_rootidx bp
    \<and> im_headers (bp_img bp1) = im_headers (bp_img bp) \<and> tf_off (bp_mem bp1) ri = Some f
    \<and> nodes bp1 = (reparent (set (drop 12 kids)) f (nodes bp))
        (p := n', f := r', tgt := (nodes bp tgt)\<lparr>n_parent := if lt then p else f\<rparr>)
    \<and> node_ok n' \<and> n_parent n' = n_parent n \<and> \<not> n_is_leaf n'
    \<and> node_ok r' \<and> n_parent r' = 0 \<and> \<not> n_is_leaf r'
    \<and> vkeys n' = (if lt then insert_at (key_pos K k (take 11 ks)) k (take 11 ks) else take 11 ks)
    \<and> vkids n' = (if lt then insert_at (Suc (key_pos K k (take 11 ks))) tgt (take 12 kids) else take 12 kids)
    \<and> vkeys r' = (if lt then drop 12 ks else insert_at (key_pos K k (drop 12 ks)) k (drop 12 ks))
    \<and> vkids r' = (if lt then drop 12 kids else insert_at (Suc (key_pos K k (drop 12 ks))) tgt (drop 12 kids))"
proof -
  obtain mem1 ri where tire: "get_tire (bp_mem bp) sizeof_node = (mem1, ri)" "tf_inv mem1"
      "get_offset mem1 ri = Inr f" "tf_cur_size mem1 = f + sizeof_node"
      "\<And>ix z. tf_off (bp_mem bp) ix = Some z \<Longrightarrow> tf_off mem1 ix = Some z"
    using get_tire_node [OF assms(1)] unfolding f_def by blast
  let ?N = "nodes bp" and ?img1 = "upd_node f (\<lambda>r. r\<lparr>n_is_leaf := True\<rparr>) (bp_img bp)"
  have zero: "?N f = zero_node" using assms(1) by (simp add: alloc_ok_def f_def)
  have pf: "p \<noteq> f" "tgt \<noteq> f" using assms(8,11) by (auto simp: f_def)
  have fresh: "node_ok (zero_node\<lparr>n_is_leaf := True\<rparr>)" "n_num_keys (zero_node\<lparr>n_is_leaf := True\<rparr>) = 0"
    using node_ok_zero by (simp_all add: node_ok_def zero_node_def)
  have kids: "set (n_children n) = set kids"
    using assms(3,5) by (simp add: kids_def vkids_def node_ok_def)
  obtain a b where ab: "nodes_only ?img1 ((reparent (set (drop 12 kids)) f (im_nodes ?img1))(p := a, f := b))
        (split_parent p f ?img1)"
      "node_ok a" "n_parent a = n_parent n" "\<not> n_is_leaf a" "n_num_keys a = 11" "vkeys a = take 11 ks"
      "vkids a = take 12 kids"
      "node_ok b" "n_parent b = 0" "\<not> n_is_leaf b" "n_num_keys b = 11" "vkeys b = drop 12 ks"
      "vkids b = drop 12 kids"
    using split_parent_views [of p f n ?img1 "zero_node\<lparr>n_is_leaf := True\<rparr>"] assms(2-7) kids pf zero fresh
    by (auto simp: ks_def kids_def f_def zero_node_def)
  let ?img2 = "split_parent p f ?img1"
  have N2: "im_nodes ?img2 = (reparent (set (drop 12 kids)) f ?N)(p := a, f := b)"
    using ab(1) by (auto simp: nodes_only_def reparent_def fun_eq_iff)
  have K2: "key_at ?img2 = K" using nodes_only_key_at [OF ab(1)] by (simp add: K_def)
  have hdr: "im_headers ?img2 = im_headers (bp_img bp)" "same_data ?img2 (bp_img bp)"
    using ab(1) by (auto simp: nodes_only_def same_data_def)
  have tgt2: "im_nodes ?img2 tgt = ?N tgt"
    using N2 pf assms(10,12) by (auto simp: reparent_def kids_def dest: in_set_dropD)
  let ?half = "if lt then p else f"
  let ?n' = "if lt then inserted ?img2 a k v tgt else a" and ?r' = "if lt then b else inserted ?img2 b k v tgt"
  let ?img4 = "upd_node tgt (\<lambda>t. t\<lparr>n_parent := ?half\<rparr>) (fst (insert_into_node ?img2 ?half k v False tgt))"
  have med: "n_keys n ! 11 = ks ! 11" using assms(3,5) by (simp add: ks_def vkeys_def node_ok_def)
  have "get_offset mem1 targ = Inr tgt" using tire(5) [OF assms(9)] by (simp add: get_offset_off)
  then have "split_half bp p k v True targ = Inr (bp\<lparr>bp_mem := mem1, bp_img := ?img4\<rparr>, ri, f, ks ! 11)"
    using tire(1,3) pf(1) assms(2) med by (simp add: split_half_def Let_def strcmp_lt lt_def K_def)
  moreover have nodes4: "im_nodes ?img4 = (reparent (set (drop 12 kids)) f ?N)
      (p := ?n', f := ?r', tgt := (?N tgt)\<lparr>n_parent := ?half\<rparr>)"
    using pf assms(10) N2 tgt2 by (auto simp: insert_into_node_inserted fun_eq_iff)
  moreover have "alloc_ok (bp\<lparr>bp_mem := mem1, bp_img := ?img4\<rparr>)"
  proof (rule alloc_ok_I [OF assms(1) tire(2) _ _ nodes4])
    show "tf_cur_size mem1 = brk bp + sizeof_node" using tire(4) by (simp add: f_def)
    fix x assume x: "brk bp + sizeof_node \<le> x"
    show "((reparent (set (drop 12 kids)) f ?N) (p := ?n', f := ?r', tgt := (?N tgt)\<lparr>n_parent := ?half\<rparr>)) x = ?N x"
      using x assms(7,8,11) by (fastforce simp: reparent_def kids_def f_def dest: in_set_dropD)
  qed
  moreover have "only_tree bp (bp\<lparr>bp_mem := mem1, bp_img := ?img4\<rparr>)"
    using tire(5) hdr by (intro only_tree_I) (simp_all add: insert_into_node_inserted)
  ultimately show ?thesis
    using tire(3,4) ab hdr K2
    by (intro exI [of _ "bp\<lparr>bp_mem := mem1, bp_img := ?img4\<rparr>"] exI [of _ ri] exI [of _ ?n'] exI [of _ ?r'])
      (auto simp: get_offset_off insert_into_node_inserted inserted_views)
qed

lemma split_half_leaf:
  fixes k :: int
  assumes "alloc_ok bp" "nodes bp p = n" "node_ok n" "n_is_leaf n" "n_num_keys n = 23" "p < brk bp"
  defines "f \<equiv> brk bp" and "K \<equiv> key_at (bp_img bp)" and "ks \<equiv> vkeys n" and "vs \<equiv> vvals n"
  defines "lt \<equiv> K k < K (ks ! 11)"
  shows "\<exists>bp1 ri n' r'. split_half bp p k v False targ = Inr (bp1, ri, f, ks ! 11)
    \<and> only_tree bp bp1 \<and> alloc_ok bp1 \<and> brk bp1 = f + sizeof_node \<and> bp_rootidx bp1 = bp_rootidx bp
    \<and> im_headers (bp_img bp1) = im_headers (bp_img bp) \<and> tf_off (bp_mem bp1) ri = Some f
    \<and> nodes bp1 = (nodes bp)(p := n', f := r')
    \<and> node_ok n' \<and> n_parent n' = n_parent n \<and> n_is_leaf n'
    \<and> node_ok r' \<and> n_parent r' = 0 \<and> n_is_leaf r'
    \<and> vkeys n' = (if lt then insert_at (key_pos K k (take 11 ks)) k (take 11 ks) else take 11 ks)
    \<and> vvals n' = (if lt then insert_at (key_pos K k (take 11 ks)) v (take 11 vs) else take 11 vs)
    \<and> vkeys r' = (if lt then drop 11 ks else insert_at (key_pos K k (drop 11 ks)) k (drop 11 ks))
    \<and> vvals r' = (if lt then drop 11 vs else insert_at (key_pos K k (drop 11 ks)) v (drop 11 vs))"
proof -
  obtain mem1 ri where tire: "get_tire (bp_mem bp) sizeof_node = (mem1, ri)" "tf_inv mem1"
      "get_offset mem1 ri = Inr f" "tf_cur_size mem1 = f + sizeof_node"
      "\<And>ix z. tf_off (bp_mem bp) ix = Some z \<Longrightarrow> tf_off mem1 ix = Some z"
    using get_tire_node [OF assms(1)] unfolding f_def by blast
  let ?N = "nodes bp" and ?img1 = "upd_node f (\<lambda>r. r\<lparr>n_is_leaf := True\<rparr>) (bp_img bp)"
  have zero: "?N f = zero_node" using assms(1) by (simp add: alloc_ok_def f_def)
  have pf: "p \<noteq> f" using assms(6) by (auto simp: f_def)
  have fresh: "node_ok (zero_node\<lparr>n_is_leaf := True\<rparr>)" "n_num_keys (zero_node\<lparr>n_is_leaf := True\<rparr>) = 0"
    using node_ok_zero by (simp_all add: node_ok_def zero_node_def)
  obtain a b where ab: "nodes_only ?img1 ((im_nodes ?img1)(p := a, f := b)) (split_leaf p f ?img1)"
      "node_ok a" "n_parent a = n_parent n" "n_is_leaf a" "n_num_keys a = 11" "vkeys a = take 11 ks"
      "vvals a = take 11 vs"
      "node_ok b" "n_parent b = 0" "n_is_leaf b" "n_num_keys b = 12" "vkeys b = drop 11 ks"
      "vvals b = drop 11 vs"
    using split_leaf_views [of p f n ?img1 "zero_node\<lparr>n_is_leaf := True\<rparr>"] assms(2-5) pf zero fresh
    by (auto simp: ks_def vs_def zero_node_def)
  let ?img2 = "split_leaf p f ?img1"
  have N2: "im_nodes ?img2 = ?N(p := a, f := b)" using ab(1) pf by (auto simp: nodes_only_def)
  have K2: "key_at ?img2 = K" using nodes_only_key_at [OF ab(1)] by (simp add: K_def)
  have hdr: "im_headers ?img2 = im_headers (bp_img bp)" "same_data ?img2 (bp_img bp)"
    using ab(1) by (auto simp: nodes_only_def same_data_def)
  let ?half = "if lt then p else f"
  let ?n' = "if lt then inserted ?img2 a k v (-1) else a" and ?r' = "if lt then b else inserted ?img2 b k v (-1)"
  let ?img3 = "fst (insert_into_node ?img2 ?half k v False (-1))"
  have med: "n_keys n ! 11 = ks ! 11" using assms(3,5) by (simp add: ks_def vkeys_def node_ok_def)
  have "split_half bp p k v False targ = Inr (bp\<lparr>bp_mem := mem1, bp_img := ?img3\<rparr>, ri, f, ks ! 11)"
    using tire(1,3) pf(1) assms(2) med by (simp add: split_half_def Let_def strcmp_lt lt_def K_def)
  moreover have nodes3: "im_nodes ?img3 = ?N(p := ?n', f := ?r')"
    using pf N2 by (auto simp: insert_into_node_inserted fun_eq_iff)
  moreover have "alloc_ok (bp\<lparr>bp_mem := mem1, bp_img := ?img3\<rparr>)"
    using tire(4) assms(6) by (intro alloc_ok_I [OF assms(1) tire(2) _ _ nodes3]) (auto simp: f_def)
  moreover have "only_tree bp (bp\<lparr>bp_mem := mem1, bp_img := ?img3\<rparr>)"
    using tire(5) hdr by (intro only_tree_I) (simp_all add: insert_into_node_inserted)
  ultimately show ?thesis
    using tire(3,4) ab hdr K2
    by (intro exI [of _ "bp\<lparr>bp_mem := mem1, bp_img := ?img3\<rparr>"] exI [of _ ri] exI [of _ ?n'] exI [of _ ?r'])
      (auto simp: get_offset_off insert_into_node_inserted inserted_views)
qed

section \<open>Going up\<close>

text \<open>The second half of \<open>split_insert_node\<close>, when the key that goes up is \<open>nkey\<close>.\<close>

definition climb :: "bplus \<Rightarrow> int \<Rightarrow> int \<Rightarrow> int \<Rightarrow> int \<Rightarrow> int \<Rightarrow> (bplus \<times> int) result option" where
  "climb bp nodeoffset rightidx right nkey v =
     (let paroff = n_parent (nodes bp nodeoffset)
      in if paroff = -1 then Some (make_root bp nodeoffset right nkey)
         else if n_num_keys (nodes bp paroff) = 23
         then Option.bind (split_insert_node bp paroff nkey (-1) True rightidx)
                (\<lambda>r. Some (case r of Inl e \<Rightarrow> Inl e | Inr (bp2, _) \<Rightarrow> Inr (bp2, -1)))
         else Some (Inr (bp\<lparr>bp_img := upd_node right (\<lambda>n. n\<lparr>n_parent := paroff\<rparr>)
                (fst (insert_into_node (bp_img bp) paroff nkey v False right))\<rparr>, -1)))"

lemma split_insert_climb:
  assumes "n_num_keys (nodes bp p) = 23" "split_half bp p k v isparent targ = Inr (bp1, ri, right, med)"
    "isparent \<or> n_keys (nodes bp1 right) ! 0 = med"
  shows "split_insert_node bp p k v isparent targ = climb bp1 p ri right med v"
  using assms by (subst split_insert_node.simps) (auto simp: climb_def Let_def)

lemma climb_root:
  assumes "alloc_ok bp" "rooted bp r0" "rep (nodes bp) (-1) t1" "rep (nodes bp) q t2"
    "distinct (offs t1 @ offs t2)" "set (offs t1 @ offs t2) \<subseteq> {0..<brk bp}" "off t2 = right" "off t1 = p"
  defines "f \<equiv> brk bp"
  shows "\<exists>bp' i. climb bp p ri right s v = Some (Inr (bp', i)) \<and> only_tree bp bp' \<and> alloc_ok bp'
    \<and> rooted bp' f \<and> rep (nodes bp') (-1) (Inner f [s] [t1, t2]) \<and> brk bp' = f + sizeof_node"
proof -
  obtain mem1 i where tire: "get_tire (bp_mem bp) sizeof_node = (mem1, i)" "tf_inv mem1"
      "get_offset mem1 i = Inr f" "tf_cur_size mem1 = f + sizeof_node"
      "\<And>ix z. tf_off (bp_mem bp) ix = Some z \<Longrightarrow> tf_off mem1 ix = Some z"
    using get_tire_node [OF assms(1)] unfolding f_def by blast
  obtain hoff where hoff: "get_offset mem1 (bp_headeridx bp) = Inr hoff"
    using assms(2) tire(5) by (auto simp: rooted_def get_offset_off)
  let ?N = "nodes bp"
  have zero: "?N f = zero_node" using assms(1) by (simp add: alloc_ok_def f_def)
  let ?root = "zero_node\<lparr>n_parent := -1, n_num_keys := 1, n_is_leaf := False,
    n_keys := (n_keys zero_node)[0 := s], n_children := (n_children zero_node)[0 := p, 1 := right]\<rparr>"
  have ne: "p \<noteq> right" "p \<noteq> f" "right \<noteq> f" "p < f" "right < f"
    using assms(5-8) off_in_offs [of t1] off_in_offs [of t2] by (auto simp: f_def simp del: off_in_offs)
  let ?N' = "?N(f := ?root, right := (?N right)\<lparr>n_parent := f\<rparr>, p := (?N p)\<lparr>n_parent := f\<rparr>)"
  let ?img = "upd_header hoff (\<lambda>h. h\<lparr>hd_root := f\<rparr>) (upd_node p (\<lambda>n. n\<lparr>n_parent := f\<rparr>)
    (upd_node right (\<lambda>n. n\<lparr>n_parent := f\<rparr>) (upd_node f (\<lambda>n. n\<lparr>n_parent := -1, n_num_keys := 1, n_is_leaf := False,
      n_keys := (n_keys n)[0 := s], n_children := (n_children n)[0 := p, 1 := right]\<rparr>) (bp_img bp))))"
  let ?bp' = "bp\<lparr>bp_mem := mem1, bp_rootidx := i, bp_img := ?img\<rparr>"
  have climb: "climb bp p ri right s v = Some (Inr (?bp', i))"
    using tire(1,3) hoff rep_off [OF assms(3)] assms(8)
    by (simp add: climb_def make_root_def Let_def)
  have N': "im_nodes ?img = ?N'"
    using zero ne by (simp add: upd_header_def)
  have img: "same_data ?img (bp_img bp)"
      "im_headers ?img = (im_headers (bp_img bp))(hoff := (im_headers (bp_img bp) hoff)\<lparr>hd_root := f\<rparr>)"
    by (simp_all add: upd_header_def same_data_def)
  have "x \<noteq> right \<and> x \<noteq> f" if "x \<in> set (offs t1)" for x
    using that assms(5-8) off_in_offs [of t2] by (auto simp: f_def simp del: off_in_offs)
  then have "rep ?N' f t1"
    using assms(5,8) by (intro rep_moved [OF assms(3)]) auto
  moreover have "x \<noteq> p \<and> x \<noteq> f" if "x \<in> set (offs t2)" for x
    using that assms(5-8) off_in_offs [of t1] by (auto simp: f_def simp del: off_in_offs)
  then have "rep ?N' f t2"
    using assms(5,7) ne by (intro rep_moved [OF assms(4)]) auto
  moreover have "node_ok ?root" "vkeys ?root = [s]" "vkids ?root = [p, right]"
    by (simp_all add: node_ok_def vkeys_def vkids_def zero_node_def eval_nat_numeral)
  ultimately have "rep ?N' (-1) (Inner f [s] [t1, t2])" using assms(7,8) ne by simp
  then have "rep (nodes ?bp') (-1) (Inner f [s] [t1, t2])" using N' by simp
  moreover have "alloc_ok ?bp'"
    using assms(1) tire(2,4) N' ne by (auto simp: alloc_ok_def f_def)
  moreover have "rooted ?bp' f"
    using tire(3) hoff img(2) by (auto simp: rooted_def get_offset_off)
  moreover have "only_tree bp ?bp'"
    using tire(5) img by (auto simp: only_tree_def)
  ultimately show ?thesis using climb tire(4) by (intro exI [of _ ?bp'] exI [of _ i]) simp
qed

lemma climb_room:
  assumes "alloc_ok bp" "rooted bp (root_off c p)" "rep (nodes bp) p t1" "rep (nodes bp) q t2"
    "rep_ctx (nodes bp) ((p, ks1, ts1, ks2, ts2) # c) (off t1)" "0 \<le> p"
    "distinct (ctx_offs ((p, ks1, ts1, ks2, ts2) # c) @ offs t1 @ offs t2)"
    "set (ctx_offs ((p, ks1, ts1, ks2, ts2) # c) @ offs t1 @ offs t2) \<subseteq> {0..<brk bp}"
    "length ks1 = length ts1" "length ks1 + length ks2 < 23"
    "\<forall>a \<in> set ks1. \<not> K s < K a" "\<forall>b \<in> set ks2. K s < K b" "K = key_at (bp_img bp)"
  shows "\<exists>bp' i. climb bp (off t1) ri (off t2) s v = Some (Inr (bp', i)) \<and> only_tree bp bp' \<and> alloc_ok bp'
    \<and> rooted bp' (root_off c p) \<and> brk bp' = brk bp
    \<and> rep (nodes bp') (-1) (plug (Inner p (ks1 @ s # ks2) (ts1 @ t1 # t2 # ts2)) c)"
proof -
  let ?N = "nodes bp" and ?n = "nodes bp p"
  have n: "node_ok ?n" "n_parent ?n = par c" "\<not> n_is_leaf ?n" "vkeys ?n = ks1 @ ks2"
      "vkids ?n = map off ts1 @ off t1 # map off ts2" "\<forall>t \<in> set ts1 \<union> set ts2. rep ?N p t" "rep_ctx ?N c p"
    using assms(5) by auto
  have num: "n_num_keys ?n < 23" using length_views(1) [OF n(1)] n(4) assms(10) by simp
  let ?ins = "inserted (bp_img bp) ?n s v (off t2)"
  let ?img = "upd_node (off t2) (\<lambda>n. n\<lparr>n_parent := p\<rparr>) (fst (insert_into_node (bp_img bp) p s v False (off t2)))"
  let ?bp' = "bp\<lparr>bp_img := ?img\<rparr>"
  have climb: "climb bp (off t1) ri (off t2) s v = Some (Inr (?bp', -1))"
    using rep_off [OF assms(3)] num assms(6) by (simp add: climb_def Let_def)
  have ne: "p \<noteq> off t2" "off t2 < brk bp" "p < brk bp"
    using assms(7,8) off_in_offs [of t2] by (auto simp del: off_in_offs)
  define M where "M = ?N(p := ?ins, off t2 := (?N (off t2))\<lparr>n_parent := p\<rparr>)"
  have N': "im_nodes ?img = M" using ne by (auto simp: insert_into_node_inserted M_def)
  have same: "M x = ?N x" if "x \<in> set (concat (map offs ts1) @ concat (map offs ts2) @ ctx_offs c @ offs t1)" for x
    using that assms(7) off_in_offs [of t2] by (auto simp: M_def simp del: off_in_offs)
  have "rep M p t2" using assms(7) by (intro rep_moved [OF assms(4)]) (auto simp: M_def)
  moreover have "rep M p t" if "t \<in> set ts1 \<union> set ts2 \<union> {t1}" for t
    using that n(6) assms(3) same by (subst rep_same [where N = ?N]) force+
  moreover have "rep_ctx M c p" using n(7) same by (subst rep_ctx_same [where N = ?N]) auto
  moreover have pos: "key_pos K s (ks1 @ ks2) = length ks1" by (rule key_pos_between [OF assms(11,12)])
  have "insert_at (Suc (length ks1)) (off t2) (map off ts1 @ off t1 # map off ts2)
      = map off ts1 @ off t1 # off t2 # map off ts2"
    using assms(9) by (simp add: insert_at_def)
  then have "node_ok ?ins" "n_parent ?ins = par c" "\<not> n_is_leaf ?ins" "vkeys ?ins = ks1 @ s # ks2"
      "vkids ?ins = map off ts1 @ off t1 # off t2 # map off ts2"
    using n num pos assms(13) by (simp_all add: inserted_views insert_at_append)
  ultimately have "rep M (par c) (Inner p (ks1 @ s # ks2) (ts1 @ t1 # t2 # ts2))" "rep_ctx M c p"
    using ne by (auto simp: M_def)
  then have "rep (nodes ?bp') (-1) (plug (Inner p (ks1 @ s # ks2) (ts1 @ t1 # t2 # ts2)) c)"
    using N' by (simp add: rep_plug)
  moreover have "alloc_ok ?bp'" using assms(1) ne N' by (auto simp: alloc_ok_def M_def)
  moreover have "rooted ?bp' (root_off c p)"
    using assms(2) by (simp add: rooted_def insert_into_node_inserted)
  moreover have "only_tree bp ?bp'"
    using only_tree_I [of bp "bp_mem bp" ?img] by (simp add: insert_into_node_inserted)
  ultimately show ?thesis using climb by (intro exI [of _ ?bp'] exI [of _ "-1"]) simp
qed

abbreviation drop_index :: "(bplus \<times> int) result \<Rightarrow> (bplus \<times> int) result" where
  "drop_index r \<equiv> (case r of Inl e \<Rightarrow> Inl e | Inr (bp2, _) \<Rightarrow> Inr (bp2, -1))"

lemma climb_split:
  fixes s :: int
  assumes "alloc_ok bp" "rooted bp (root_off c p)" "rep (nodes bp) q t2"
    "node_ok (nodes bp p)" "n_parent (nodes bp p) = par c" "\<not> n_is_leaf (nodes bp p)"
    "vkeys (nodes bp p) = ks" "vkids (nodes bp p) = map off kids" "\<forall>t \<in> set kids. rep (nodes bp) p t"
    "rep_ctx (nodes bp) c p" "length ks = 23" "t1 \<in> set kids"
    "distinct (p # concat (map offs kids) @ ctx_offs c @ offs t2)"
    "set (p # concat (map offs kids) @ ctx_offs c @ offs t2) \<subseteq> {0..<brk bp}"
    "tf_off (bp_mem bp) ri = Some (off t2)"
  defines "f \<equiv> brk bp" and "K \<equiv> key_at (bp_img bp)" and "tgt \<equiv> off t2"
  defines "lt \<equiv> K s < K (ks ! 11)"
  shows "\<exists>bp1 ri1. climb bp (off t1) ri tgt s v
      = Option.bind (climb bp1 p ri1 f (ks ! 11) (-1)) (\<lambda>r. Some (drop_index r))
    \<and> only_tree bp bp1 \<and> alloc_ok bp1 \<and> brk bp1 = f + sizeof_node \<and> rooted bp1 (root_off c p)
    \<and> tf_off (bp_mem bp1) ri1 = Some f
    \<and> (\<forall>t \<in> set (take 12 kids). rep (nodes bp1) p t) \<and> (\<forall>t \<in> set (drop 12 kids). rep (nodes bp1) f t)
    \<and> rep (nodes bp1) (if lt then p else f) t2 \<and> rep_ctx (nodes bp1) c p
    \<and> node_ok (nodes bp1 p) \<and> n_parent (nodes bp1 p) = par c \<and> \<not> n_is_leaf (nodes bp1 p)
    \<and> node_ok (nodes bp1 f) \<and> n_parent (nodes bp1 f) = 0 \<and> \<not> n_is_leaf (nodes bp1 f)
    \<and> vkeys (nodes bp1 p) = (if lt then insert_at (key_pos K s (take 11 ks)) s (take 11 ks) else take 11 ks)
    \<and> vkids (nodes bp1 p) = (if lt then insert_at (Suc (key_pos K s (take 11 ks))) tgt (map off (take 12 kids))
        else map off (take 12 kids))
    \<and> vkeys (nodes bp1 f) = (if lt then drop 12 ks else insert_at (key_pos K s (drop 12 ks)) s (drop 12 ks))
    \<and> vkids (nodes bp1 f) = (if lt then map off (drop 12 kids)
        else insert_at (Suc (key_pos K s (drop 12 ks))) tgt (map off (drop 12 kids)))"
proof -
  let ?N = "nodes bp"
  have num: "n_num_keys (?N p) = 23" using length_views(1) [OF assms(4)] assms(7,11) by simp
  have kid: "off t \<in> set (concat (map offs kids))" if "t \<in> set kids" for t using that off_in_offs by force
  have ne: "p \<noteq> tgt" "tgt < f" "p < f" "0 \<le> p" "p \<notin> set (map off kids)" "tgt \<notin> set (map off kids)"
      "\<forall>x \<in> set (map off kids). x < f"
  proof -
    have t2: "tgt \<in> set (offs t2)" by (simp add: tgt_def)
    have sub: "set (map off kids) \<subseteq> set (concat (map offs kids))"
      using kid unfolding set_map by blast
    show "p \<noteq> tgt" "p \<notin> set (map off kids)" "tgt \<notin> set (map off kids)"
      using assms(13) t2 sub unfolding distinct.simps distinct_append set_append by blast+
    show "tgt < f" "p < f" "0 \<le> p" using assms(14) t2 by (auto simp: f_def)
    show "\<forall>x \<in> set (map off kids). x < f"
      using assms(14) sub unfolding set_append list.set f_def
      by (meson atLeastLessThan_iff insert_subset le_sup_iff subsetD)
  qed
  have pre: "p \<notin> set (vkids (?N p))" "\<forall>x \<in> set (vkids (?N p)). x < brk bp" "p < brk bp" "off t2 \<noteq> p"
      "off t2 < brk bp" "off t2 \<notin> set (vkids (?N p))"
    using ne assms(8) by (simp_all add: f_def tgt_def)
  note sh = split_half_parent [OF assms(1) refl assms(4,6) num pre(1-3) assms(15) pre(4-6), of s "-1",
      unfolded assms(5,7,8), folded f_def K_def tgt_def, folded lt_def]
  obtain bp1 ri1 n' r' where half: "split_half bp p s (-1) True ri = Inr (bp1, ri1, f, ks ! 11)"
    and rest: "only_tree bp bp1" "alloc_ok bp1" "brk bp1 = f + sizeof_node" "bp_rootidx bp1 = bp_rootidx bp"
      "im_headers (bp_img bp1) = im_headers (bp_img bp)" "tf_off (bp_mem bp1) ri1 = Some f"
    and N1: "nodes bp1 = (reparent (set (drop 12 (map off kids))) f ?N)
        (p := n', f := r', tgt := (?N tgt)\<lparr>n_parent := if lt then p else f\<rparr>)"
    and n': "node_ok n'" "n_parent n' = par c" "\<not> n_is_leaf n'" "node_ok r'" "n_parent r' = 0" "\<not> n_is_leaf r'"
      "vkeys n' = (if lt then insert_at (key_pos K s (take 11 ks)) s (take 11 ks) else take 11 ks)"
      "vkids n' = (if lt then insert_at (Suc (key_pos K s (take 11 ks))) tgt (take 12 (map off kids))
        else take 12 (map off kids))"
      "vkeys r' = (if lt then drop 12 ks else insert_at (key_pos K s (drop 12 ks)) s (drop 12 ks))"
      "vkids r' = (if lt then drop 12 (map off kids)
        else insert_at (Suc (key_pos K s (drop 12 ks))) tgt (drop 12 (map off kids)))"
    using sh by (elim exE conjE) (rule that)
  have climb: "climb bp (off t1) ri tgt s v
      = Option.bind (climb bp1 p ri1 f (ks ! 11) (-1)) (\<lambda>r. Some (drop_index r))"
  proof -
    have "n_parent (?N (off t1)) = p" using assms(9,12) rep_off by blast
    then show ?thesis using num ne(4) split_insert_climb [OF num half] by (simp add: climb_def Let_def)
  qed
  let ?R = "reparent (off ` set (drop 12 kids)) f ?N"
  have "distinct (concat (map offs kids))" using assms(13) by simp
  note kids = rep_reparent [OF this assms(9), of 12 f]
  have same: "nodes bp1 x = ?R x" if "x \<in> set (concat (map offs kids))" for x
    using that assms(13,14) off_in_offs [of t2] unfolding N1 f_def tgt_def
    by (auto simp: drop_map simp del: off_in_offs)
  have "rep (nodes bp1) o' t = rep ?R o' t" if "t \<in> set kids" for o' t
    using that same by (intro rep_same) auto
  then have "(\<forall>t \<in> set (take 12 kids). rep (nodes bp1) p t) \<and> (\<forall>t \<in> set (drop 12 kids). rep (nodes bp1) f t)"
    using kids by (meson in_set_dropD in_set_takeD)
  moreover have out: "nodes bp1 x = ?N x" if "x \<in> set (ctx_offs c) \<union> (set (offs t2) - {tgt})" for x
  proof -
    have "off t2 \<in> set (offs t2)" by simp
    then have "x \<noteq> p" "x \<noteq> tgt" "x \<notin> set (concat (map offs kids))"
      using that assms(13) unfolding distinct.simps distinct_append set_append tgt_def by blast+
    moreover have "x < f" using that assms(14) by (auto simp: f_def)
    moreover have "x \<notin> set (drop 12 (map off kids))"
      using kid calculation(3) by (auto simp: drop_map dest!: in_set_dropD)
    ultimately show ?thesis unfolding N1 by (simp add: reparent_def)
  qed
  then have "rep_ctx (nodes bp1) c p" using assms(10) rep_ctx_same [of c "nodes bp1" ?N] by auto
  moreover have "rep (nodes bp1) (if lt then p else f) t2"
  proof (rule rep_moved [OF assms(3)])
    show "distinct (offs t2)" using assms(13) by simp
    show "nodes bp1 (off t2) = (?N (off t2))\<lparr>n_parent := if lt then p else f\<rparr>" using N1 by (simp add: tgt_def)
    show "\<forall>x \<in> set (offs t2) - {off t2}. nodes bp1 x = ?N x" using out by (simp add: tgt_def)
  qed
  moreover have "rooted bp1 (root_off c p)"
    using assms(2) rest only_tree_headeridx [OF rest(1)] by (auto simp: rooted_def only_tree_def)
  moreover have "nodes bp1 p = n'" "nodes bp1 f = r'" using N1 ne by auto
  ultimately show ?thesis
    using climb rest n' by (intro exI [of _ bp1] exI [of _ ri1]) (simp add: take_map drop_map)
qed

text \<open>The two halves and the median of a full frame into which \<open>s\<close> and \<open>t2\<close> go.\<close>

fun cut :: "frame \<Rightarrow> bt \<Rightarrow> int \<Rightarrow> bt \<Rightarrow> int \<Rightarrow> bt \<times> int \<times> bt" where
  "cut (p, ks1, ts1, ks2, ts2) t1 s t2 f =
     (if length ks1 \<le> 11
      then (Inner p (ks1 @ s # take (11 - length ks1) ks2) (ts1 @ t1 # t2 # take (11 - length ks1) ts2),
            ks2 ! (11 - length ks1), Inner f (drop (12 - length ks1) ks2) (drop (11 - length ks1) ts2))
      else (Inner p (take 11 ks1) (take 12 ts1), ks1 ! 11,
            Inner f (drop 12 ks1 @ s # ks2) (drop 12 ts1 @ t1 # t2 # ts2)))"

lemma carry_cut:
  "length ks1 + length ks2 = 23 \<Longrightarrow> cut (p, ks1, ts1, ks2, ts2) t1 s t2 f = (tl1, med, tr1) \<Longrightarrow>
    carry ((p, ks1, ts1, ks2, ts2) # c) t1 s t2 f = carry c tl1 med tr1 (f + sizeof_node)"
  by (auto split: if_splits)

lemma cut_offs:
  assumes "cut (p, ks1, ts1, ks2, ts2) t1 s t2 f = (tl1, med, tr1)"
  shows "off tl1 = p" "off tr1 = f"
    "mset (offs tl1) + mset (offs tr1)
      = {#p, f#} + mset (concat (map offs (ts1 @ t1 # ts2))) + mset (offs t2)"
proof -
  have split: "mset (concat (map offs ts)) = mset (concat (map offs (take n ts))) + mset (concat (map offs (drop n ts)))"
    for ts n by (metis append_take_drop_id concat_append map_append mset_append)
  show "off tl1 = p" "off tr1 = f" using assms by (auto split: if_splits)
  show "mset (offs tl1) + mset (offs tr1) = {#p, f#} + mset (concat (map offs (ts1 @ t1 # ts2))) + mset (offs t2)"
    using assms split [of ts2 "11 - length ks1"] split [of ts1 12] by (auto split: if_splits)
qed

lemma climb_cut:
  assumes "alloc_ok bp" "rooted bp (root_off c p)" "rep (nodes bp) p t1" "rep (nodes bp) q t2"
    "rep_ctx (nodes bp) ((p, ks1, ts1, ks2, ts2) # c) (off t1)"
    "distinct (ctx_offs ((p, ks1, ts1, ks2, ts2) # c) @ offs t1 @ offs t2)"
    "set (ctx_offs ((p, ks1, ts1, ks2, ts2) # c) @ offs t1 @ offs t2) \<subseteq> {0..<brk bp}"
    "length ks1 = length ts1" "length ks2 = length ts2" "length ks1 + length ks2 = 23"
    "\<forall>a \<in> set ks1. \<not> K s < K a" "\<forall>b \<in> set ks2. K s < K b" "K = key_at (bp_img bp)"
    "tf_off (bp_mem bp) ri = Some (off t2)" "cut (p, ks1, ts1, ks2, ts2) t1 s t2 (brk bp) = (tl1, med, tr1)"
  shows "\<exists>bp1 ri1. climb bp (off t1) ri (off t2) s v
      = Option.bind (climb bp1 p ri1 (off tr1) med (-1)) (\<lambda>r. Some (drop_index r))
    \<and> only_tree bp bp1 \<and> alloc_ok bp1 \<and> brk bp1 = brk bp + sizeof_node \<and> rooted bp1 (root_off c p)
    \<and> tf_off (bp_mem bp1) ri1 = Some (off tr1)
    \<and> rep (nodes bp1) (par c) tl1 \<and> rep (nodes bp1) 0 tr1 \<and> rep_ctx (nodes bp1) c p"
proof -
  let ?ks = "ks1 @ ks2" and ?kids = "ts1 @ t1 # ts2" and ?i = "length ks1" and ?f = "brk bp"
  have n: "node_ok (nodes bp p)" "n_parent (nodes bp p) = par c" "\<not> n_is_leaf (nodes bp p)"
      "vkeys (nodes bp p) = ?ks" "vkids (nodes bp p) = map off ?kids" "\<forall>t \<in> set ?kids. rep (nodes bp) p t"
      "rep_ctx (nodes bp) c p" "length ?ks = 23" "t1 \<in> set ?kids"
      "distinct (p # concat (map offs ?kids) @ ctx_offs c @ offs t2)"
      "set (p # concat (map offs ?kids) @ ctx_offs c @ offs t2) \<subseteq> {0..<brk bp}"
    using assms(3,5-7,10) by auto
  obtain bp1 ri1 where climb: "climb bp (off t1) ri (off t2) s v
        = Option.bind (climb bp1 p ri1 ?f (?ks ! 11) (-1)) (\<lambda>r. Some (drop_index r))"
    and rest: "only_tree bp bp1" "alloc_ok bp1" "brk bp1 = ?f + sizeof_node" "rooted bp1 (root_off c p)"
      "tf_off (bp_mem bp1) ri1 = Some ?f"
    and kids: "\<forall>t \<in> set (take 12 ?kids). rep (nodes bp1) p t" "\<forall>t \<in> set (drop 12 ?kids). rep (nodes bp1) ?f t"
      "rep (nodes bp1) (if K s < K (?ks ! 11) then p else ?f) t2" "rep_ctx (nodes bp1) c p"
    and p: "node_ok (nodes bp1 p)" "n_parent (nodes bp1 p) = par c" "\<not> n_is_leaf (nodes bp1 p)"
    and f: "node_ok (nodes bp1 ?f)" "n_parent (nodes bp1 ?f) = 0" "\<not> n_is_leaf (nodes bp1 ?f)"
    and views: "vkeys (nodes bp1 p) = (if K s < K (?ks ! 11) then insert_at (key_pos K s (take 11 ?ks)) s (take 11 ?ks)
          else take 11 ?ks)"
      "vkids (nodes bp1 p) = (if K s < K (?ks ! 11)
          then insert_at (Suc (key_pos K s (take 11 ?ks))) (off t2) (map off (take 12 ?kids))
          else map off (take 12 ?kids))"
      "vkeys (nodes bp1 ?f) = (if K s < K (?ks ! 11) then drop 12 ?ks
          else insert_at (key_pos K s (drop 12 ?ks)) s (drop 12 ?ks))"
      "vkids (nodes bp1 ?f) = (if K s < K (?ks ! 11) then map off (drop 12 ?kids)
          else insert_at (Suc (key_pos K s (drop 12 ?ks))) (off t2) (map off (drop 12 ?kids)))"
    using climb_split [OF assms(1,2,4) n assms(14), of s v, folded assms(13)]
    by (elim exE conjE) (rule that)
  have "off tr1 = ?f \<and> med = ?ks ! 11 \<and> rep (nodes bp1) (par c) tl1 \<and> rep (nodes bp1) 0 tr1"
  proof (cases "?i \<le> 11")
    case True
    let ?m = "11 - ?i"
    have m: "?ks ! 11 = ks2 ! ?m" "?m < length ks2" using True assms(10) by (auto simp: nth_append)
    then have lt: "K s < K (?ks ! 11)" using assms(12) by simp
    have tk: "take 11 ?ks = ks1 @ take ?m ks2" "drop 12 ?ks = drop (12 - ?i) ks2"
        "take 12 ?kids = ts1 @ t1 # take ?m ts2" "drop 12 ?kids = drop ?m ts2"
      using True assms(8) by (auto simp: take_Cons' drop_Cons')
    have "key_pos K s (ks1 @ take ?m ks2) = ?i"
      using assms(11,12) by (intro key_pos_between) (auto dest: in_set_takeD)
    then have "vkeys (nodes bp1 p) = ks1 @ s # take ?m ks2"
        "vkids (nodes bp1 p) = map off (ts1 @ t1 # t2 # take ?m ts2)"
        "vkeys (nodes bp1 ?f) = drop (12 - ?i) ks2" "vkids (nodes bp1 ?f) = map off (drop ?m ts2)"
      using views lt tk assms(8) by (simp_all add: insert_at_def)
    then show ?thesis using True assms(15) p f kids(1,2) [unfolded tk(3,4)] kids(3) lt m by auto
  next
    case False
    have m: "?ks ! 11 = ks1 ! 11" using False by (simp add: nth_append)
    then have lt: "\<not> K s < K (?ks ! 11)" using False assms(11) by simp
    have tk: "take 11 ?ks = take 11 ks1" "drop 12 ?ks = drop 12 ks1 @ ks2"
        "take 12 ?kids = take 12 ts1" "drop 12 ?kids = drop 12 ts1 @ t1 # ts2"
      using False assms(8) by auto
    have "key_pos K s (drop 12 ks1 @ ks2) = length (drop 12 ks1)"
      using assms(11,12) by (intro key_pos_between) (auto dest: in_set_dropD)
    then have "vkeys (nodes bp1 p) = take 11 ks1" "vkids (nodes bp1 p) = map off (take 12 ts1)"
        "vkeys (nodes bp1 ?f) = drop 12 ks1 @ s # ks2"
        "vkids (nodes bp1 ?f) = map off (drop 12 ts1 @ t1 # t2 # ts2)"
      using views lt tk assms(8) by (simp_all add: insert_at_def)
    then show ?thesis using False assms(15) p f kids(1,2) [unfolded tk(3,4)] kids(3) lt m by auto
  qed
  then show ?thesis using climb rest kids(4) by (intro exI [of _ bp1] exI [of _ ri1]) simp
qed

lemma seps_in_interleave: "length ks = length fs \<Longrightarrow> set ks \<subseteq> set (interleave ks fs)"
  and seps_in_concat: "length ks = length fs \<Longrightarrow> set ks \<subseteq> set (concat (map2 (#) ks fs))"
  by (induction ks fs rule: list_induct2) auto

lemma in_order_mid:
  "in_order (L @ X @ m # Y @ R) \<Longrightarrow> (\<forall>x \<in> set L. item_less x m) \<and> (\<forall>y \<in> set R. item_less m y)"
  by (simp add: sorted_wrt_append)

lemma frame_order:
  assumes "shape_ctx h ((p, ks1, ts1, ks2, ts2) # c)"
    "in_order (left_of K ((p, ks1, ts1, ks2, ts2) # c) @ flat K t1 @ Sep (K s) # flat K t2
      @ right_of K ((p, ks1, ts1, ks2, ts2) # c))"
  shows "(\<forall>a \<in> set ks1. \<not> K s < K a) \<and> (\<forall>b \<in> set ks2. K s < K b)"
proof -
  have len: "length ks1 = length ts1" "length ks2 = length ts2" using assms(1) by auto
  have "item_less (Sep (K a)) (Sep (K s))" if "a \<in> set ks1" for a
  proof -
    have "Sep (K a) \<in> set (interleave (seps K ks1) (map (flat K) ts1))"
      using that seps_in_interleave [of "seps K ks1" "map (flat K) ts1"] len by (auto simp: seps_def)
    then show ?thesis using in_order_mid [OF assms(2)] unfolding left_of.simps set_append by blast
  qed
  moreover have "item_less (Sep (K s)) (Sep (K b))" if "b \<in> set ks2" for b
  proof -
    have "Sep (K b) \<in> set (concat (map2 (#) (seps K ks2) (map (flat K) ts2)))"
      using that seps_in_concat [of "seps K ks2" "map (flat K) ts2"] len
      by (simp only: seps_def length_map) (auto simp del: set_concat)
    then show ?thesis using in_order_mid [OF assms(2)] unfolding right_of.simps set_append by blast
  qed
  ultimately show ?thesis by force
qed

text \<open>The code after a split ends, and what it leaves is the tree \<open>carry\<close> gives.\<close>

lemma climb_carry:
  assumes "alloc_ok bp" "rooted bp (root_off c (off t1))" "rep (nodes bp) (par c) t1" "rep (nodes bp) q t2"
    "rep_ctx (nodes bp) c (off t1)" "distinct (ctx_offs c @ offs t1 @ offs t2)"
    "set (ctx_offs c @ offs t1 @ offs t2) \<subseteq> {0..<brk bp}" "shape_ctx h c"
    "in_order (left_of K c @ flat K t1 @ Sep (K s) # flat K t2 @ right_of K c)" "K = key_at (bp_img bp)"
    "tf_off (bp_mem bp) ri = Some (off t2)"
  shows "\<exists>bp' i. climb bp (off t1) ri (off t2) s v = Some (Inr (bp', i)) \<and> only_tree bp bp' \<and> alloc_ok bp'
    \<and> rooted bp' (off (carry c t1 s t2 (brk bp))) \<and> rep (nodes bp') (-1) (carry c t1 s t2 (brk bp))
    \<and> brk bp' = brk bp + sizeof_node * int (fresh c)"
  using assms
proof (induction c arbitrary: bp t1 s t2 q ri v h)
  case Nil
  then show ?case
    using climb_root [of bp "off t1" t1 q t2 "off t2" "off t1" ri s v] by auto
next
  case (Cons fr c)
  obtain p ks1 ts1 ks2 ts2 where fr: "fr = (p, ks1, ts1, ks2, ts2)" by (cases fr)
  note prems = Cons.prems [unfolded fr root_off.simps par.simps]
  have len: "length ks1 = length ts1" "length ks2 = length ts2" "length ks1 + length ks2 \<le> 23"
    and c: "shape_ctx (Suc h) c" and p: "0 \<le> p" using prems(7,8) by auto
  note ord = frame_order [OF prems(8,9)]
  show ?case
  proof (cases "length ks1 + length ks2 < 23")
    case True
    let ?T = "plug (Inner p (ks1 @ s # ks2) (ts1 @ t1 # t2 # ts2)) c"
    have T: "carry (fr # c) t1 s t2 (brk bp) = ?T" "fresh (fr # c) = 0" "off ?T = root_off c p"
      using True fr by (simp_all add: off_plug)
    from climb_room [OF prems(1-5) p prems(6,7) len(1) True conjunct1 [OF ord] conjunct2 [OF ord] prems(10), of ri v]
    show ?thesis unfolding T by fastforce
  next
    case False
    then have full: "length ks1 + length ks2 = 23" using len by simp
    obtain tl1 med tr1 where cut: "cut (p, ks1, ts1, ks2, ts2) t1 s t2 (brk bp) = (tl1, med, tr1)"
      by (cases "cut (p, ks1, ts1, ks2, ts2) t1 s t2 (brk bp)")
    note offs = cut_offs [OF cut] and carry = carry_cut [OF full cut, of c]
    obtain bp1 ri1 where climb: "climb bp (off t1) ri (off t2) s v
          = Option.bind (climb bp1 p ri1 (off tr1) med (-1)) (\<lambda>r. Some (drop_index r))"
      and 1: "only_tree bp bp1" "alloc_ok bp1" "brk bp1 = brk bp + sizeof_node" "rooted bp1 (root_off c p)"
        "tf_off (bp_mem bp1) ri1 = Some (off tr1)"
        "rep (nodes bp1) (par c) tl1" "rep (nodes bp1) 0 tr1" "rep_ctx (nodes bp1) c p"
      using climb_cut [OF prems(1-7) len(1,2) full conjunct1 [OF ord] conjunct2 [OF ord] prems(10,11) cut] by blast
    have K1: "key_at (bp_img bp1) = K" using only_tree_key_at [OF 1(1)] prems(10) by simp
    have "flat K (carry (fr # c) t1 s t2 (brk bp)) = flat K (carry c tl1 med tr1 (brk bp1))"
      using carry fr 1(3) by simp
    then have ord1: "in_order (left_of K c @ flat K tl1 @ Sep (K med) # flat K tr1 @ right_of K c)"
      using prems(9) carry_flat [OF prems(8)] carry_flat [OF c] fr by metis
    have ms: "mset (ctx_offs c @ offs tl1 @ offs tr1)
        = mset (brk bp # ctx_offs ((p, ks1, ts1, ks2, ts2) # c) @ offs t1 @ offs t2)"
      using offs(3) by simp
    have "distinct (brk bp # ctx_offs ((p, ks1, ts1, ks2, ts2) # c) @ offs t1 @ offs t2)"
      using prems(6,7) by (metis atLeastLessThan_iff distinct.simps(2) order_less_irrefl subsetD)
    then have d1: "distinct (ctx_offs c @ offs tl1 @ offs tr1)"
      using ms mset_eq_imp_distinct_iff by blast
    have "set (ctx_offs c @ offs tl1 @ offs tr1)
        = insert (brk bp) (set (ctx_offs ((p, ks1, ts1, ks2, ts2) # c) @ offs t1 @ offs t2))"
      using mset_eq_setD [OF ms] by simp
    moreover have "insert (brk bp) {0..<brk bp} \<subseteq> {0..<brk bp1}"
      using prems(7) p 1(3) by auto
    ultimately have s1: "set (ctx_offs c @ offs tl1 @ offs tr1) \<subseteq> {0..<brk bp1}"
      using prems(7) by blast
    have "rooted bp1 (root_off c (off tl1))" "rep_ctx (nodes bp1) c (off tl1)"
      using 1 offs(1) by simp_all
    from Cons.IH [OF 1(2) this(1) 1(6,7) this(2) d1 s1 c ord1 K1 [symmetric] 1(5), of "-1"]
    obtain bp' i where 2: "climb bp1 (off tl1) ri1 (off tr1) med (-1) = Some (Inr (bp', i))" "only_tree bp1 bp'"
        "alloc_ok bp'" "rooted bp' (off (carry c tl1 med tr1 (brk bp1)))"
        "rep (nodes bp') (-1) (carry c tl1 med tr1 (brk bp1))" "brk bp' = brk bp1 + sizeof_node * int (fresh c)"
      by blast
    then show ?thesis
      using climb offs(1) 1(1,3) carry full fr only_tree_trans [OF 1(1) 2(2)]
      by (intro exI [of _ bp'] exI [of _ "-1"]) simp
  qed
qed

end
