(* ===== verification/Bplus_Search.thy ===== *)
theory Bplus_Search
  imports Bplus_Insert
begin

text \<open>
  Searching and inserting in a whole tree: \<open>tree_ok bp T\<close> is the invariant of an index
  that holds the tree \<open>T\<close>. \<open>find_node_to_store\<close> ends and returns the leaf a key
  belongs to unless the key is a separator; \<open>insert_key\<close> keeps the invariant and inserts
  into the ordered map that the entries of the tree are.
\<close>

definition tree_ok :: "bplus \<Rightarrow> bt \<Rightarrow> bool" where
  "tree_ok bp T \<longleftrightarrow> bp_root_ptr bp \<and> alloc_ok bp \<and> rooted bp (off T) \<and> rep (nodes bp) (-1) T
     \<and> distinct (offs T) \<and> set (offs T) \<subseteq> {0..<brk bp} \<and> 0 \<notin> set (offs T) \<and> (\<exists>H. shape 1 H T)
     \<and> in_order (flat (key_at (bp_img bp)) T)
     \<and> (\<forall>s. Sep s \<in> set (flat (key_at (bp_img bp)) T) \<longrightarrow> s \<in> fst ` set (ents (flat (key_at (bp_img bp)) T)))"

definition index_map :: "image \<Rightarrow> bt \<Rightarrow> (string \<times> int) list" where
  "index_map img T = ents (flat (key_at img) T)"

section \<open>Choosing the child\<close>

lemma fold_last_hit:
  "\<forall>ii \<in> set xs. C ii \<longleftrightarrow> ii = j \<Longrightarrow>
    fold (\<lambda>ii acc. if C ii then ii else acc) xs a = (if j \<in> set xs then j else a)"
  by (induction xs arbitrary: a) auto

lemma child_idx_bounds:
  assumes "sorted_wrt (\<lambda>a b. K a < K b) ks" "i = child_idx K key ks"
  shows "i \<le> length ks" "\<And>j. j < i \<Longrightarrow> K (ks ! j) \<le> key" "\<And>j. i \<le> j \<Longrightarrow> j < length ks \<Longrightarrow> key < K (ks ! j)"
proof -
  have ok: "pick_ok K key (child_idx K key) ks" by (rule child_idx_ok [OF assms(1)])
  then show i: "i \<le> length ks" by (simp add: pick_ok_def assms(2))
  show "K (ks ! j) \<le> key" if "j < i" for j
  proof -
    have "take i ks ! j \<in> set (take i ks)" using that i by (intro nth_mem) simp
    then show ?thesis using ok that assms(2) by (simp add: pick_ok_def)
  qed
  show "key < K (ks ! j)" if "i \<le> j" "j < length ks" for j
  proof -
    have "drop i ks ! (j - i) \<in> set (drop i ks)" using that by (intro nth_mem) simp
    then show ?thesis using ok that assms(2) by (simp add: pick_ok_def)
  qed
qed

lemma view_nth:
  assumes "node_ok n"
  shows "j < n_num_keys n \<Longrightarrow> n_keys n ! j = vkeys n ! j" "j \<le> n_num_keys n \<Longrightarrow> n_children n ! j = vkids n ! j"
    "j < n_num_keys n \<Longrightarrow> n_values n ! j = vvals n ! j"
  using assms by (auto simp: vkeys_def vkids_def vvals_def node_ok_def)

lemma inner_idx_child:
  assumes "node_ok n" "vkeys n = ks" "sorted_wrt (\<lambda>a b. K a < K b) ks" "K = key_at img" "nul_free key"
    "i = child_idx K key ks" "0 < i" "i < length ks" "key \<notin> K ` set ks"
  shows "inner_idx img key n = i - 1"
proof -
  note b = child_idx_bounds [OF assms(3,6)]
  have m: "n_num_keys n = length ks" using length_views(1) [OF assms(1)] assms(2) by simp
  have keys: "n_keys n ! j = ks ! j" if "j < length ks" for j using view_nth(1) [OF assms(1)] m assms(2) that by simp
  have ne: "K (ks ! j) \<noteq> key" if "j < length ks" for j using assms(9) that by (metis imageI nth_mem)
  have hit: "(strcmp (key_at img (n_keys n ! ii)) (c_str key) < 0
      \<and> strcmp (c_str key) (key_at img (n_keys n ! (ii + 1))) < 0) \<longleftrightarrow> ii = i - 1"
    if "ii \<in> set [1..<n_num_keys n]" for ii
  proof -
    have ii: "ii < length ks" "n_keys n ! ii = ks ! ii" using that m keys by auto
    have lt: "K (ks ! ii) < key \<longleftrightarrow> ii < i" using b ii(1) ne [OF ii(1)] by (meson leI less_le not_le)
    have "key < K (ks ! (ii + 1)) \<longleftrightarrow> i \<le> ii + 1" if "ii < i"
    proof (cases "ii + 1 < i")
      case True
      then show ?thesis using b(2) [OF True] by auto
    next
      case False
      then show ?thesis using b(3) [of "ii + 1"] that assms(8) by simp
    qed
    moreover have "n_keys n ! (ii + 1) = ks ! (ii + 1)" if "ii < i" using that assms(8) keys by simp
    ultimately show ?thesis
      using lt ii(2) assms(4,5,7) by (auto simp: c_str_nul_free strcmp_lt)
  qed
  have "inner_idx img key n = (if i - 1 \<in> set [1..<n_num_keys n] then i - 1 else 0)"
    unfolding inner_idx_def using hit by (intro fold_last_hit) blast
  then show ?thesis using assms(7,8) m by auto
qed

lemma find_step_child:
  assumes "node_ok n" "vkeys n = ks" "sorted_wrt (\<lambda>a b. K a < K b) ks" "K = key_at img" "nul_free key"
    "i = child_idx K key ks" "ks \<noteq> []" "key \<notin> K ` set ks"
  shows "find_step img key n = vkids n ! i"
proof -
  note b = child_idx_bounds [OF assms(3,6)]
  have m: "n_num_keys n = length ks" using length_views(1) [OF assms(1)] assms(2) by simp
  have ne: "K (ks ! j) \<noteq> key" if "j < length ks" for j using assms(8) that by (metis imageI nth_mem)
  have k0: "n_keys n ! 0 = ks ! 0" "n_keys n ! (n_num_keys n - 1) = ks ! (length ks - 1)"
    using view_nth(1) [OF assms(1)] m assms(2,7) by simp_all
  have last: "length ks - 1 < length ks" using assms(7) by simp
  consider "i = 0" | "0 < i" "i = length ks" | "0 < i" "i < length ks" using b(1) by linarith
  then show ?thesis
  proof cases
    case 1
    then have "key < K (ks ! 0)" using b(3) [of 0] assms(7) by simp
    then show ?thesis using 1 k0 assms(4,5) view_nth(2) [OF assms(1), of 0]
      by (simp add: find_step_def strcmp_lt c_str_nul_free before_def)
  next
    case 2
    then have "K (ks ! 0) < key" "K (ks ! (length ks - 1)) < key"
      using b(2) [of 0] b(2) [of "length ks - 1"] ne [of 0] ne [of "length ks - 1"] last assms(7)
      by (simp_all add: less_le)
    then show ?thesis using 2 k0 m assms(4,5) view_nth(2) [OF assms(1), of "length ks"]
      by (auto simp: find_step_def strcmp_iffs c_str_nul_free after_def)
  next
    case 3
    have "K (ks ! 0) \<le> key" "K (ks ! 0) \<noteq> key" using b(2) [of 0] ne [of 0] 3 assms(7) by simp_all
    then have "K (ks ! 0) < key" by (rule order.not_eq_order_implies_strict [rotated])
    moreover have "i \<le> length ks - 1" using 3(2) by linarith
    then have "key < K (ks ! (length ks - 1))" by (rule b(3) [OF _ last])
    ultimately show ?thesis
      using 3 k0 m assms(4,5) view_nth(2) [OF assms(1), of i] inner_idx_child [OF assms(1-6) 3 assms(8)]
      by (auto simp: find_step_def strcmp_iffs c_str_nul_free after_def)
  qed
qed

lemma find_loop_path:
  assumes "rep (im_nodes img) q t" "shape lo h t" "1 \<le> lo" "in_order (flat K t)" "K = key_at img" "nul_free key"
    "Sep key \<notin> set (flat K t)"
  shows "find_loop img key (off t) = Some (off (snd (descend (child_idx K key) c t)))"
  using assms
proof (induction t arbitrary: q lo h c)
  case (Leaf p ks vs)
  then show ?case by (subst find_loop.simps) simp
next
  case (Inner p ks ts)
  let ?i = "child_idx K key ks"
  have len: "length ts = Suc (length ks)" "ks \<noteq> []" using Inner.prems(2,3) by auto
  have kids: "\<forall>t \<in> set ts. shape 11 (h - 1) t" using Inner.prems(2) by simp
  have ks: "sorted_wrt (\<lambda>a b. K a < K b) ks" "\<forall>k \<in> set ks. Sep (K k) \<in> set (flat K (Inner p ks ts))"
    using inner_keys [OF Inner.prems(2,4), of ks] by (simp_all del: flat.simps)
  have new: "key \<notin> K ` set ks" using ks(2) Inner.prems(7) by (auto simp del: flat.simps)
  have i: "?i \<le> length ks" "?i < length ts"
    using child_idx_bounds(1) [OF ks(1) refl, of key] len by (simp_all add: le_imp_less_Suc)
  have n: "node_ok (im_nodes img p)" "vkeys (im_nodes img p) = ks" "vkids (im_nodes img p) = map off ts"
      "\<not> n_is_leaf (im_nodes img p)" "rep (im_nodes img) p (ts ! ?i)"
    using Inner.prems(1) i(2) by auto
  have step: "find_step img key (im_nodes img p) = off (ts ! ?i)"
    using find_step_child [OF n(1,2) ks(1) Inner.prems(5,6) refl len(2) new] n(3) i(2) by simp
  have flat: "flat K (Inner p ks ts) = interleave (seps K ks) (map (flat K) ts)" by (simp add: seps_def)
  have sub: "in_order (flat K (ts ! ?i))"
    using interleave_seps_sorted [of "map (flat K) ts" ks K] Inner.prems(4) len(1) i(2) unfolding flat by simp
  have "set (flat K (ts ! ?i)) \<subseteq> set (flat K (Inner p ks ts))"
    using set_interleave [of "map (flat K) ts" "seps K ks"] len(1) nth_mem [OF i(2)] unfolding flat by auto
  then have nosep: "Sep key \<notin> set (flat K (ts ! ?i))" using Inner.prems(7) by blast
  have "find_loop img key (off (ts ! ?i)) =
      Some (off (snd (descend (child_idx K key) ((p, take ?i ks, take ?i ts, drop ?i ks, drop (Suc ?i) ts) # c) (ts ! ?i))))"
    using Inner.IH [OF nth_mem [OF i(2)] n(5) _ _ sub Inner.prems(5,6) nosep, of 11 "h - 1"] kids i(2) by simp
  then show ?case using n(4) step i(2) by (subst find_loop.simps) (simp add: Let_def)
qed

section \<open>The key cells a tree refers to\<close>

fun keys_in :: "bt \<Rightarrow> int set" where
  "keys_in (Leaf p ks vs) = set ks"
| "keys_in (Inner p ks ts) = set ks \<union> (\<Union>t \<in> set ts. keys_in t)"

fun ctx_keys :: "frame list \<Rightarrow> int set" where
  "ctx_keys [] = {}"
| "ctx_keys ((p, ks1, ts1, ks2, ts2) # c) =
     set ks1 \<union> set ks2 \<union> (\<Union>t \<in> set ts1 \<union> set ts2. keys_in t) \<union> ctx_keys c"

lemma keys_in_plug: "keys_in (plug t c) = keys_in t \<union> ctx_keys c"
  by (induction t c rule: plug.induct) auto

lemma keys_in_carry:
  "shape_ctx h c \<Longrightarrow> keys_in (carry c t1 s t2 f) \<subseteq> insert s (keys_in t1 \<union> keys_in t2 \<union> ctx_keys c)"
proof (induction c t1 s t2 f arbitrary: h rule: carry.induct)
  case (2 p ks1 ts1 ks2 ts2 c t1 s t2 f)
  let ?m = "11 - length ks1"
  have c: "shape_ctx (Suc h) c" and len: "length ks1 + length ks2 \<le> 23" using "2.prems" by auto
  consider "length ks1 + length ks2 < 23" | "length ks1 + length ks2 = 23" "length ks1 \<le> 11"
    | "length ks1 + length ks2 = 23" "\<not> length ks1 \<le> 11"
    using len by linarith
  then show ?case
  proof cases
    case 1
    then show ?thesis by (auto simp: keys_in_plug)
  next
    case 2
    let ?B = "insert s (keys_in t1 \<union> keys_in t2 \<union> ctx_keys ((p, ks1, ts1, ks2, ts2) # c))"
    have "keys_in (Inner p (ks1 @ s # take ?m ks2) (ts1 @ t1 # t2 # take ?m ts2)) \<subseteq> ?B"
        "keys_in (Inner f (drop (12 - length ks1) ks2) (drop ?m ts2)) \<subseteq> ?B" "ctx_keys c \<subseteq> ?B"
        "ks2 ! ?m \<in> set ks2"
      using 2 by (auto dest: in_set_takeD in_set_dropD)
    moreover have "carry ((p, ks1, ts1, ks2, ts2) # c) t1 s t2 f = carry c
        (Inner p (ks1 @ s # take ?m ks2) (ts1 @ t1 # t2 # take ?m ts2)) (ks2 ! ?m)
        (Inner f (drop (12 - length ks1) ks2) (drop ?m ts2)) (f + sizeof_node)"
      using 2 by simp
    moreover have "ks2 ! ?m \<in> ?B" using calculation(4) by auto
    ultimately show ?thesis using "2.IH"(1) [OF _ _ c] 2 by (simp only:) blast
  next
    case 3
    let ?B = "insert s (keys_in t1 \<union> keys_in t2 \<union> ctx_keys ((p, ks1, ts1, ks2, ts2) # c))"
    have "keys_in (Inner p (take 11 ks1) (take 12 ts1)) \<subseteq> ?B"
        "keys_in (Inner f (drop 12 ks1 @ s # ks2) (drop 12 ts1 @ t1 # t2 # ts2)) \<subseteq> ?B" "ctx_keys c \<subseteq> ?B"
        "ks1 ! 11 \<in> set ks1"
      using 3 by (auto dest: in_set_takeD in_set_dropD)
    moreover have "carry ((p, ks1, ts1, ks2, ts2) # c) t1 s t2 f = carry c (Inner p (take 11 ks1) (take 12 ts1))
        (ks1 ! 11) (Inner f (drop 12 ks1 @ s # ks2) (drop 12 ts1 @ t1 # t2 # ts2)) (f + sizeof_node)"
      using 3 by simp
    moreover have "ks1 ! 11 \<in> ?B" using calculation(4) by auto
    ultimately show ?thesis using "2.IH"(2) [OF _ _ c] 3 by (simp only:) blast
  qed
qed auto

lemma keys_in_tree_insert:
  assumes "shape_ctx 0 c" "length ks \<le> 23"
  shows "keys_in (tree_insert K k v c p ks vs f) \<subseteq> insert k (keys_in (plug (Leaf p ks vs) c))"
proof (cases "length ks < 23")
  case True
  then show ?thesis by (auto simp: tree_insert_def keys_in_plug leaf_ins_def Let_def)
next
  case full: False
  then have "ks ! 11 \<in> set ks" by simp
  moreover have ins: "keys_in (leaf_ins K k v q (take 11 ks) ws) \<subseteq> insert k (set ks)"
      "keys_in (leaf_ins K k v q (drop 11 ks) ws) \<subseteq> insert k (set ks)"
      "keys_in (Leaf q (take 11 ks) ws) \<subseteq> set ks" "keys_in (Leaf q (drop 11 ks) ws) \<subseteq> set ks" for q ws
    by (auto simp: leaf_ins_def Let_def dest: in_set_takeD in_set_dropD)
  moreover have "keys_in (plug (Leaf p ks vs) c) = set ks \<union> ctx_keys c" by (simp add: keys_in_plug)
  moreover have "keys_in (tree_insert K k v c p ks vs f) \<subseteq> insert k (insert (ks ! 11) (set ks \<union> ctx_keys c))"
  proof (cases "K k < K (ks ! 11)")
    case True
    then show ?thesis
      using full keys_in_carry [OF assms(1), of "leaf_ins K k v p (take 11 ks) (take 11 vs)" "ks ! 11"
          "Leaf f (drop 11 ks) (drop 11 vs)" "f + sizeof_node"] ins(1) [of p "take 11 vs"] ins(4) [of f "drop 11 vs"]
      unfolding tree_insert_def by (simp del: keys_in.simps) blast
  next
    case False
    then show ?thesis
      using full keys_in_carry [OF assms(1), of "Leaf p (take 11 ks) (take 11 vs)" "ks ! 11"
          "leaf_ins K k v f (drop 11 ks) (drop 11 vs)" "f + sizeof_node"] ins(3) [of p "take 11 vs"] ins(2) [of f "drop 11 vs"]
      unfolding tree_insert_def by (simp del: keys_in.simps) blast
  qed
  ultimately show ?thesis by blast
qed

lemma flat_cong: "\<forall>k \<in> keys_in t. K k = K' k \<Longrightarrow> flat K t = flat K' t"
proof (induction t)
  case (Leaf p ks vs)
  then show ?case by (auto dest: set_zip_leftD)
next
  case (Inner p ks ts)
  then have "map (flat K) ts = map (flat K') ts" "map (\<lambda>k. Sep (K k)) ks = map (\<lambda>k. Sep (K' k)) ks" by auto
  then show ?case by (simp only: flat.simps)
qed

section \<open>Inserting\<close>

lemma fresh_offs_range:
  "distinct (fresh_offs f n)" "set (fresh_offs f n) \<subseteq> {f..<f + sizeof_node * int n}"
  by (auto simp: fresh_offs_def distinct_map inj_on_def)

lemma tree_insert_offs_ok:
  assumes "distinct (ctx_offs c @ [p])" "set (ctx_offs c @ [p]) \<subseteq> {0..<f}"
    "f' = (if length ks < 23 then f else f + sizeof_node * int (Suc (fresh c)))"
  shows "distinct (offs (tree_insert K k v c p ks vs f)) \<and> set (offs (tree_insert K k v c p ks vs f)) \<subseteq> {0..<f'}
    \<and> (0 \<in> set (offs (tree_insert K k v c p ks vs f)) \<longrightarrow> 0 \<in> set (ctx_offs c @ [p]))"
proof -
  let ?new = "if length ks < 23 then [] else fresh_offs f (Suc (fresh c))"
  have ms: "mset (offs (tree_insert K k v c p ks vs f)) = mset (ctx_offs c @ p # ?new)"
    by (simp add: tree_insert_offs)
  have set: "set (offs (tree_insert K k v c p ks vs f)) = set (ctx_offs c @ [p]) \<union> set ?new"
    using mset_eq_setD [OF ms] by simp
  have new: "set ?new \<subseteq> {f..<f'}" using fresh_offs_range(2) [of f "Suc (fresh c)"] assms(3) by simp
  have "{0..<f} \<subseteq> {0..<f'}" "{f..<f'} \<subseteq> {0..<f'}" using assms(2,3) by auto
  then have "set (offs (tree_insert K k v c p ks vs f)) \<subseteq> {0..<f'}"
    unfolding set using assms(2) new by blast
  moreover have "distinct (ctx_offs c @ p # ?new)"
    using assms(1,2) new fresh_offs_range(1) by fastforce
  moreover have "0 \<notin> set ?new" using new assms(2) by auto
  ultimately show ?thesis using mset_eq_imp_distinct_iff [OF ms] set by blast
qed

lemma tree_insert_seps:
  assumes "shape_ctx 0 c" "length ks \<le> 23" "Sep s \<in> set (flat K (tree_insert K k v c p ks vs f))"
  shows "Sep s \<in> set (flat K (plug (Leaf p ks vs) c)) \<or> s \<in> K ` set ks"
proof -
  have leaf: "Sep s \<notin> set (flat K (Leaf q as bs))" "Sep s \<notin> set (flat K (leaf_ins K k v q as bs))" for q as bs
    by (auto simp: leaf_ins_def Let_def)
  show ?thesis
    using assms(2,3) leaf
    by (auto simp: tree_insert_def flat_plug [OF assms(1)] carry_flat [OF assms(1)] simp del: flat.simps
        split: if_splits)
qed

lemma insert_full_leaf:
  assumes "alloc_ok bp" "rooted bp (root_off c p)" "rep (nodes bp) (par c) (Leaf p ks vs)" "rep_ctx (nodes bp) c p"
    "distinct (ctx_offs c @ [p])" "set (ctx_offs c @ [p]) \<subseteq> {0..<brk bp}" "shape_ctx 0 c" "length ks = 23"
    "in_order (flat K (tree_insert K k v c p ks vs (brk bp)))" "K = key_at (bp_img bp)"
  shows "\<exists>bp' i. split_insert_node bp p k v False (-1) = Some (Inr (bp', i)) \<and> only_tree bp bp' \<and> alloc_ok bp'
    \<and> rooted bp' (off (tree_insert K k v c p ks vs (brk bp)))
    \<and> rep (nodes bp') (-1) (tree_insert K k v c p ks vs (brk bp))
    \<and> brk bp' = brk bp + sizeof_node * int (Suc (fresh c))"
proof -
  let ?f = "brk bp" and ?lt = "K k < K (ks ! 11)"
  let ?t1 = "if ?lt then leaf_ins K k v p (take 11 ks) (take 11 vs) else Leaf p (take 11 ks) (take 11 vs)"
  let ?t2 = "if ?lt then Leaf ?f (drop 11 ks) (drop 11 vs) else leaf_ins K k v ?f (drop 11 ks) (drop 11 vs)"
  have T: "tree_insert K k v c p ks vs ?f = carry c ?t1 (ks ! 11) ?t2 (?f + sizeof_node)"
    using assms(8) by (simp add: tree_insert_def)
  have n: "node_ok (nodes bp p)" "n_is_leaf (nodes bp p)" "n_parent (nodes bp p) = par c"
      "vkeys (nodes bp p) = ks" "vvals (nodes bp p) = vs" and num: "n_num_keys (nodes bp p) = 23"
    using assms(3,8) length_views(1) [of "nodes bp p"] by auto
  have pf: "p < ?f" "p \<noteq> ?f" "0 \<le> p" using assms(6) by auto
  obtain bp1 ri n' r' where half: "split_half bp p k v False (-1) = Inr (bp1, ri, ?f, ks ! 11)"
    and rest: "only_tree bp bp1" "alloc_ok bp1" "brk bp1 = ?f + sizeof_node" "bp_rootidx bp1 = bp_rootidx bp"
      "im_headers (bp_img bp1) = im_headers (bp_img bp)" "tf_off (bp_mem bp1) ri = Some ?f"
    and N1: "nodes bp1 = (nodes bp)(p := n', ?f := r')"
    and ok: "node_ok n'" "n_parent n' = par c" "n_is_leaf n'" "node_ok r'" "n_parent r' = 0" "n_is_leaf r'"
    and views: "vkeys n' = (if ?lt then insert_at (key_pos K k (take 11 ks)) k (take 11 ks) else take 11 ks)"
      "vvals n' = (if ?lt then insert_at (key_pos K k (take 11 ks)) v (take 11 vs) else take 11 vs)"
      "vkeys r' = (if ?lt then drop 11 ks else insert_at (key_pos K k (drop 11 ks)) k (drop 11 ks))"
      "vvals r' = (if ?lt then drop 11 vs else insert_at (key_pos K k (drop 11 ks)) v (drop 11 vs))"
    using split_half_leaf [OF assms(1) refl n(1,2) num pf(1), of k v "-1", unfolded n(3-5), folded assms(10)]
    by (elim exE conjE) (rule that)
  have reps: "rep (nodes bp1) (par c) ?t1" "rep (nodes bp1) 0 ?t2"
    using N1 pf(2) ok views by (auto simp: leaf_ins_def Let_def)
  have "\<forall>x \<in> set (ctx_offs c). nodes bp1 x = nodes bp x" using N1 assms(5,6) by auto
  then have ctx: "rep_ctx (nodes bp1) c p" using assms(4) rep_ctx_same by metis
  have root: "rooted bp1 (root_off c p)"
    using assms(2) rest only_tree_headeridx [OF rest(1)] by (auto simp: rooted_def only_tree_def)
  have t12: "off ?t1 = p" "off ?t2 = ?f" "offs ?t1 = [p]" "offs ?t2 = [?f]" by auto
  have K1: "K = key_at (bp_img bp1)" using only_tree_key_at [OF rest(1)] assms(10) by simp
  have "hd (vkeys r') = ks ! 11"
    using views(3) assms(8) by (auto simp: hd_drop_conv_nth key_pos_def insert_at_def takeWhile_eq_Nil_iff hd_append)
  moreover have "vkeys r' \<noteq> []" using views(3) assms(8) by (auto simp: insert_at_def)
  ultimately have "n_keys (nodes bp1 ?f) ! 0 = ks ! 11"
    using N1 by (cases "n_keys r'"; cases "n_num_keys r'") (auto simp: vkeys_def)
  then have climb: "split_insert_node bp p k v False (-1) = climb bp1 p ri ?f (ks ! 11) v"
    using split_insert_climb [OF num half] by simp
  have ord: "in_order (left_of K c @ flat K ?t1 @ Sep (K (ks ! 11)) # flat K ?t2 @ right_of K c)"
    using assms(9) carry_flat [OF assms(7)] unfolding T by metis
  have d: "distinct (ctx_offs c @ offs ?t1 @ offs ?t2)" "set (ctx_offs c @ offs ?t1 @ offs ?t2) \<subseteq> {0..<brk bp1}"
    unfolding t12 using assms(5,6) rest(3) by fastforce+
  from climb_carry [OF rest(2) _ reps _ d assms(7) ord K1, of ri v] root ctx rest(6) t12(1,2)
  obtain bp' i where "climb bp1 p ri ?f (ks ! 11) v = Some (Inr (bp', i))" "only_tree bp1 bp'" "alloc_ok bp'"
      "rooted bp' (off (carry c ?t1 (ks ! 11) ?t2 (brk bp1)))"
      "rep (nodes bp') (-1) (carry c ?t1 (ks ! 11) ?t2 (brk bp1))"
      "brk bp' = brk bp1 + sizeof_node * int (fresh c)"
    by auto
  then show ?thesis
    using climb rest(3) only_tree_trans [OF rest(1)] unfolding T
    by (intro exI [of _ bp'] exI [of _ i]) (simp add: algebra_simps)
qed

lemma insert_room_leaf:
  assumes "alloc_ok bp" "rooted bp (root_off c p)" "rep (nodes bp) (par c) (Leaf p ks vs)" "rep_ctx (nodes bp) c p"
    "distinct (ctx_offs c @ [p])" "p < brk bp" "length ks < 23" "K = key_at (bp_img bp)"
    "bp' = bp\<lparr>bp_img := fst (insert_into_node (bp_img bp) p k v False (-1))\<rparr>"
  shows "only_tree bp bp' \<and> alloc_ok bp' \<and> rooted bp' (root_off c p) \<and> brk bp' = brk bp
    \<and> rep (nodes bp') (-1) (plug (leaf_ins K k v p ks vs) c)"
proof -
  have n: "node_ok (nodes bp p)" "n_is_leaf (nodes bp p)" "n_parent (nodes bp p) = par c"
      "vkeys (nodes bp p) = ks" "vvals (nodes bp p) = vs" and num: "n_num_keys (nodes bp p) < 23"
    using assms(3,7) length_views(1) [of "nodes bp p"] by auto
  have N': "nodes bp' = (nodes bp)(p := inserted (bp_img bp) (nodes bp p) k v (-1))"
    by (simp add: assms(9) insert_into_node_inserted)
  then have "\<forall>x \<in> set (ctx_offs c). nodes bp' x = nodes bp x" using assms(5) by auto
  then have "rep_ctx (nodes bp') c p" using assms(4) rep_ctx_same by metis
  moreover have "rep (nodes bp') (par c) (leaf_ins K k v p ks vs)"
    using N' n num assms(8) by (simp add: leaf_ins_def Let_def inserted_views)
  ultimately have "rep (nodes bp') (-1) (plug (leaf_ins K k v p ks vs) c)" by (simp add: rep_plug)
  moreover have "alloc_ok bp'" using assms(1,6) N' by (auto simp: alloc_ok_def assms(9))
  moreover have "rooted bp' (root_off c p)" using assms(2) by (simp add: rooted_def assms(9) insert_into_node_inserted)
  moreover have "only_tree bp bp'"
    using only_tree_I [of bp "bp_mem bp" "bp_img bp'"] by (simp add: assms(9) insert_into_node_inserted)
  ultimately show ?thesis by (simp add: assms(9))
qed

lemma find_node_to_store_leaf:
  assumes "tree_ok bp T" "K = key_at (bp_img bp)" "nul_free key" "Sep key \<notin> set (flat K T)"
  obtains c p ks vs where "find_node_to_store bp key = Some (Inr p)" "plug (Leaf p ks vs) c = T"
    "shape_ctx 0 c" "shape (if c = [] then 1 else 11) 0 (Leaf p ks vs)" "beside K key c"
proof -
  obtain H where H: "shape 1 H T" "in_order (flat K T)" using assms(1,2) by (auto simp: tree_ok_def)
  obtain c p ks vs where c: "descend (child_idx K key) [] T = (c, Leaf p ks vs)" "plug (Leaf p ks vs) c = T"
      "shape_ctx 0 c" "shape (if c = [] then 1 else 11) 0 (Leaf p ks vs)" "beside K key c"
    by (rule way_down [OF H])
  have "find_loop (bp_img bp) key (off T) = Some (off (snd (descend (child_idx K key) [] T)))"
    using assms by (intro find_loop_path [OF _ H(1) _ H(2)]) (auto simp: tree_ok_def)
  moreover have "get_offset (bp_mem bp) (bp_rootidx bp) = Inr (off T)"
    using assms(1) by (simp add: tree_ok_def rooted_def get_offset_off)
  ultimately have "find_node_to_store bp key = Some (Inr p)"
    using assms(1) c(1) by (simp add: find_node_to_store_def tree_ok_def)
  with c that show thesis by blast
qed

lemma insert_key_tree:
  assumes "tree_ok bp T" "key_at (bp_img bp) key_of = ident" "nul_free ident"
    "ident \<notin> fst ` set (index_map (bp_img bp) T)"
  shows "\<exists>bp' T'. insert_key False ident (bp, key_of, inode_of) = Some (Inr bp') \<and> tree_ok bp' T'
    \<and> only_tree bp bp' \<and> index_map (bp_img bp') T' = omap_put ident inode_of (index_map (bp_img bp) T)
    \<and> keys_in T' \<subseteq> insert key_of (keys_in T)"
proof -
  define K where "K = key_at (bp_img bp)"
  have ok: "bp_root_ptr bp" "alloc_ok bp" "rooted bp (off T)" "rep (nodes bp) (-1) T" "distinct (offs T)"
      "set (offs T) \<subseteq> {0..<brk bp}" "in_order (flat K T)"
      "\<And>s. Sep s \<in> set (flat K T) \<Longrightarrow> s \<in> fst ` set (ents (flat K T))"
    using assms(1) by (auto simp: tree_ok_def K_def)
  have new: "ident \<notin> fst ` set (ents (flat K T))" using assms(4) by (simp add: index_map_def K_def)
  then have "Sep ident \<notin> set (flat K T)" using ok(8) by blast
  with assms(1,3) obtain c p ks vs where find: "find_node_to_store bp ident = Some (Inr p)"
    and c: "plug (Leaf p ks vs) c = T" "shape_ctx 0 c" "shape (if c = [] then 1 else 11) 0 (Leaf p ks vs)"
      "beside K ident c"
    using find_node_to_store_leaf [of bp T K ident] unfolding K_def by metis
  let ?T' = "tree_insert K key_of inode_of c p ks vs (brk bp)"
  have k: "K key_of = ident" using assms(2) by (simp add: K_def)
  have len: "length vs = length ks" "length ks \<le> 23" using c(3) by auto
  have flat: "flat K T = left_of K c @ flat K (Leaf p ks vs) @ right_of K c" using flat_plug [OF c(2)] c(1) by metis
  have entries: "K ` set ks \<subseteq> fst ` set (ents (flat K T))"
  proof
    fix s assume "s \<in> K ` set ks"
    then obtain j where "j < length ks" "s = K (ks ! j)" by (auto simp: in_set_conv_nth)
    then have "Ent s (vs ! j) \<in> set (flat K (Leaf p ks vs))" using len(1) by (force simp: set_zip)
    then have "(s, vs ! j) \<in> set (ents (flat K T))" unfolding flat in_ents by (simp del: flat.simps)
    then show "s \<in> fst ` set (ents (flat K T))" by force
  qed
  have ins: "in_order (flat K ?T')" "ents (flat K ?T') = omap_put ident inode_of (ents (flat K T))"
    using tree_insert_flat [OF c(2) len, of K p key_of inode_of "brk bp"] ok(7) flat entries new c(1,4) k
    by (auto simp: beside_def simp del: flat.simps)
  have leaf: "rep (nodes bp) (par c) (Leaf p ks vs)" "rep_ctx (nodes bp) c p" "off T = root_off c p"
    using ok(4) c(1) by (auto simp: rep_plug off_plug)
  have zero: "0 \<notin> set (offs T)" using assms(1) by (simp add: tree_ok_def)
  have ms: "mset (ctx_offs c @ [p]) = mset (offs T)" using offs_plug [of "Leaf p ks vs" c] c(1) by simp
  have offs: "distinct (ctx_offs c @ [p])" "set (ctx_offs c @ [p]) \<subseteq> {0..<brk bp}"
    using ok(5,6) mset_eq_imp_distinct_iff [OF ms] mset_eq_setD [OF ms] by auto
  have num: "n_num_keys (nodes bp p) = length ks" using leaf(1) length_views(1) [of "nodes bp p"] by auto
  obtain bp' where bp': "insert_key False ident (bp, key_of, inode_of) = Some (Inr bp')" "only_tree bp bp'" "alloc_ok bp'"
      "rooted bp' (off ?T')" "rep (nodes bp') (-1) ?T'"
      "brk bp' = (if length ks < 23 then brk bp else brk bp + sizeof_node * int (Suc (fresh c)))"
  proof (cases "length ks < 23")
    case True
    let ?bp' = "bp\<lparr>bp_img := fst (insert_into_node (bp_img bp) p key_of inode_of False (-1))\<rparr>"
    have "insert_key False ident (bp, key_of, inode_of) = Some (Inr ?bp')"
      using True find num by (simp add: insert_key_def)
    moreover have "?T' = plug (leaf_ins K key_of inode_of p ks vs) c" using True by (simp add: tree_insert_def)
    moreover have "p < brk bp" using offs(2) by simp
    ultimately show thesis
      using insert_room_leaf [OF ok(2) _ leaf(1,2) offs(1) _ True K_def refl, of key_of inode_of] ok(3) leaf(3) that True
      by (simp add: off_plug)
  next
    case False
    then have full: "length ks = 23" using len by simp
    from insert_full_leaf [OF ok(2) _ leaf(1,2) offs c(2) full ins(1) K_def] ok(3) leaf(3)
    obtain bp' i where "split_insert_node bp p key_of inode_of False (-1) = Some (Inr (bp', i))" "only_tree bp bp'"
        "alloc_ok bp'" "rooted bp' (off ?T')" "rep (nodes bp') (-1) ?T'"
        "brk bp' = brk bp + sizeof_node * int (Suc (fresh c))"
      by auto
    then show thesis using that [of bp'] full find num by (simp add: insert_key_def)
  qed
  have K': "key_at (bp_img bp') = K" using only_tree_key_at [OF bp'(2)] by (simp add: K_def)
  have "s \<in> fst ` set (ents (flat K ?T'))" if "Sep s \<in> set (flat K ?T')" for s
    using tree_insert_seps [OF c(2) len(2) that] ok(8) entries c(1) unfolding ins(2) omap.dom_put by auto
  moreover have "distinct (offs ?T') \<and> set (offs ?T') \<subseteq> {0..<brk bp'} \<and> 0 \<notin> set (offs ?T')"
    using tree_insert_offs_ok [OF offs bp'(6)] zero mset_eq_setD [OF ms] by metis
  moreover have "\<exists>H. shape 1 H ?T'" by (rule tree_insert_shape [OF c(2,3)])
  moreover have "bp_root_ptr bp'" using ok(1) bp'(2) by (auto simp: only_tree_def)
  ultimately have "tree_ok bp' ?T'" using bp'(3-5) ins(1) by (auto simp: tree_ok_def K')
  moreover have "keys_in ?T' \<subseteq> insert key_of (keys_in T)" using keys_in_tree_insert [OF c(2) len(2)] c(1) by metis
  ultimately show ?thesis using bp'(1,2) ins(2) K' unfolding index_map_def K_def by metis
qed

section \<open>Finding\<close>

lemma leaf_entry_keys:
  assumes "length vs = length ks"
  shows "fst ` set (ents (flat K (Leaf p ks vs))) = K ` set ks"
proof -
  have "length ks = length vs \<Longrightarrow> ents (map2 (\<lambda>k v. Ent (K k) v) ks vs) = zip (map K ks) vs"
    by (induction ks vs rule: list_induct2) auto
  then have "map fst (ents (flat K (Leaf p ks vs))) = map K ks" using assms by simp
  from arg_cong [OF this, of set] show ?thesis by simp
qed

lemma bplus_find_tree:
  assumes "tree_ok bp T" "nul_free key" "Sep key \<notin> set (flat (key_at (bp_img bp)) T)"
  shows "bplus_find bp key = Some (Inr (key \<in> fst ` set (index_map (bp_img bp) T)))"
proof -
  define K where "K = key_at (bp_img bp)"
  obtain c p ks vs where find: "find_node_to_store bp key = Some (Inr p)"
    and c: "plug (Leaf p ks vs) c = T" "shape_ctx 0 c" "shape (if c = [] then 1 else 11) 0 (Leaf p ks vs)"
      "beside K key c"
    using find_node_to_store_leaf [OF assms(1) K_def assms(2)] assms(3) by (metis K_def)
  have "rep (nodes bp) (par c) (Leaf p ks vs)" "p \<in> set (offs T)"
    using assms(1) c(1) mset_eq_setD [OF offs_plug [of "Leaf p ks vs" c, unfolded mset_append [symmetric]]]
    by (auto simp: tree_ok_def rep_plug)
  then have n: "node_ok (nodes bp p)" "vkeys (nodes bp p) = ks" "p \<noteq> 0" "p \<noteq> -1"
    using assms(1) by (auto simp: tree_ok_def)
  have "n_num_keys (nodes bp p) = length ks" using length_views(1) [OF n(1)] n(2) by simp
  then have "list_ex (\<lambda>ii. strcmp (K (n_keys (nodes bp p) ! ii)) (c_str key) = 0) [0..<n_num_keys (nodes bp p)]
      \<longleftrightarrow> (\<exists>ii < length ks. K (ks ! ii) = key)"
    using view_nth(1) [OF n(1)] n(2) assms(2)
    by (auto simp: list_ex_iff c_str_nul_free strcmp_eq K_def)
  also have "\<dots> \<longleftrightarrow> key \<in> K ` set ks" by (metis imageE imageI in_set_conv_nth)
  also have "\<dots> \<longleftrightarrow> map_of (ents (flat K T)) key \<noteq> None"
    using map_of_beside [OF c(4), of "flat K (Leaf p ks vs)"] flat_plug [OF c(2), of K "Leaf p ks vs"] c(1,3)
      leaf_entry_keys [of vs ks K p] by (auto simp: map_of_eq_None_iff simp del: flat.simps)
  also have "\<dots> \<longleftrightarrow> key \<in> fst ` set (index_map (bp_img bp) T)"
    by (simp add: index_map_def K_def map_of_eq_None_iff)
  finally show ?thesis using find n(3,4) by (simp add: bplus_find_def Let_def K_def)
qed

text \<open>
  A key that is a separator other than the first of its node is looked for in the second
  child: no \<open>ii\<close> has the key strictly between two separators.
\<close>

lemma find_step_separator:
  assumes "node_ok n" "vkeys n = ks" "sorted_wrt (\<lambda>a b. K a < K b) ks" "K = key_at img"
    "1 \<le> j" "j < length ks" "key = K (ks ! j)"
  shows "find_step img key n = vkids n ! 1"
proof -
  have m: "n_num_keys n = length ks" using length_views(1) [OF assms(1)] assms(2) by simp
  have keys: "n_keys n ! l = ks ! l" if "l < length ks" for l using view_nth(1) [OF assms(1)] m assms(2) that by simp
  have key: "nul_free key" by (simp add: assms(4,7))
  have ne: "0 < length ks" "length ks - 1 < length ks" using assms(6) by linarith+
  have lt: "K (ks ! l) < key \<longleftrightarrow> l < j" if "l < length ks" for l
  proof (cases "l < j")
    case True
    then show ?thesis using assms(3,6,7) by (simp add: sorted_wrt_iff_nth_less)
  next
    case False
    then have "l = j \<or> K (ks ! j) < K (ks ! l)"
      using assms(3) that by (metis linorder_neqE_nat sorted_wrt_iff_nth_less)
    then show ?thesis using False assms(7) by auto
  qed
  have gt: "key < K (ks ! l) \<longleftrightarrow> j < l" if "l < length ks" for l
  proof (cases "j < l")
    case True
    then show ?thesis using assms(3,7) that by (simp add: sorted_wrt_iff_nth_less)
  next
    case False
    then have "l = j \<or> K (ks ! l) < key" using lt [OF that] by auto
    then show ?thesis using False assms(7) by auto
  qed
  have "inner_idx img key n = 0"
  proof -
    have "\<not> (strcmp (key_at img (n_keys n ! ii)) (c_str key) < 0
        \<and> strcmp (c_str key) (key_at img (n_keys n ! (ii + 1))) < 0)" if "ii \<in> set [1..<n_num_keys n]" for ii
      using that m keys lt [of ii] gt [of "ii + 1"] key assms(4,6) by (auto simp: c_str_nul_free strcmp_lt)
    then have "\<forall>ii \<in> set [1..<n_num_keys n]. (strcmp (key_at img (n_keys n ! ii)) (c_str key) < 0
        \<and> strcmp (c_str key) (key_at img (n_keys n ! (ii + 1))) < 0) \<longleftrightarrow> ii = n_num_keys n"
      by auto
    from fold_last_hit [OF this] show ?thesis by (simp add: inner_idx_def)
  qed
  moreover have "\<not> key < K (ks ! 0)" "\<not> K (ks ! (length ks - 1)) < key"
    using ne gt [OF ne(1)] lt [OF ne(2)] assms(5,6) by simp_all
  ultimately show ?thesis
    using key keys [OF ne(1)] keys [OF ne(2)] m assms(4-6) view_nth(2) [OF assms(1), of 1]
    by (simp add: find_step_def strcmp_iffs c_str_nul_free after_def)
qed

lemma find_misses_leaf:
  assumes "bp_root_ptr bp" "get_offset (bp_mem bp) (bp_rootidx bp) = Inr p" "rep (nodes bp) q (Inner p ks ts)"
    "length ts = Suc (length ks)" "in_order (flat K (Inner p ks ts))" "K = key_at (bp_img bp)"
    "1 \<le> j" "j < length ks" "ts ! 1 = Leaf p1 ks1 vs1" "length vs1 = length ks1"
  shows "bplus_find bp (K (ks ! j)) = Some (Inr False)"
proof -
  let ?key = "K (ks ! j)"
  have n: "node_ok (nodes bp p)" "vkeys (nodes bp p) = ks" "vkids (nodes bp p) = map off ts" "\<not> n_is_leaf (nodes bp p)"
    using assms(3) by auto
  have "Leaf p1 ks1 vs1 \<in> set ts" using assms(4,7-9) by (metis le_less_trans less_Suc_eq nth_mem)
  then have l: "node_ok (nodes bp p1)" "vkeys (nodes bp p1) = ks1" "n_is_leaf (nodes bp p1)" using assms(3) by auto
  have sorted: "sorted_wrt (\<lambda>a b. K a < K b) ks"
    using interleave_seps_sorted [of "map (flat K) ts" ks K] assms(4,5) by (simp add: seps_def)
  have "find_step (bp_img bp) ?key (nodes bp p) = p1"
  proof -
    have "1 < length ts" using assms(4,7,8) by linarith
    then have "vkids (nodes bp p) ! 1 = p1" using n(3) assms(9) by simp
    then show ?thesis using find_step_separator [OF n(1,2) sorted assms(6-8) refl] by simp
  qed
  then have find: "find_node_to_store bp ?key = Some (Inr p1)"
    using assms(1,2) n(4) l(3)
    by (simp add: find_node_to_store_def find_loop.simps [of _ _ p] find_loop.simps [of _ _ p1])
  have "K k < ?key" if k: "k \<in> set ks1" for k
  proof -
    have cut: "ts = take 1 ts @ ts ! 1 # drop 2 ts" "ks = take 1 ks @ drop 1 ks"
    proof -
      have "1 < length ts" using assms(4,7,8) by linarith
      from id_take_nth_drop [OF this] show "ts = take 1 ts @ ts ! 1 # drop 2 ts" by (simp add: numeral_2_eq_2)
    qed simp
    have "flat K (Inner p (take 1 ks @ drop 1 ks) (take 1 ts @ ts ! 1 # drop 2 ts)) =
        interleave (seps K (take 1 ks)) (map (flat K) (take 1 ts)) @ flat K (ts ! 1)
        @ concat (map2 (#) (seps K (drop 1 ks)) (map (flat K) (drop 2 ts)))"
      using assms(4,7,8) by (intro flat_frame) auto
    then have ord: "in_order (interleave (seps K (take 1 ks)) (map (flat K) (take 1 ts)) @ flat K (ts ! 1)
        @ concat (map2 (#) (seps K (drop 1 ks)) (map (flat K) (drop 2 ts))))"
      using assms(5) cut by metis
    have "ks ! j = drop 1 ks ! (j - 1)" using assms(7,8) by simp
    then have "ks ! j \<in> set (drop 1 ks)" using assms(7,8) by (metis One_nat_def Suc_le_lessD Suc_pred diff_less_mono length_drop nth_mem)
    then have "Sep ?key \<in> set (seps K (drop 1 ks))" by (auto simp: seps_def)
    moreover have "set (seps K (drop 1 ks)) \<subseteq> set (concat (map2 (#) (seps K (drop 1 ks)) (map (flat K) (drop 2 ts))))"
      using assms(4) by (intro seps_in_concat) simp
    moreover obtain v where "Ent (K k) v \<in> set (flat K (ts ! 1))"
    proof -
      obtain i where i: "i < length ks1" "k = ks1 ! i" using k by (auto simp: in_set_conv_nth)
      then have "flat K (ts ! 1) ! i = Ent (K k) (vs1 ! i)" "i < length (flat K (ts ! 1))"
        using assms(9,10) by simp_all
      then show ?thesis using that nth_mem by metis
    qed
    ultimately have "item_less (Ent (K k) v) (Sep ?key)" using ord unfolding sorted_wrt_append by blast
    then show ?thesis by simp
  qed
  then have "K (n_keys (nodes bp p1) ! ii) \<noteq> ?key" if "ii < n_num_keys (nodes bp p1)" for ii
    using that view_nth(1) [OF l(1)] l(2) length_views(1) [OF l(1)] by (metis less_irrefl nth_mem)
  then have "\<not> list_ex (\<lambda>ii. strcmp (K (n_keys (nodes bp p1) ! ii)) (c_str ?key) = 0) [0..<n_num_keys (nodes bp p1)]"
    using assms(6) by (auto simp: list_ex_iff c_str_nul_free strcmp_eq)
  then show ?thesis using find assms(6) by (simp add: bplus_find_def Let_def)
qed

section \<open>Properties\<close>

text \<open>
  (C33) For a separator \<open>BPLUSIndex::find\<close> can be wrong: when the children of the root are
  leaves, every separator but the first is reported missing, although its entry is in the
  leaf to its right. The comparison in the inner loop of \<open>find_node_to_store\<close> is strict on
  both sides, so an equal key falls through to index 0.
\<close>

theorem find_misses_separators:
  assumes "bp_root_ptr bp" "get_offset (bp_mem bp) (bp_rootidx bp) = Inr p" "rep (nodes bp) q (Inner p ks ts)"
    "length ts = Suc (length ks)" "in_order (flat (key_at (bp_img bp)) (Inner p ks ts))"
    "1 \<le> j" "j < length ks" "ts ! 1 = Leaf p1 ks1 vs1" "length vs1 = length ks1"
  shows "bplus_find bp (key_at (bp_img bp) (ks ! j)) = Some (Inr False)"
  by (rule find_misses_leaf [OF assms(1-5) refl assms(6-9)])

text \<open>Three leaves with one key each below a root with two separators; the third key is not found.\<close>

definition small_leaf :: "int \<Rightarrow> node" where
  "small_leaf k = \<lparr>n_parent = 24, n_keys = k # replicate 22 0, n_num_keys = 1, n_is_leaf = True,
     n_children = replicate 24 0, n_values = k # replicate 22 0\<rparr>"

definition small_root :: node where
  "small_root = \<lparr>n_parent = -1, n_keys = 200 # 300 # replicate 21 0, n_num_keys = 2, n_is_leaf = False,
     n_children = 1000 # 2000 # 3000 # replicate 21 0, n_values = replicate 23 0\<rparr>"

definition small_index :: bplus where
  "small_index = (BPLUSIndex (\<lambda>_. 0) [] 3 0 0 0)\<lparr>bp_root_ptr := True,
     bp_mem := (TireFire (\<lambda>_. 0) [])\<lparr>tf_index_to_offset := [(0, 24)]\<rparr>,
     bp_img := zero_image\<lparr>im_chars := (\<lambda>_. CHR 0x00)(100 := CHR ''a'', 200 := CHR ''b'', 300 := CHR ''c''),
       im_nodes := (\<lambda>_. zero_node)(24 := small_root, 1000 := small_leaf 100, 2000 := small_leaf 200,
         3000 := small_leaf 300)\<rparr>\<rparr>"

theorem find_misses_separators_witness:
  "\<exists>bp k p ks vs. bplus_find bp (key_at (bp_img bp) k) = Some (Inr False)
     \<and> rep (nodes bp) 24 (Leaf p ks vs) \<and> k \<in> set ks \<and> key_at (bp_img bp) k = ''c''"
proof -
  let ?T = "Inner 24 [200, 300] [Leaf 1000 [100] [100], Leaf 2000 [200] [200], Leaf 3000 [300] [300]]"
  have cell: "cstr_from mem p 128 = [mem p]" if "mem p \<noteq> CHR 0x00" "mem (p + 1) = CHR 0x00" for mem p
    using that by (simp add: eval_nat_numeral)
  have keys: "key_at (bp_img small_index) 100 = ''a''" "key_at (bp_img small_index) 200 = ''b''"
      "key_at (bp_img small_index) 300 = ''c''"
    by (simp_all add: key_at_def small_index_def zero_image_def cell)
  have rep: "rep (nodes small_index) (-1) ?T" "rep (nodes small_index) 24 (Leaf 3000 [300] [300])"
    by (simp_all add: small_index_def small_root_def small_leaf_def node_ok_def vkeys_def vkids_def vvals_def)
  have "bplus_find small_index (key_at (bp_img small_index) ([200, 300] ! 1)) = Some (Inr False)"
  proof (rule find_misses_separators [OF _ _ rep(1), of 1 2000 "[200]" "[200]"])
    show "in_order (flat (key_at (bp_img small_index)) ?T)" by (simp add: keys)
  qed (simp_all add: small_index_def get_offset_def BPLUSIndex_def)
  then show ?thesis using rep(2) keys(3) by (intro exI [of _ small_index] exI [of _ 300] exI [of _ 3000]) fastforce
qed

end
