(* ===== verification/Bplus_Store.thy ===== *)
theory Bplus_Store
  imports Bplus_Search
begin

text \<open>
  What \<open>add_inode\<close> writes besides the tree: for each inode a path, a key cell, a disk
  inode, block descriptors and block contents, each into its own region of the file at a
  cursor. \<open>written L img xs\<close> says that the image holds the inodes \<open>xs\<close> (the newest
  first); \<open>index_ok\<close> is the invariant of an index under construction. Adding an inode
  keeps it as long as what was announced to the constructor is not exceeded.
\<close>

type_synonym job = "inode \<times> (u64 \<times> block) list \<times> (u64 \<times> u64) list"

record layout =
  l_path :: int
  l_hash :: int
  l_inode :: int
  l_block :: int
  l_bd :: int

abbreviation job_id :: "job \<Rightarrow> string" where
  "job_id x \<equiv> get_id (fst x)"

definition path_total :: "job list \<Rightarrow> int" where
  "path_total xs = sum_list (map (\<lambda>(i, dbs, mts). int (length (get_path i))) xs)"

definition block_count :: "job list \<Rightarrow> int" where
  "block_count xs = sum_list (map (\<lambda>(i, dbs, mts). int (length dbs)) xs)"

definition bytes_of :: "(u64 \<times> block) list \<Rightarrow> int" where
  "bytes_of dbs = sum_list (map (\<lambda>(bid, b). int (unat (get_actual_size b))) dbs)"

definition byte_total :: "job list \<Rightarrow> int" where
  "byte_total xs = sum_list (map (\<lambda>(i, dbs, mts). bytes_of dbs) xs)"

definition load_at :: "(int \<Rightarrow> 'a) \<Rightarrow> int \<Rightarrow> nat \<Rightarrow> 'a list" where
  "load_at mem p n = map (\<lambda>k. mem (p + int k)) [0..<n]"

definition mtime_of :: "(u64 \<times> u64) list \<Rightarrow> u64 \<Rightarrow> u64" where
  "mtime_of mts bid = (case map_of mts bid of Some t \<Rightarrow> t | None \<Rightarrow> 0)"

fun stored_blocks :: "image \<Rightarrow> int \<Rightarrow> int \<Rightarrow> (u64 \<times> block) list \<Rightarrow> (u64 \<times> u64) list \<Rightarrow> bool" where
  "stored_blocks img bdo byo [] mts \<longleftrightarrow> True"
| "stored_blocks img bdo byo ((bid, b) # dbs) mts \<longleftrightarrow>
     im_bds img bdo = \<lparr>bd_block_id = bid, bd_mtime = mtime_of mts bid, bd_size = get_actual_size b, bd_data_offset = byo\<rparr>
     \<and> load_at (im_bytes img) byo (unat (get_actual_size b)) = take (unat (get_actual_size b)) (get_data_ar b)
     \<and> stored_blocks img (bdo + sizeof_block_data) (byo + int (unat (get_actual_size b))) dbs mts"

definition stored_at :: "layout \<Rightarrow> image \<Rightarrow> int \<Rightarrow> int \<Rightarrow> int \<Rightarrow> int \<Rightarrow> job \<Rightarrow> bool" where
  "stored_at L img j pp nb by x \<longleftrightarrow> (case x of (i, dbs, mts) \<Rightarrow>
     let d = im_inodes img (l_inode L + j * sizeof_inode)
     in key_at img (l_hash L + j * int HASH_SIZE) = get_id i
        \<and> d_mode d = get_mode i \<and> d_nlink d = get_link i \<and> d_mtime d = get_ull_mtime i
        \<and> d_ctime d = get_ull_ctime i \<and> d_size d = get_size i \<and> d_deleted d = is_deleted i
        \<and> d_hash d = l_hash L + j * int HASH_SIZE
        \<and> d_path d = l_path L + pp \<and> d_path_size d = int (length (get_path i))
        \<and> load_at (im_chars img) (l_path L + pp) (length (get_path i)) = get_path i
        \<and> (if dbs = [] then d_block_data d = -1
           else d_block_data d = l_bd L + nb * sizeof_block_data
             \<and> d_block_data_size d = sizeof_block_data * int (length dbs))
        \<and> stored_blocks img (l_bd L + nb * sizeof_block_data) (l_block L + by) dbs mts)"

fun written :: "layout \<Rightarrow> image \<Rightarrow> job list \<Rightarrow> bool" where
  "written L img [] \<longleftrightarrow> True"
| "written L img (x # xs) \<longleftrightarrow>
     stored_at L img (int (length xs)) (path_total xs) (block_count xs) (byte_total xs) x \<and> written L img xs"

fun index_of :: "layout \<Rightarrow> job list \<Rightarrow> (string \<times> int) list" where
  "index_of L [] = []"
| "index_of L (x # xs) = omap_put (job_id x) (l_inode L + int (length xs) * sizeof_inode) (index_of L xs)"

definition layout_of :: "bplus \<Rightarrow> layout \<Rightarrow> bool" where
  "layout_of bp L \<longleftrightarrow> get_offset (bp_mem bp) (bp_path_arr_idx bp) = Inr (l_path L)
     \<and> get_offset (bp_mem bp) (bp_hash_arr_idx bp) = Inr (l_hash L)
     \<and> get_offset (bp_mem bp) (bp_inode_arr_idx bp) = Inr (l_inode L)
     \<and> get_offset (bp_mem bp) (bp_block_arr_idx bp) = Inr (l_block L)
     \<and> get_offset (bp_mem bp) (bp_bd_arr_idx bp) = Inr (l_bd L)
     \<and> get_offset (bp_mem bp) (bp_headeridx bp) = Inr 0
     \<and> hd_num_inodes (im_headers (bp_img bp) 0) = bp_num_ents bp \<and> hd_inode_list (im_headers (bp_img bp) 0) = l_inode L
     \<and> 0 \<le> l_bd L \<and> l_hash L + bp_num_ents bp * int HASH_SIZE \<le> l_path L"

definition cursors :: "bplus \<Rightarrow> job list \<Rightarrow> bool" where
  "cursors bp xs \<longleftrightarrow> bp_cur_inode_arr_idx bp = int (length xs)
     \<and> bp_cur_hash_arr_idx bp = int (length xs) * int HASH_SIZE \<and> bp_cur_path_idx bp = path_total xs
     \<and> bp_cur_bd_arr_idx bp = block_count xs \<and> bp_cur_block_arr_idx bp = byte_total xs"

definition index_ok :: "layout \<Rightarrow> bplus \<Rightarrow> bt \<Rightarrow> job list \<Rightarrow> bool" where
  "index_ok L bp T xs \<longleftrightarrow> tree_ok bp T \<and> layout_of bp L \<and> cursors bp xs \<and> written L (bp_img bp) xs
     \<and> index_map (bp_img bp) T = index_of L xs
     \<and> keys_in T \<subseteq> (\<lambda>j. l_hash L + int j * int HASH_SIZE) ` {..<length xs}"

text \<open>What was announced to the constructor covers the inodes.\<close>

definition fits :: "bplus \<Rightarrow> job list \<Rightarrow> bool" where
  "fits bp xs \<longleftrightarrow> int (length xs) \<le> bp_num_ents bp \<and> path_total xs \<le> bp_path_size bp
     \<and> block_count xs \<le> bp_num_blocks bp \<and> byte_total xs \<le> bp_block_size bp"

definition job_ok :: "job \<Rightarrow> bool" where
  "job_ok x \<longleftrightarrow> (case x of (i, dbs, mts) \<Rightarrow> nul_free (get_id i) \<and> length (get_id i) < HASH_SIZE
     \<and> (\<forall>(bid, b) \<in> set dbs. block_inv b))"

section \<open>Memory\<close>

lemma store_at_read:
  "store_at p xs mem x = (if p \<le> x \<and> x < p + int (length xs) then xs ! nat (x - p) else mem x)"
proof (induction xs arbitrary: p mem)
  case (Cons y ys)
  have "nat (x - (p + 1)) = nat (x - p) - 1" by simp
  then show ?case by (auto simp: Cons nth_Cons')
qed auto

lemma load_store: "load_at (store_at p xs mem) p (length xs) = xs"
  by (rule nth_equalityI) (auto simp: load_at_def store_at_read)

lemma load_cong: "\<forall>x. p \<le> x \<and> x < p + int n \<longrightarrow> mem x = mem' x \<Longrightarrow> load_at mem p n = load_at mem' p n"
  by (auto simp: load_at_def)

lemma cstr_from_cong: "\<forall>x. p \<le> x \<and> x < p + int n \<longrightarrow> mem x = mem' x \<Longrightarrow> cstr_from mem p n = cstr_from mem' p n"
proof (induction n arbitrary: p)
  case (Suc n)
  then have "cstr_from mem (p + 1) n = cstr_from mem' (p + 1) n" by (intro Suc.IH) auto
  moreover have "mem p = mem' p" using Suc.prems by simp
  ultimately show ?case by simp
qed simp

lemma cstr_from_load: "cstr_from mem p n = c_str (load_at mem p n)"
proof (induction n arbitrary: p)
  case (Suc n)
  have "load_at mem p (Suc n) = mem p # load_at mem (p + 1) n"
    by (simp add: load_at_def upt_conv_Cons map_Suc_upt [symmetric] comp_def algebra_simps del: upt_Suc)
  then show ?case using Suc by (simp add: c_str_def)
qed (simp add: load_at_def c_str_def)

text \<open>A key cell after \<open>memset\<close> and \<open>memcpy\<close>.\<close>

lemma key_cell:
  assumes "nul_free s" "length s < HASH_SIZE"
  shows "cstr_from (store_at p s (store_at p (replicate HASH_SIZE (CHR 0x00)) mem)) p HASH_SIZE = s"
proof -
  have "load_at (store_at p s (store_at p (replicate HASH_SIZE (CHR 0x00)) mem)) p HASH_SIZE
      = s @ replicate (HASH_SIZE - length s) (CHR 0x00)"
    using assms(2) by (intro nth_equalityI) (auto simp: load_at_def store_at_read nth_append)
  moreover have "replicate (HASH_SIZE - length s) (CHR 0x00) = CHR 0x00 # replicate (HASH_SIZE - length s - 1) (CHR 0x00)"
    using assms(2) by (metis Suc_diff_1 replicate_Suc zero_less_diff)
  ultimately show ?thesis using assms(1) by (simp add: cstr_from_load c_str_terminated)
qed

section \<open>Storing blocks\<close>

lemma bytes_of_simps [simp]:
  "bytes_of [] = 0" "bytes_of ((bid, b) # dbs) = int (unat (get_actual_size b)) + bytes_of dbs"
  by (simp_all add: bytes_of_def)

lemma bytes_of_nonneg: "0 \<le> bytes_of dbs"
  by (induction dbs) auto

text \<open>What stays of an image below the cursors of the block regions.\<close>

definition same_below :: "int \<Rightarrow> int \<Rightarrow> image \<Rightarrow> image \<Rightarrow> bool" where
  "same_below bdo byo a b \<longleftrightarrow> im_headers a = im_headers b \<and> im_nodes a = im_nodes b \<and> im_inodes a = im_inodes b
     \<and> im_chars a = im_chars b \<and> (\<forall>x < bdo. im_bds a x = im_bds b x) \<and> (\<forall>x < byo. im_bytes a x = im_bytes b x)"

lemma same_below_trans:
  "same_below p' q' a b \<Longrightarrow> same_below p q b c \<Longrightarrow> p \<le> p' \<Longrightarrow> q \<le> q' \<Longrightarrow> same_below p q a c"
  by (simp add: same_below_def)

lemma stored_blocks_same:
  "\<forall>x < bdo + sizeof_block_data * int (length dbs). im_bds a x = im_bds b x \<Longrightarrow>
    \<forall>x < byo + bytes_of dbs. im_bytes a x = im_bytes b x \<Longrightarrow>
    stored_blocks b bdo byo dbs mts \<Longrightarrow> stored_blocks a bdo byo dbs mts"
proof (induction b bdo byo dbs mts rule: stored_blocks.induct)
  case (2 img bdo byo bid blk dbs mts)
  have "load_at (im_bytes a) byo (unat (get_actual_size blk)) = load_at (im_bytes img) byo (unat (get_actual_size blk))"
  proof (intro load_cong allI impI)
    fix x assume "byo \<le> x \<and> x < byo + int (unat (get_actual_size blk))"
    then have "x < byo + bytes_of ((bid, blk) # dbs)"
      using bytes_of_nonneg [of dbs] unfolding bytes_of_simps by linarith
    then show "im_bytes a x = im_bytes img x" using "2.prems"(2) by blast
  qed
  moreover have "im_bds a bdo = im_bds img bdo" using "2.prems"(1) by simp
  moreover have "stored_blocks a (bdo + sizeof_block_data) (byo + int (unat (get_actual_size blk))) dbs mts"
    using "2.prems" by (intro "2.IH") (auto simp: algebra_simps)
  ultimately show ?case using "2.prems"(3) by simp
qed simp

lemma store_blocks_ok:
  assumes "get_offset (bp_mem bp) (bp_bd_arr_idx bp) = Inr bdoff" "get_offset (bp_mem bp) (bp_block_arr_idx bp) = Inr boff"
    "bp_cur_bd_arr_idx bp + int (length dbs) \<le> bp_num_blocks bp"
    "bp_cur_block_arr_idx bp + bytes_of dbs \<le> bp_block_size bp"
    "\<forall>(bid, b) \<in> set dbs. block_inv b"
    "bdo = bdoff + bp_cur_bd_arr_idx bp * sizeof_block_data" "byo = boff + bp_cur_block_arr_idx bp"
  shows "\<exists>img'. store_blocks dbs mts bp = Inr (bp\<lparr>bp_img := img',
        bp_cur_block_arr_idx := bp_cur_block_arr_idx bp + bytes_of dbs,
        bp_cur_bd_arr_idx := bp_cur_bd_arr_idx bp + int (length dbs)\<rparr>)
    \<and> same_below bdo byo img' (bp_img bp) \<and> stored_blocks img' bdo byo dbs mts"
  using assms
proof (induction dbs mts bp arbitrary: bdo byo rule: store_blocks.induct)
  case (1 mts bp)
  then show ?case by (intro exI [of _ "bp_img bp"]) (simp add: same_below_def)
next
  case (2 bid b dbs mts bp)
  let ?sz = "get_actual_size b"
  let ?img = "(bp_img bp)\<lparr>im_bds := (im_bds (bp_img bp))(bdo :=
      \<lparr>bd_block_id = bid, bd_mtime = mtime_of mts bid, bd_size = ?sz, bd_data_offset = byo\<rparr>),
    im_bytes := store_at byo (take (unat ?sz) (get_data_ar b)) (im_bytes (bp_img bp))\<rparr>"
  let ?bp = "bp\<lparr>bp_img := ?img, bp_cur_block_arr_idx := bp_cur_block_arr_idx bp + int (unat ?sz),
    bp_cur_bd_arr_idx := bp_cur_bd_arr_idx bp + 1\<rparr>"
  have b: "unat ?sz \<le> SIZE" "length (get_data_ar b) = SIZE"
    using "2.prems"(5) by (auto simp: block_inv_def get_actual_size_def get_data_ar_def)
  have room: "\<not> bp_num_blocks bp \<le> bp_cur_bd_arr_idx bp" "\<not> bp_block_size bp < bp_cur_block_arr_idx bp + int (unat ?sz)"
  proof -
    show "\<not> bp_num_blocks bp \<le> bp_cur_bd_arr_idx bp" using "2.prems"(3) by simp
    show "\<not> bp_block_size bp < bp_cur_block_arr_idx bp + int (unat ?sz)"
      using "2.prems"(4) bytes_of_nonneg [of dbs] unfolding bytes_of_simps by linarith
  qed
  have step: "store_blocks ((bid, b) # dbs) mts bp = store_blocks dbs mts ?bp"
    using "2.prems"(1,2,6,7) room b by (simp add: Let_def mtime_of_def)
  have "\<exists>img'. store_blocks dbs mts ?bp = Inr (?bp\<lparr>bp_img := img',
        bp_cur_block_arr_idx := bp_cur_block_arr_idx ?bp + bytes_of dbs,
        bp_cur_bd_arr_idx := bp_cur_bd_arr_idx ?bp + int (length dbs)\<rparr>)
    \<and> same_below (bdo + sizeof_block_data) (byo + int (unat ?sz)) img' (bp_img ?bp)
    \<and> stored_blocks img' (bdo + sizeof_block_data) (byo + int (unat ?sz)) dbs mts"
  proof (rule "2.IH")
    show "bp_cur_block_arr_idx ?bp + bytes_of dbs \<le> bp_block_size ?bp"
      using "2.prems"(4) unfolding bytes_of_simps by simp
  qed (use "2.prems" room b in \<open>auto simp: mtime_of_def\<close>)
  then obtain img' where img': "store_blocks dbs mts ?bp = Inr (?bp\<lparr>bp_img := img',
        bp_cur_block_arr_idx := bp_cur_block_arr_idx ?bp + bytes_of dbs,
        bp_cur_bd_arr_idx := bp_cur_bd_arr_idx ?bp + int (length dbs)\<rparr>)"
      "same_below (bdo + sizeof_block_data) (byo + int (unat ?sz)) img' ?img"
      "stored_blocks img' (bdo + sizeof_block_data) (byo + int (unat ?sz)) dbs mts"
    by auto
  have "same_below bdo byo ?img (bp_img bp)" by (simp add: same_below_def store_at_read)
  moreover have "stored_blocks img' bdo byo ((bid, b) # dbs) mts"
  proof -
    have "load_at (im_bytes img') byo (unat ?sz) = load_at (im_bytes ?img) byo (unat ?sz)"
      using img'(2) by (intro load_cong) (auto simp: same_below_def)
    also have "\<dots> = take (unat ?sz) (get_data_ar b)"
      using load_store [of byo "take (unat ?sz) (get_data_ar b)" "im_bytes (bp_img bp)"] b by simp
    finally show ?thesis using img'(2,3) by (simp add: same_below_def)
  qed
  moreover have "store_blocks ((bid, b) # dbs) mts bp = Inr (bp\<lparr>bp_img := img',
        bp_cur_block_arr_idx := bp_cur_block_arr_idx bp + bytes_of ((bid, b) # dbs),
        bp_cur_bd_arr_idx := bp_cur_bd_arr_idx bp + int (length ((bid, b) # dbs))\<rparr>)"
    unfolding step img'(1) by simp
  ultimately show ?case using same_below_trans [OF img'(2)] by (intro exI [of _ img']) simp
qed

section \<open>Storing one inode\<close>

text \<open>The part of \<open>add_inode\<close> between the set-up of a new tree and the insertion of the key.\<close>

definition record_inode :: "job \<Rightarrow> bplus \<Rightarrow> (bplus \<times> int \<times> int) result" where
  "record_inode x bp = (case x of (i, dbs, mts) \<Rightarrow>
     (case store_inode i bp of
        Inl e \<Rightarrow> Inl e
      | Inr bp2 \<Rightarrow>
          (case store_blocks dbs mts bp2 of
             Inl e \<Rightarrow> Inl e
           | Inr bp3 \<Rightarrow> finish_inode i (bp_cur_bd_arr_idx bp2) (length dbs) bp3)))"

lemma add_inode_record:
  "add_inode i dbs mts bp =
     (case (if \<not> bp_root_ptr bp then init_tree bp else Inr bp) of
        Inl e \<Rightarrow> Some (Inl e)
      | Inr bp1 \<Rightarrow>
          (case record_inode (i, dbs, mts) bp1 of
             Inl e \<Rightarrow> Some (Inl e)
           | Inr r \<Rightarrow> insert_key (\<not> bp_root_ptr bp) (get_id i) r))"
  by (simp add: add_inode_def record_inode_def Let_def split: sum.splits)

definition same_written :: "layout \<Rightarrow> job list \<Rightarrow> image \<Rightarrow> image \<Rightarrow> bool" where
  "same_written L xs a b \<longleftrightarrow>
     (\<forall>x < l_inode L + int (length xs) * sizeof_inode. im_inodes a x = im_inodes b x)
     \<and> (\<forall>x. l_hash L \<le> x \<and> x < l_hash L + int (length xs) * int HASH_SIZE \<longrightarrow> im_chars a x = im_chars b x)
     \<and> (\<forall>x. l_path L \<le> x \<and> x < l_path L + path_total xs \<longrightarrow> im_chars a x = im_chars b x)
     \<and> (\<forall>x < l_bd L + block_count xs * sizeof_block_data. im_bds a x = im_bds b x)
     \<and> (\<forall>x < l_block L + byte_total xs. im_bytes a x = im_bytes b x)"

lemma totals [simp]:
  "path_total [] = 0" "block_count [] = 0" "byte_total [] = 0"
  "path_total ((i, dbs, mts) # xs) = int (length (get_path i)) + path_total xs"
  "block_count ((i, dbs, mts) # xs) = int (length dbs) + block_count xs"
  "byte_total ((i, dbs, mts) # xs) = bytes_of dbs + byte_total xs"
  by (simp_all add: path_total_def block_count_def byte_total_def)

lemma totals_nonneg: "0 \<le> path_total xs" "0 \<le> block_count xs" "0 \<le> byte_total xs"
  by (induction xs) (auto simp: bytes_of_nonneg)

lemma same_written_Cons:
  assumes "same_written L (x # xs) a b"
  shows "same_written L xs a b"
proof -
  obtain i dbs mts where x: "x = (i, dbs, mts)" by (cases x)
  show ?thesis
    using assms bytes_of_nonneg [of dbs] unfolding same_written_def x totals by (auto simp: algebra_simps)
qed

lemma key_at_same:
  "\<forall>x. p \<le> x \<and> x < p + int HASH_SIZE \<longrightarrow> im_chars a x = im_chars b x \<Longrightarrow> key_at a p = key_at b p"
  unfolding key_at_def by (rule cstr_from_cong)

lemma stored_at_same:
  assumes "same_written L (x # xs) a b"
    "stored_at L b (int (length xs)) (path_total xs) (block_count xs) (byte_total xs) x"
  shows "stored_at L a (int (length xs)) (path_total xs) (block_count xs) (byte_total xs) x"
proof -
  obtain i dbs mts where x: "x = (i, dbs, mts)" by (cases x)
  note same = assms(1) [unfolded x same_written_def totals]
  have "im_inodes a (l_inode L + int (length xs) * sizeof_inode) = im_inodes b (l_inode L + int (length xs) * sizeof_inode)"
    using same by simp
  moreover have "key_at a (l_hash L + int (length xs) * int HASH_SIZE) = key_at b (l_hash L + int (length xs) * int HASH_SIZE)"
    using same by (intro key_at_same) auto
  moreover have "load_at (im_chars a) (l_path L + path_total xs) (length (get_path i))
      = load_at (im_chars b) (l_path L + path_total xs) (length (get_path i))"
    using same totals_nonneg(1) [of xs] by (intro load_cong) auto
  moreover have "stored_blocks a (l_bd L + block_count xs * sizeof_block_data) (l_block L + byte_total xs) dbs mts"
    if "stored_blocks b (l_bd L + block_count xs * sizeof_block_data) (l_block L + byte_total xs) dbs mts"
    using same by (intro stored_blocks_same [OF _ _ that]) (auto simp: algebra_simps)
  ultimately show ?thesis using assms(2) by (simp add: stored_at_def x Let_def)
qed

lemma written_same: "same_written L xs a b \<Longrightarrow> written L b xs \<Longrightarrow> written L a xs"
proof (induction xs)
  case (Cons x xs)
  then show ?case using stored_at_same [OF Cons.prems(1)] same_written_Cons [OF Cons.prems(1)] by simp
qed simp

lemma store_inode_ok:
  assumes "layout_of bp L" "cursors bp xs" "fits bp ((i, dbs, mts) # xs)" "job_ok (i, dbs, mts)"
  defines "key \<equiv> l_hash L + int (length xs) * int HASH_SIZE"
    and "iof \<equiv> l_inode L + int (length xs) * sizeof_inode" and "pp \<equiv> l_path L + path_total xs"
  shows "\<exists>img'. store_inode i bp = Inr (bp\<lparr>bp_img := img'\<rparr>)
    \<and> im_headers img' = im_headers (bp_img bp) \<and> im_nodes img' = im_nodes (bp_img bp)
    \<and> im_bds img' = im_bds (bp_img bp) \<and> im_bytes img' = im_bytes (bp_img bp)
    \<and> same_written L xs img' (bp_img bp)
    \<and> key_at img' key = get_id i \<and> load_at (im_chars img') pp (length (get_path i)) = get_path i
    \<and> im_inodes img' iof = (im_inodes (bp_img bp) iof)\<lparr>d_mode := get_mode i, d_nlink := get_link i,
        d_mtime := get_ull_mtime i, d_ctime := get_ull_ctime i, d_size := get_size i,
        d_deleted := is_deleted i, d_hash := key, d_path := pp, d_path_size := int (length (get_path i))\<rparr>"
proof -
  let ?img = "bp_img bp"
  let ?c1 = "store_at pp (get_path i) (im_chars ?img)"
  let ?c3 = "store_at key (get_id i) (store_at key (replicate HASH_SIZE (CHR 0x00)) ?c1)"
  let ?d = "(im_inodes ?img iof)\<lparr>d_mode := get_mode i, d_nlink := get_link i,
        d_mtime := get_ull_mtime i, d_ctime := get_ull_ctime i, d_size := get_size i,
        d_deleted := is_deleted i, d_hash := key, d_path := pp, d_path_size := int (length (get_path i))\<rparr>"
  let ?img' = "?img\<lparr>im_chars := ?c3, im_inodes := (im_inodes ?img)(iof := ?d)\<rparr>"
  have id: "nul_free (get_id i)" "length (get_id i) < HASH_SIZE" using assms(4) by (simp_all add: job_ok_def)
  have store: "store_inode i bp = Inr (bp\<lparr>bp_img := ?img'\<rparr>)"
    using assms(1-3) id
    by (simp add: store_inode_def layout_of_def cursors_def fits_def Let_def key_def iof_def pp_def)
  have reg: "key + int HASH_SIZE \<le> l_path L" "0 \<le> path_total xs"
    using assms(1,3) totals_nonneg by (simp_all add: layout_of_def fits_def key_def algebra_simps)
  have "same_written L xs ?img' ?img"
    using reg id(2) by (auto simp: same_written_def iof_def key_def pp_def store_at_read)
  moreover have "key_at ?img' key = get_id i" using key_cell [OF id] by (simp add: key_at_def)
  moreover have "load_at ?c3 pp (length (get_path i)) = load_at ?c1 pp (length (get_path i))"
    using reg id(2) by (intro load_cong) (auto simp: store_at_read pp_def)
  then have "load_at (im_chars ?img') pp (length (get_path i)) = get_path i" by (simp add: load_store)
  ultimately show ?thesis using store by (intro exI [of _ ?img']) simp
qed

lemma same_written_trans: "same_written L xs a b \<Longrightarrow> same_written L xs b c \<Longrightarrow> same_written L xs a c"
  by (simp add: same_written_def)

lemma record_inode_ok:
  assumes "layout_of bp L" "cursors bp xs" "fits bp (x # xs)" "job_ok x"
  shows "\<exists>bp'. record_inode x bp = Inr (bp', l_hash L + int (length xs) * int HASH_SIZE,
        l_inode L + int (length xs) * sizeof_inode)
    \<and> (\<exists>img a b c d e. bp' = bp\<lparr>bp_img := img, bp_cur_inode_arr_idx := a, bp_cur_hash_arr_idx := b,
        bp_cur_path_idx := c, bp_cur_bd_arr_idx := d, bp_cur_block_arr_idx := e\<rparr>)
    \<and> im_headers (bp_img bp') = im_headers (bp_img bp) \<and> im_nodes (bp_img bp') = im_nodes (bp_img bp)
    \<and> cursors bp' (x # xs) \<and> same_written L xs (bp_img bp') (bp_img bp)
    \<and> stored_at L (bp_img bp') (int (length xs)) (path_total xs) (block_count xs) (byte_total xs) x"
proof -
  obtain i dbs mts where x: "x = (i, dbs, mts)" by (cases x)
  let ?key = "l_hash L + int (length xs) * int HASH_SIZE" and ?iof = "l_inode L + int (length xs) * sizeof_inode"
  let ?bdo = "l_bd L + block_count xs * sizeof_block_data" and ?byo = "l_block L + byte_total xs"
  obtain img1 where 1: "store_inode i bp = Inr (bp\<lparr>bp_img := img1\<rparr>)"
      "im_headers img1 = im_headers (bp_img bp)" "im_nodes img1 = im_nodes (bp_img bp)"
      "same_written L xs img1 (bp_img bp)" "key_at img1 ?key = get_id i"
      "load_at (im_chars img1) (l_path L + path_total xs) (length (get_path i)) = get_path i"
      "im_inodes img1 ?iof = (im_inodes (bp_img bp) ?iof)\<lparr>d_mode := get_mode i, d_nlink := get_link i,
        d_mtime := get_ull_mtime i, d_ctime := get_ull_ctime i, d_size := get_size i,
        d_deleted := is_deleted i, d_hash := ?key, d_path := l_path L + path_total xs,
        d_path_size := int (length (get_path i))\<rparr>"
    using store_inode_ok [OF assms [unfolded x]] by blast
  let ?bp1 = "bp\<lparr>bp_img := img1\<rparr>"
  have pre: "get_offset (bp_mem ?bp1) (bp_bd_arr_idx ?bp1) = Inr (l_bd L)"
      "get_offset (bp_mem ?bp1) (bp_block_arr_idx ?bp1) = Inr (l_block L)"
      "bp_cur_bd_arr_idx ?bp1 + int (length dbs) \<le> bp_num_blocks ?bp1"
      "bp_cur_block_arr_idx ?bp1 + bytes_of dbs \<le> bp_block_size ?bp1"
      "\<forall>(bid, b) \<in> set dbs. block_inv b"
      "?bdo = l_bd L + bp_cur_bd_arr_idx ?bp1 * sizeof_block_data" "?byo = l_block L + bp_cur_block_arr_idx ?bp1"
    using assms x by (simp_all add: layout_of_def fits_def cursors_def job_ok_def)
  obtain img2 where 2: "store_blocks dbs mts ?bp1 = Inr (?bp1\<lparr>bp_img := img2,
        bp_cur_block_arr_idx := bp_cur_block_arr_idx ?bp1 + bytes_of dbs,
        bp_cur_bd_arr_idx := bp_cur_bd_arr_idx ?bp1 + int (length dbs)\<rparr>)"
      "same_below ?bdo ?byo img2 img1" "stored_blocks img2 ?bdo ?byo dbs mts"
    using store_blocks_ok [OF pre] by auto
  let ?d = "im_inodes img2 ?iof"
  let ?d' = "if dbs = [] then ?d\<lparr>d_block_data := -1\<rparr>
    else ?d\<lparr>d_block_data := ?bdo, d_block_data_size := sizeof_block_data * int (length dbs)\<rparr>"
  let ?img3 = "img2\<lparr>im_inodes := (im_inodes img2)(?iof := ?d')\<rparr>"
  let ?bp3 = "bp\<lparr>bp_img := ?img3, bp_cur_inode_arr_idx := int (length xs) + 1,
    bp_cur_hash_arr_idx := int (length xs) * int HASH_SIZE + int HASH_SIZE,
    bp_cur_path_idx := path_total xs + int (length (get_path i)),
    bp_cur_bd_arr_idx := block_count xs + int (length dbs), bp_cur_block_arr_idx := byte_total xs + bytes_of dbs\<rparr>"
  have "record_inode x bp = Inr (?bp3, ?key, ?iof)"
    using assms(1,2) 1(1) 2(1)
    by (auto simp: x record_inode_def finish_inode_def layout_of_def cursors_def Let_def algebra_simps)
  moreover have "cursors ?bp3 (x # xs)" by (simp add: cursors_def x algebra_simps)
  moreover have "same_written L xs ?img3 img1"
    using 2(2) by (auto simp: same_written_def same_below_def)
  then have "same_written L xs ?img3 (bp_img bp)" using 1(4) same_written_trans by blast
  moreover have "stored_at L ?img3 (int (length xs)) (path_total xs) (block_count xs) (byte_total xs) x"
  proof -
    have "key_at ?img3 ?key = key_at img1 ?key" using 2(2) by (intro key_at_same) (simp add: same_below_def)
    moreover have "stored_blocks ?img3 ?bdo ?byo dbs mts" by (rule stored_blocks_same [OF _ _ 2(3)]) simp_all
    ultimately show ?thesis
      using 1(5-7) 2(2) by (auto simp: stored_at_def x Let_def same_below_def)
  qed
  moreover have "im_headers ?img3 = im_headers (bp_img bp)" "im_nodes ?img3 = im_nodes (bp_img bp)"
    using 1(2,3) 2(2) by (simp_all add: same_below_def)
  ultimately show ?thesis by (intro exI [of _ ?bp3] conjI exI) simp_all
qed

section \<open>Adding inodes\<close>

definition same_limits :: "bplus \<Rightarrow> bplus \<Rightarrow> bool" where
  "same_limits a b \<longleftrightarrow> bp_num_ents a = bp_num_ents b \<and> bp_path_size a = bp_path_size b
     \<and> bp_num_blocks a = bp_num_blocks b \<and> bp_block_size a = bp_block_size b"

lemma index_of_keys: "fst ` set (index_of L xs) = job_id ` set xs"
  by (induction xs) (auto simp: omap.dom_put)

lemma same_data_written: "same_data a b \<Longrightarrow> same_written L xs a b"
  by (simp add: same_data_def same_written_def)

lemma only_tree_index:
  assumes "only_tree bp bp'" "layout_of bp L" "cursors bp xs" "written L (bp_img bp) xs"
  shows "layout_of bp' L \<and> cursors bp' xs \<and> written L (bp_img bp') xs \<and> same_limits bp bp'"
proof -
  have "written L (bp_img bp') xs"
    using assms(1,4) written_same [OF same_data_written] unfolding only_tree_def by blast
  moreover have "get_offset (bp_mem bp') ix = Inr z" if "get_offset (bp_mem bp) ix = Inr z" for ix z
    using assms(1) that by (simp add: only_tree_def get_offset_off)
  moreover have "hd_num_inodes (im_headers (bp_img bp') 0) = hd_num_inodes (im_headers (bp_img bp) 0)"
      "hd_inode_list (im_headers (bp_img bp') 0) = hd_inode_list (im_headers (bp_img bp) 0)"
    using assms(1) unfolding only_tree_def by (metis header.select_convs header.surjective header.update_convs(3))+
  ultimately show ?thesis
    using assms(1-3) by (auto simp: only_tree_def layout_of_def cursors_def same_limits_def)
qed

lemma key_cells_same:
  assumes "same_written L xs a b" "keys_in T \<subseteq> (\<lambda>j. l_hash L + int j * int HASH_SIZE) ` {..<length xs}"
  shows "flat (key_at a) T = flat (key_at b) T"
proof (rule flat_cong, rule ballI)
  fix k assume "k \<in> keys_in T"
  then obtain j where j: "k = l_hash L + int j * int HASH_SIZE" "j < length xs" using assms(2) by auto
  then have "int j * int HASH_SIZE + int HASH_SIZE \<le> int (length xs) * int HASH_SIZE" by simp
  then show "key_at a k = key_at b k"
    using assms(1) j(1) by (intro key_at_same) (auto simp: same_written_def)
qed

lemma add_inode_ok:
  assumes "index_ok L bp T xs" "fits bp (x # xs)" "job_ok x" "job_id x \<notin> job_id ` set xs" "x = (i, dbs, mts)"
  shows "\<exists>bp' T'. add_inode i dbs mts bp = Some (Inr bp') \<and> index_ok L bp' T' (x # xs) \<and> same_limits bp bp'"
proof -
  have inv: "tree_ok bp T" "layout_of bp L" "cursors bp xs" "written L (bp_img bp) xs"
      "index_map (bp_img bp) T = index_of L xs" "keys_in T \<subseteq> (\<lambda>j. l_hash L + int j * int HASH_SIZE) ` {..<length xs}"
    using assms(1) by (auto simp: index_ok_def)
  let ?key = "l_hash L + int (length xs) * int HASH_SIZE" and ?iof = "l_inode L + int (length xs) * sizeof_inode"
  obtain bp1 where rec: "record_inode x bp = Inr (bp1, ?key, ?iof)"
    and frame: "\<exists>img a b c d e. bp1 = bp\<lparr>bp_img := img, bp_cur_inode_arr_idx := a, bp_cur_hash_arr_idx := b,
        bp_cur_path_idx := c, bp_cur_bd_arr_idx := d, bp_cur_block_arr_idx := e\<rparr>"
    and img: "im_headers (bp_img bp1) = im_headers (bp_img bp)" "im_nodes (bp_img bp1) = im_nodes (bp_img bp)"
    and cur: "cursors bp1 (x # xs)" and same: "same_written L xs (bp_img bp1) (bp_img bp)"
    and stored: "stored_at L (bp_img bp1) (int (length xs)) (path_total xs) (block_count xs) (byte_total xs) x"
    using record_inode_ok [OF inv(2,3) assms(2,3)] by blast
  have flat: "flat (key_at (bp_img bp1)) T = flat (key_at (bp_img bp)) T" by (rule key_cells_same [OF same inv(6)])
  have tree1: "tree_ok bp1 T"
    using inv(1) frame img flat by (auto simp: tree_ok_def alloc_ok_def rooted_def)
  have map1: "index_map (bp_img bp1) T = index_of L xs" using inv(5) flat by (simp add: index_map_def)
  have lay1: "layout_of bp1 L" "same_limits bp bp1"
    using inv(2) frame img(1) by (auto simp: layout_of_def same_limits_def)
  have id: "key_at (bp_img bp1) ?key = job_id x" "nul_free (job_id x)"
    using stored assms(3,5) by (simp_all add: stored_at_def Let_def job_ok_def)
  obtain bp' T' where ins: "insert_key False (job_id x) (bp1, ?key, ?iof) = Some (Inr bp')" "tree_ok bp' T'"
      "only_tree bp1 bp'" "index_map (bp_img bp') T' = omap_put (job_id x) ?iof (index_of L xs)"
      "keys_in T' \<subseteq> insert ?key (keys_in T)"
    using insert_key_tree [OF tree1 id, of ?iof] assms(4) map1 index_of_keys [of L xs] by auto
  have "written L (bp_img bp1) (x # xs)" using stored written_same [OF same inv(4)] by simp
  from only_tree_index [OF ins(3) lay1(1) cur this] ins(2,4,5) inv(6)
  have "index_ok L bp' T' (x # xs)" by (fastforce simp: index_ok_def lessThan_Suc)
  moreover have "add_inode i dbs mts bp = Some (Inr bp')"
    using rec ins(1) inv(1) assms(5) by (simp add: add_inode_record tree_ok_def)
  moreover have "same_limits bp bp'"
    using only_tree_index [OF ins(3) lay1(1) cur \<open>written L (bp_img bp1) (x # xs)\<close>] lay1(2) by (auto simp: same_limits_def)
  ultimately show ?thesis by blast
qed

text \<open>The layout the first \<open>add_inode\<close> makes: header, root node, and the five arrays.\<close>

definition layout_for :: "int \<Rightarrow> int \<Rightarrow> int \<Rightarrow> layout" where
  "layout_for num_ents blocksize num_blocks =
     (let io = sizeof_header + sizeof_node; bo = io + sizeof_inode * num_ents; bdo = bo + blocksize;
          ho = bdo + num_blocks * sizeof_block_data
      in \<lparr>l_path = ho + num_ents * int HASH_SIZE, l_hash = ho, l_inode = io, l_block = bo, l_bd = bdo\<rparr>)"

lemma init_tree_ok:
  assumes "0 \<le> n" "0 \<le> bs" "0 \<le> nb" "0 \<le> ps"
    and bp_def: "bp = BPLUSIndex os num n bs nb ps" and L_def: "L = layout_for n bs nb"
  shows "\<exists>bp1. init_tree bp = Inr bp1 \<and> layout_of bp1 L \<and> cursors bp1 [] \<and> same_limits bp bp1 \<and> alloc_ok bp1
    \<and> rooted bp1 sizeof_header \<and> bp_root_ptr bp1 \<and> sizeof_header < brk bp1
    \<and> nodes bp1 = (\<lambda>_. zero_node)(sizeof_header := zero_node\<lparr>n_is_leaf := True, n_num_keys := 1, n_parent := -1\<rparr>)"
proof -
  let ?ns = "[sizeof_header, sizeof_node, sizeof_inode * n, bs, nb * sizeof_block_data, n * int HASH_SIZE, ps]"
  have inv: "tf_inv (bp_mem bp)" by (simp add: bp_def BPLUSIndex_def tf_inv_TireFire)
  have top: "tf_cur_size (bp_mem bp) = 0" by (simp add: bp_def BPLUSIndex_def TireFire_def)
  have nn: "\<forall>k \<in> set ?ns. 0 \<le> k" using assms(1-4) by simp
  obtain m1 i1 where 1: "get_tire (bp_mem bp) sizeof_header = (m1, i1)" by (cases "get_tire (bp_mem bp) sizeof_header")
  obtain m2 i2 where 2: "get_tire m1 sizeof_node = (m2, i2)" by (cases "get_tire m1 sizeof_node")
  obtain m3 i3 where 3: "get_tire m2 (sizeof_inode * n) = (m3, i3)" by (cases "get_tire m2 (sizeof_inode * n)")
  obtain m4 i4 where 4: "get_tire m3 bs = (m4, i4)" by (cases "get_tire m3 bs")
  obtain m5 i5 where 5: "get_tire m4 (nb * sizeof_block_data) = (m5, i5)" by (cases "get_tire m4 (nb * sizeof_block_data)")
  obtain m6 i6 where 6: "get_tire m5 (n * int HASH_SIZE) = (m6, i6)" by (cases "get_tire m5 (n * int HASH_SIZE)")
  obtain m7 i7 where 7: "get_tire m6 ps = (m7, i7)" by (cases "get_tire m6 ps")
  have all: "tf.allocs (bp_mem bp) ?ns = (m7, [i1, i2, i3, i4, i5, i6, i7])" using 1 2 3 4 5 6 7 by simp
  note off = tf.allocs_offset [OF inv nn, unfolded all, simplified top]
  have offs: "get_offset m7 i1 = Inr 0" "get_offset m7 i2 = Inr sizeof_header" "get_offset m7 i3 = Inr (l_inode L)"
      "get_offset m7 i4 = Inr (l_block L)" "get_offset m7 i5 = Inr (l_bd L)" "get_offset m7 i6 = Inr (l_hash L)"
      "get_offset m7 i7 = Inr (l_path L)"
    using off [of 0] off [of 1] off [of 2] off [of 3] off [of 4] off [of 5] off [of 6]
    by (simp_all add: get_offset_off L_def layout_for_def Let_def numeral_eq_Suc)
  have keep: "tf_inv m7" "tf_cur_size m7 = sum_list ?ns" using tf.allocs_keeps [OF inv nn] unfolding all top by simp_all
  let ?img = "upd_node sizeof_header (\<lambda>k. k\<lparr>n_is_leaf := True, n_num_keys := 1, n_parent := -1\<rparr>)
     (upd_header 0 (\<lambda>h. h\<lparr>hd_num_inodes := bp_num_ents bp, hd_root := sizeof_header, hd_inode_list := l_inode L\<rparr>) (bp_img bp))"
  have "init_tree bp = Inr (bp\<lparr>bp_mem := m7, bp_img := ?img, bp_headeridx := i1, bp_rootidx := i2,
      bp_root_ptr := True, bp_inode_arr_idx := i3, bp_cur_inode_arr_idx := 0, bp_block_arr_idx := i4,
      bp_cur_block_arr_idx := 0, bp_bd_arr_idx := i5, bp_hash_arr_idx := i6, bp_cur_hash_arr_idx := 0,
      bp_path_arr_idx := i7, bp_cur_path_idx := 0\<rparr>)" (is "_ = Inr ?bp1")
    using 1 2 3 4 5 6 7 offs(1-3) by (simp add: init_tree_def Let_def bp_def BPLUSIndex_def)
  moreover have "layout_of ?bp1 L"
    using offs assms(1-3)
    by (simp add: layout_of_def L_def layout_for_def Let_def bp_def BPLUSIndex_def upd_header_def zero_image_def)
  moreover have "nodes ?bp1
      = (\<lambda>_. zero_node)(sizeof_header := zero_node\<lparr>n_is_leaf := True, n_num_keys := 1, n_parent := -1\<rparr>)"
    by (simp add: bp_def BPLUSIndex_def zero_image_def upd_header_def)
  moreover have "sizeof_header < brk ?bp1" using keep(2) assms(1-4) by simp
  moreover have "rooted ?bp1 sizeof_header"
    using offs(1,2) by (simp add: rooted_def get_offset_off upd_header_def)
  moreover have "cursors ?bp1 []" by (simp add: cursors_def bp_def BPLUSIndex_def)
  ultimately show ?thesis using keep(1)
    by (intro exI [of _ ?bp1]) (auto simp: alloc_ok_def same_limits_def)
qed

lemma add_first_inode:
  assumes "0 \<le> n" "0 \<le> bs" "0 \<le> nb" "0 \<le> ps" "bp = BPLUSIndex os num n bs nb ps" "L = layout_for n bs nb"
    "fits bp [x]" "job_ok x" "x = (i, dbs, mts)"
  shows "\<exists>bp' T. add_inode i dbs mts bp = Some (Inr bp') \<and> index_ok L bp' T [x] \<and> same_limits bp bp'"
proof -
  obtain bp1 where init: "init_tree bp = Inr bp1" "layout_of bp1 L" "cursors bp1 []" "same_limits bp bp1" "alloc_ok bp1"
      "rooted bp1 sizeof_header" "bp_root_ptr bp1" "sizeof_header < brk bp1"
      "nodes bp1 = (\<lambda>_. zero_node)(sizeof_header := zero_node\<lparr>n_is_leaf := True, n_num_keys := 1, n_parent := -1\<rparr>)"
    using init_tree_ok [OF assms(1-6)] by blast
  have fits1: "fits bp1 (x # [])" using assms(7) init(4) by (simp add: fits_def same_limits_def)
  obtain bp2 where rec: "record_inode x bp1 = Inr (bp2, l_hash L, l_inode L)"
    and frame: "\<exists>img a b c d e. bp2 = bp1\<lparr>bp_img := img, bp_cur_inode_arr_idx := a, bp_cur_hash_arr_idx := b,
        bp_cur_path_idx := c, bp_cur_bd_arr_idx := d, bp_cur_block_arr_idx := e\<rparr>"
    and img: "im_headers (bp_img bp2) = im_headers (bp_img bp1)" "im_nodes (bp_img bp2) = im_nodes (bp_img bp1)"
    and cur: "cursors bp2 [x]"
    and stored: "stored_at L (bp_img bp2) 0 0 0 0 x"
    using record_inode_ok [OF init(2,3) fits1 assms(8), unfolded list.size(3) semiring_1_class.of_nat_0 mult_zero_left add_0_right
        totals(1-3)]
    by blast
  let ?T = "Leaf sizeof_header [l_hash L] [l_inode L]"
  let ?root = "zero_node\<lparr>n_is_leaf := True, n_num_keys := 1, n_parent := -1, n_keys := (n_keys zero_node)[0 := l_hash L],
    n_values := (n_values zero_node)[0 := l_inode L]\<rparr>"
  let ?img = "upd_node sizeof_header (\<lambda>n. n\<lparr>n_keys := (n_keys n)[0 := l_hash L], n_values := (n_values n)[0 := l_inode L]\<rparr>)
    (bp_img bp2)"
  let ?bp' = "bp2\<lparr>bp_img := ?img\<rparr>"
  have fields: "bp_root_ptr bp2" "rooted bp2 sizeof_header" "alloc_ok bp2" "layout_of bp2 L" "same_limits bp bp2"
      "brk bp2 = brk bp1"
    using init frame img by (auto simp: rooted_def alloc_ok_def layout_of_def same_limits_def)
  have "\<not> bp_root_ptr bp" by (simp add: assms(5) BPLUSIndex_def)
  then have add: "add_inode i dbs mts bp = Some (Inr ?bp')"
    using init(1) rec fields(2) assms(9)
    by (simp add: add_inode_record insert_key_def rooted_def get_offset_def tf_off_def split: option.splits)
  have root: "nodes ?bp' = (\<lambda>_. zero_node)(sizeof_header := ?root)" using img(2) init(9) by auto
  have "node_ok ?root" "vkeys ?root = [l_hash L]" "vvals ?root = [l_inode L]"
    by (simp_all add: node_ok_def vkeys_def vvals_def zero_node_def eval_nat_numeral)
  then have rep: "rep (nodes ?bp') (-1) ?T" using root by simp
  have "tree_ok ?bp' ?T"
  proof -
    have "alloc_ok ?bp'" using fields(3,6) init(8) by (auto simp: alloc_ok_def)
    moreover have "rooted ?bp' sizeof_header" using fields(2) by (simp add: rooted_def)
    moreover have "\<exists>H. shape 1 H ?T" by (rule exI [of _ 0]) simp
    ultimately show ?thesis unfolding tree_ok_def using rep fields(1,6) init(8) by simp
  qed
  moreover have "index_map (bp_img ?bp') ?T = index_of L [x]"
    using stored assms(9) by (simp add: index_map_def stored_at_def Let_def)
  moreover have "written L (bp_img ?bp') [x]"
  proof (rule written_same [OF same_data_written])
    show "same_data (bp_img ?bp') (bp_img bp2)" by simp
    show "written L (bp_img bp2) [x]" using stored by simp
  qed
  ultimately have "index_ok L ?bp' ?T [x]"
    using fields cur by (auto simp: index_ok_def layout_of_def cursors_def)
  then show ?thesis using add fields(5) by (intro exI [of _ ?bp'] exI [of _ ?T]) (simp add: same_limits_def)
qed

text \<open>Adding one inode after the other.\<close>

fun add_all :: "job list \<Rightarrow> bplus \<Rightarrow> bplus result option" where
  "add_all [] bp = Some (Inr bp)"
| "add_all ((i, dbs, mts) # xs) bp =
     (case add_inode i dbs mts bp of
        None \<Rightarrow> None | Some (Inl e) \<Rightarrow> Some (Inl e) | Some (Inr bp') \<Rightarrow> add_all xs bp')"

lemma fits_mono:
  assumes "fits bp (xs @ ys)"
  shows "fits bp ys"
proof -
  have "path_total (xs @ ys) = path_total xs + path_total ys" "block_count (xs @ ys) = block_count xs + block_count ys"
      "byte_total (xs @ ys) = byte_total xs + byte_total ys"
    by (simp_all add: path_total_def block_count_def byte_total_def)
  then show ?thesis using assms totals_nonneg [of xs] by (simp add: fits_def)
qed

lemma add_all_ok:
  assumes "index_ok L bp T ys" "fits bp (rev xs @ ys)" "\<forall>x \<in> set xs. job_ok x" "distinct (map job_id (xs @ ys))"
  shows "\<exists>bp' T'. add_all xs bp = Some (Inr bp') \<and> index_ok L bp' T' (rev xs @ ys) \<and> same_limits bp bp'"
  using assms
proof (induction xs arbitrary: bp T ys)
  case (Cons x xs)
  obtain i dbs mts where x: "x = (i, dbs, mts)" by (cases x)
  have "fits bp (x # ys)" using Cons.prems(2) fits_mono [of bp "rev xs" "x # ys"] by simp
  then obtain bp1 T1 where 1: "add_inode i dbs mts bp = Some (Inr bp1)" "index_ok L bp1 T1 (x # ys)" "same_limits bp bp1"
    using add_inode_ok [OF Cons.prems(1) _ _ _ x] Cons.prems(3,4) by auto
  have "fits bp1 (rev xs @ x # ys)" using Cons.prems(2) 1(3) by (simp add: fits_def same_limits_def)
  then show ?case using Cons.IH [OF 1(2)] Cons.prems(3,4) 1(1,3) x by (fastforce simp: same_limits_def)
qed (auto simp: same_limits_def)

lemma new_index_ok:
  assumes "xs \<noteq> []" "\<forall>x \<in> set xs. job_ok x" "distinct (map job_id xs)"
    "L = layout_for (int (length xs)) (byte_total xs) (block_count xs)"
    "bp = BPLUSIndex os num (int (length xs)) (byte_total xs) (block_count xs) (path_total xs)"
  shows "\<exists>bp' T. add_all xs bp = Some (Inr bp') \<and> index_ok L bp' T (rev xs) \<and> bp_num_ents bp' = int (length xs)"
proof -
  obtain x ys where xs: "xs = x # ys" using assms(1) by (cases xs) auto
  obtain i dbs mts where x: "x = (i, dbs, mts)" by (cases x)
  have tot: "path_total (rev xs) = path_total xs" "block_count (rev xs) = block_count xs" "byte_total (rev xs) = byte_total xs"
    by (simp_all add: path_total_def block_count_def byte_total_def rev_map [symmetric])
  then have fits: "fits bp (rev ys @ [x])"
    using xs assms(5) by (simp add: fits_def BPLUSIndex_def)
  then have "fits bp [x]" by (rule fits_mono)
  then obtain bp1 T1 where 1: "add_inode i dbs mts bp = Some (Inr bp1)" "index_ok L bp1 T1 [x]" "same_limits bp bp1"
    using add_first_inode [OF _ _ _ _ assms(5,4) _ _ x] totals_nonneg [of xs] assms(2) xs by auto
  have "fits bp1 (rev ys @ [x])" using fits 1(3) by (simp add: fits_def same_limits_def)
  then show ?thesis using add_all_ok [OF 1(2)] assms(2,3,5) 1(1,3) xs x
    by (fastforce simp: same_limits_def BPLUSIndex_def)
qed

section \<open>Sample inodes\<close>

definition sample_inode :: "string \<Rightarrow> inode" where
  "sample_inode ident = \<lparr>ino_path = ''/f'', ino_mode = 0, ino_nlink = 1, ino_ul_mtime = 1, ino_ul_ctime = 1,
     ino_ts_mtime = \<lparr>tv_sec = 0, tv_nsec = 0\<rparr>, ino_ts_ctime = \<lparr>tv_sec = 0, tv_nsec = 0\<rparr>,
     ino_ts_atime = \<lparr>tv_sec = 0, tv_nsec = 0\<rparr>, ino_size = 0, ino_deleted = 0, ino_dirty = 0,
     ino_id = ident, ino_links = [], ino_blocks = []\<rparr>"

definition sample_jobs :: "nat \<Rightarrow> job list" where
  "sample_jobs n = map (\<lambda>k. (sample_inode (replicate k (CHR ''a'')), [], [])) [0..<n]"

lemma sample_jobs_ok:
  assumes "n \<le> 128"
  shows "\<forall>x \<in> set (sample_jobs n). job_ok x" "distinct (map job_id (sample_jobs n))" "length (sample_jobs n) = n"
proof -
  have "inj_on (\<lambda>k. replicate k (CHR ''a'')) {0..<n}" by (rule inj_onI) (metis length_replicate)
  then show "distinct (map job_id (sample_jobs n))"
    by (simp add: sample_jobs_def distinct_map comp_def get_id_def sample_inode_def)
qed (use assms in \<open>auto simp: sample_jobs_def job_ok_def nul_free_def get_id_def sample_inode_def\<close>)

lemma length_index_of: "distinct (map job_id xs) \<Longrightarrow> length (index_of L xs) = length xs"
proof -
  have "sorted_wrt (<) (map fst (index_of L xs))" by (induction xs) (auto simp: omap.ok_put)
  then have "length (index_of L xs) = card (fst ` set (index_of L xs))"
    by (metis distinct_card length_map list.set_map omap.ok_distinct)
  then show "distinct (map job_id xs) \<Longrightarrow> length (index_of L xs) = length xs"
    using index_of_keys [of L xs] by (metis distinct_card length_map list.set_map)
qed

text \<open>An index with more entries than a leaf holds, built by \<open>add_inode\<close>.\<close>

lemma big_index:
  "\<exists>bp T H. tree_ok bp T \<and> shape 1 H T \<and> 0 < H \<and> length (index_map (bp_img bp) T) = 40
     \<and> fst ` set (index_map (bp_img bp) T) = (\<lambda>k. replicate k (CHR ''a'')) ` {0..<40}"
proof -
  let ?xs = "sample_jobs 40"
  have ne: "?xs \<noteq> []" using sample_jobs_ok(3) [of 40] by auto
  obtain bp T where ok: "index_ok (layout_for (int (length ?xs)) (byte_total ?xs) (block_count ?xs)) bp T (rev ?xs)"
    using new_index_ok [OF ne sample_jobs_ok(1,2) refl refl, of "\<lambda>_. 0" "[]"] by auto
  then have len: "length (index_map (bp_img bp) T) = 40"
    using sample_jobs_ok [of 40] length_index_of [of "rev ?xs"] by (simp add: index_ok_def rev_map [symmetric])
  have "fst ` set (index_map (bp_img bp) T) = job_id ` set ?xs"
  proof -
    have "index_map (bp_img bp) T = index_of (layout_for (int (length ?xs)) (byte_total ?xs) (block_count ?xs)) (rev ?xs)"
      using ok unfolding index_ok_def by blast
    then show ?thesis by (simp only: index_of_keys set_rev)
  qed
  also have "\<dots> = (\<lambda>k. replicate k (CHR ''a'')) ` {0..<40}"
    by (auto simp: sample_jobs_def get_id_def sample_inode_def image_image)
  finally have keys: "fst ` set (index_map (bp_img bp) T) = (\<lambda>k. replicate k (CHR ''a'')) ` {0..<40}" .
  have T: "tree_ok bp T" using ok by (simp add: index_ok_def)
  then obtain H where H: "shape 1 H T" by (auto simp: tree_ok_def)
  have "H \<noteq> 0"
  proof
    assume "H = 0"
    with H obtain p ks vs where leaf: "T = Leaf p ks vs" "length vs = length ks" "length ks \<le> 23" by (cases T) auto
    have "length (index_map (bp_img bp) T) = length (ents (map2 (\<lambda>k v. Ent (key_at (bp_img bp) k) v) ks vs))"
      using leaf(1) by (simp add: index_map_def)
    also have "\<dots> = length ks" using leaf(2) by (induction vs ks rule: list_induct2) auto
    finally show False using leaf(3) len by simp
  qed
  with T H len keys show ?thesis by blast
qed

section \<open>Properties\<close>

text \<open>
  (C5) Building an index refines insertion into an ordered map. For inodes with distinct
  ids, added in any order to an index whose constructor was told their totals, every
  \<open>add_inode\<close> ends without a fault, all loops and recursive splits included; the result
  is a balanced tree in key order whose entries are the ordered map from ids to the file
  offsets of the inodes, and the file holds every inode's attributes, path, key, block
  descriptors and block contents.
\<close>

theorem build_index:
  assumes "xs \<noteq> []" "\<forall>x \<in> set xs. job_ok x" "distinct (map job_id xs)"
    "L = layout_for (int (length xs)) (byte_total xs) (block_count xs)"
  shows "\<exists>bp T H. add_all xs (BPLUSIndex os num (int (length xs)) (byte_total xs) (block_count xs) (path_total xs))
      = Some (Inr bp)
    \<and> rooted bp (off T) \<and> rep (nodes bp) (-1) T \<and> shape 1 H T \<and> in_order (flat (key_at (bp_img bp)) T)
    \<and> index_map (bp_img bp) T = index_of L (rev xs) \<and> written L (bp_img bp) (rev xs)"
  using new_index_ok [OF assms refl, of os num] by (auto simp: index_ok_def tree_ok_def)

theorem build_index_witness:
  "\<exists>bp T H. add_all (sample_jobs 40) (BPLUSIndex (\<lambda>_. 0) [] 40 (byte_total (sample_jobs 40))
       (block_count (sample_jobs 40)) (path_total (sample_jobs 40))) = Some (Inr bp)
     \<and> rooted bp (off T) \<and> rep (nodes bp) (-1) T \<and> shape 1 H T"
proof -
  have "sample_jobs 40 \<noteq> []" using sample_jobs_ok(3) [of 40] by auto
  from build_index [OF this sample_jobs_ok(1,2) refl, of "\<lambda>_. 0" "[]"]
  show ?thesis using sample_jobs_ok(3) [of 40] by auto
qed






end
