(* ===== verification/Bplus_Loader.thy ===== *)
theory Bplus_Loader
  imports Bplus_Store
begin

text \<open>
  \<^verbatim>\<open>src/bplus_index_loader.h\<close> and \<^verbatim>\<open>src/bplus_index_loader.cpp\<close>: class
  \<open>BPLUSIndexLoader\<close>, which reads the tree files back.

  A loader holds the mapped files in the iteration order of its \<open>unordered_map\<close>, which
  the program does not determine; a mapping that was unmapped and not made again is
  \<open>None\<close>. The file descriptors and sizes the class keeps serve \<open>munmap\<close> and
  \<open>close\<close> only and are not modelled. The directory is an argument of \<open>load_trees\<close>: the
  entries in the order \<open>readdir\<close> gives them, each with the contents of the file. The members of
  the result that \<open>find_latest_inode\<close> does not initialise hold whatever \<open>ld_junk\<close> has.
\<close>

section \<open>Data\<close>

record index_entry =
  ie_path :: string
  ie_mtime :: u64
  ie_deleted :: int

record disk_inode_info =
  i_path :: string
  i_inode_id :: string
  i_mode :: u32
  i_nlink :: u32
  i_mtime :: u64
  i_ctime :: u64
  i_size :: u64
  i_deleted :: int
  i_block_time :: "(u64 \<times> u64) list"
  i_block_data :: "(u64 \<times> block) list"

record loader =
  ld_path :: string
  ld_mem :: "(string \<times> image option) list"
  ld_junk :: disk_inode_info

section \<open>Loading the files\<close>

type_synonym directory = "(string \<times> image) list"

definition load_trees :: "directory \<Rightarrow> loader \<Rightarrow> loader" where
  "load_trees dir ld =
     ld\<lparr>ld_mem := fold (\<lambda>(ent, img) mem.
            if take 5 ent \<noteq> ''TREE-'' then mem else AList.update (ld_path ld @ ent) (Some img) mem)
          dir (map (\<lambda>(fpath, m). (fpath, None)) (ld_mem ld))\<rparr>"

definition BPLUSIndexLoader :: "disk_inode_info \<Rightarrow> directory \<Rightarrow> string \<Rightarrow> loader" where
  "BPLUSIndexLoader junk dir path = load_trees dir \<lparr>ld_path = path, ld_mem = [], ld_junk = junk\<rparr>"

text \<open>The destructor unmaps every file.\<close>

definition unmap_trees :: "loader \<Rightarrow> loader" where
  "unmap_trees ld = ld\<lparr>ld_mem := map (\<lambda>(fpath, m). (fpath, None)) (ld_mem ld)\<rparr>"

declare unmap_trees_def [simp]

section \<open>Searching one tree\<close>

definition loader_child :: "image \<Rightarrow> string \<Rightarrow> node \<Rightarrow> int result" where
  "loader_child img phash cur =
     (if strcmp phash (key_at img (n_keys cur ! 0)) < 0 then Inr (n_children cur ! 0)
      else if strcmp phash (key_at img (n_keys cur ! (n_num_keys cur - 1))) \<ge> 0
      then Inr (n_children cur ! n_num_keys cur)
      else (case fold (\<lambda>ii found.
                if strcmp (key_at img (n_keys cur ! ii)) phash \<le> 0
                   \<and> strcmp phash (key_at img (n_keys cur ! (ii + 1))) < 0
                then Some (n_children cur ! (ii + 1)) else found)
              [0..<n_num_keys cur - 1] None of
              None \<Rightarrow> Inl (Domain_Error ''will not terminate'')
            | Some cur_offset \<Rightarrow> Inr cur_offset))"

partial_function (option) loader_loop :: "image \<Rightarrow> string \<Rightarrow> int \<Rightarrow> int result option" where
  "loader_loop img phash cur_offset =
     (if n_is_leaf (im_nodes img cur_offset) then Some (Inr cur_offset)
      else case loader_child img phash (im_nodes img cur_offset) of
             Inl e \<Rightarrow> Some (Inl e)
           | Inr child \<Rightarrow> loader_loop img phash child)"

definition leaf_value :: "image \<Rightarrow> string \<Rightarrow> node \<Rightarrow> int option" where
  "leaf_value img phash cur =
     map_option (\<lambda>ii. n_values cur ! ii)
       (List.find (\<lambda>ii. strcmp (key_at img (n_keys cur ! ii)) phash = 0) [0..<n_num_keys cur])"

definition tree_lookup :: "image \<Rightarrow> string \<Rightarrow> int option result option" where
  "tree_lookup img phash =
     (case loader_loop img phash (hd_root (im_headers img 0)) of
        None \<Rightarrow> None
      | Some (Inl e) \<Rightarrow> Some (Inl e)
      | Some (Inr cur_offset) \<Rightarrow> Some (Inr (leaf_value img phash (im_nodes img cur_offset))))"

section \<open>The latest version of an inode\<close>

definition newer_inode :: "string \<Rightarrow> disk_inode \<Rightarrow> disk_inode_info \<Rightarrow> disk_inode_info" where
  "newer_inode phash inode latest =
     latest\<lparr>i_mode := d_mode inode, i_size := d_size inode, i_nlink := d_nlink inode, i_mtime := d_mtime inode,
       i_ctime := d_ctime inode, i_inode_id := phash, i_deleted := d_deleted inode\<rparr>"

definition newer_block :: "image \<Rightarrow> int \<Rightarrow> disk_inode_info \<Rightarrow> disk_inode_info" where
  "newer_block img ii latest =
     (let b = im_bds img ii
      in if (case map_of (i_block_time latest) (bd_block_id b) of None \<Rightarrow> True | Some t \<Rightarrow> t \<le> bd_mtime b)
         then latest\<lparr>i_block_time := AList.update (bd_block_id b) (bd_mtime b) (i_block_time latest),
                i_block_data := AList.update (bd_block_id b)
                  (block_of (load_at (im_bytes img) (bd_data_offset b) (unat (bd_size b))) (bd_size b))
                  (i_block_data latest)\<rparr>
         else latest)"

definition newer_blocks :: "image \<Rightarrow> int \<Rightarrow> int \<Rightarrow> disk_inode_info \<Rightarrow> disk_inode_info" where
  "newer_blocks img bd_off bd_sz =
     fold (\<lambda>k. newer_block img (bd_off + int k * sizeof_block_data))
       [0..<nat ((bd_sz + sizeof_block_data - 1) div sizeof_block_data)]"

fun latest_loop :: "(string \<times> image option) list \<Rightarrow> string \<Rightarrow> bool \<Rightarrow> u64 \<Rightarrow> disk_inode_info
    \<Rightarrow> disk_inode_info result option" where
  "latest_loop [] phash want_data latest_time latest = Some (Inr latest)"
| "latest_loop ((fpath, None) # trees) phash want_data latest_time latest = Some (Inl Unmapped)"
| "latest_loop ((fpath, Some img) # trees) phash want_data latest_time latest =
     (case tree_lookup img phash of
        None \<Rightarrow> None
      | Some (Inl e) \<Rightarrow> Some (Inl e)
      | Some (Inr None) \<Rightarrow> Some (Inr latest)
      | Some (Inr (Some inodeoff)) \<Rightarrow>
          (let inode = im_inodes img inodeoff;
               newer = latest_time < d_mtime inode;
               latest1 = (if newer then newer_inode phash inode latest else latest);
               time1 = (if newer then d_mtime inode else latest_time)
           in if want_data
              then if d_block_data inode = -1 then Some (Inr latest1)
                   else latest_loop trees phash want_data time1
                          (newer_blocks img (d_block_data inode) (d_block_data_size inode) latest1)
              else latest_loop trees phash want_data time1 latest1))"

definition find_latest_inode :: "(char list \<Rightarrow> u8 list) \<Rightarrow> loader \<Rightarrow> string \<Rightarrow> bool \<Rightarrow> disk_inode_info result option" where
  "find_latest_inode generichash ld path want_data =
     (let latest = (ld_junk ld)\<lparr>i_path := [], i_inode_id := [], i_mtime := 0, i_block_time := [], i_block_data := []\<rparr>
      in if path = [] then Some (Inr latest)
         else latest_loop (ld_mem ld) (crypto_hash generichash path) want_data 0 latest)"

section \<open>The children of a directory\<close>

text \<open>The offsets of the loop over the inode list; its counter has 32 bits.\<close>

partial_function (option) inode_offsets :: "u32 \<Rightarrow> int \<Rightarrow> int list option" where
  "inode_offsets ii limit =
     (if uint ii < limit
      then Option.bind (inode_offsets (ii + 80) limit) (\<lambda>rest. Some (uint ii # rest))
      else Some [])"

definition child_entry :: "image \<Rightarrow> string \<Rightarrow> int \<Rightarrow> index_entry list" where
  "child_entry img path ii =
     (let cur_inode = im_inodes img ii;
          strpath = c_str (load_at (im_chars img) (d_path cur_inode) (nat (d_path_size cur_inode)));
          parent = parent_path strpath;
          child = \<lparr>ie_path = strpath, ie_mtime = d_mtime cur_inode, ie_deleted = d_deleted cur_inode\<rparr>
      in if parent = [] \<and> path = ''/'' then [child]
         else if parent = path then [child] else [])"

fun children_loop :: "(string \<times> image option) list \<Rightarrow> string \<Rightarrow> index_entry list \<Rightarrow> index_entry list result option" where
  "children_loop [] path names = Some (Inr names)"
| "children_loop ((fpath, None) # trees) path names = Some (Inl Unmapped)"
| "children_loop ((fpath, Some img) # trees) path names =
     (let head = im_headers img 0
      in case inode_offsets (of_int (hd_inode_list head)) (hd_inode_list head + hd_num_inodes head * sizeof_inode) of
           None \<Rightarrow> None
         | Some ofs \<Rightarrow> children_loop trees path (names @ concat (map (child_entry img path) ofs)))"

definition get_children :: "directory \<Rightarrow> loader \<Rightarrow> string \<Rightarrow> (loader \<times> index_entry list) result option" where
  "get_children dir ld path =
     (let ld1 = load_trees dir ld
      in map_option (map_sum id (Pair ld1)) (children_loop (ld_mem ld1) path []))"

section \<open>Searching a represented tree\<close>

lemma fold_only_hit:
  "\<forall>ii \<in> set xs. C ii \<longleftrightarrow> ii = j \<Longrightarrow> j \<in> set xs \<Longrightarrow>
    fold (\<lambda>ii acc. if C ii then Some (g ii) else acc) xs a = Some (g j)"
proof (induction xs arbitrary: a)
  case (Cons x xs)
  have stay: "fold (\<lambda>ii acc. if C ii then Some (g ii) else acc) ys (Some (g j)) = Some (g j)"
    if "\<forall>ii \<in> set ys. C ii \<longleftrightarrow> ii = j" for ys
    using that by (induction ys) auto
  show ?case using Cons stay [of xs] by (cases "x = j") auto
qed simp

lemma loader_child_idx:
  assumes "node_ok n" "vkeys n = ks" "sorted_wrt (\<lambda>a b. K a < K b) ks" "K = key_at img" "nul_free key"
    "i = child_idx K key ks" "ks \<noteq> []"
  shows "loader_child img key n = Inr (vkids n ! i)"
proof -
  note b = child_idx_bounds [OF assms(3,6)]
  have m: "n_num_keys n = length ks" using length_views(1) [OF assms(1)] assms(2) by simp
  have keys: "n_keys n ! j = ks ! j" if "j < length ks" for j using view_nth(1) [OF assms(1)] m assms(2) that by simp
  have k0: "n_keys n ! 0 = ks ! 0" "n_keys n ! (n_num_keys n - 1) = ks ! (length ks - 1)"
    using keys m assms(7) by simp_all
  have last: "0 < length ks" "length ks - 1 < length ks" using assms(7) by simp_all
  consider "i = 0" | "0 < i" "i = length ks" | "0 < i" "i < length ks" using b(1) by linarith
  then show ?thesis
  proof cases
    case 1
    then have "key < K (ks ! 0)" using b(3) [of 0] last by simp
    then show ?thesis using 1 k0 assms(4,5) view_nth(2) [OF assms(1), of 0]
      by (simp add: loader_child_def strcmp_lt)
  next
    case 2
    then have "K (ks ! 0) \<le> key" "K (ks ! (length ks - 1)) \<le> key"
      using b(2) [of 0] b(2) [of "length ks - 1"] last by simp_all
    then show ?thesis using 2 k0 m assms(4,5) view_nth(2) [OF assms(1), of "length ks"]
      by (auto simp: loader_child_def strcmp_iffs)
  next
    case 3
    have hit: "(strcmp (key_at img (n_keys n ! ii)) key \<le> 0 \<and> strcmp key (key_at img (n_keys n ! (ii + 1))) < 0) \<longleftrightarrow> ii = i - 1"
      if "ii \<in> set [0..<n_num_keys n - 1]" for ii
    proof -
      have ii: "ii + 1 < length ks" using that m by auto
      then have "K (ks ! ii) \<le> key \<longleftrightarrow> ii < i" "key < K (ks ! (ii + 1)) \<longleftrightarrow> i \<le> ii + 1"
        using b(2,3) [of ii] b(2,3) [of "ii + 1"] by (meson leI le_less_trans linorder_not_less not_less_iff_gr_or_eq add_lessD1)+
      then show ?thesis using keys ii assms(4,5) 3(1) by (auto simp: strcmp_iffs)
    qed
    have "fold (\<lambda>ii found. if strcmp (key_at img (n_keys n ! ii)) key \<le> 0 \<and> strcmp key (key_at img (n_keys n ! (ii + 1))) < 0
          then Some (n_children n ! (ii + 1)) else found) [0..<n_num_keys n - 1] None = Some (n_children n ! (i - 1 + 1))"
      using hit 3 m by (intro fold_only_hit) auto
    moreover have "K (ks ! 0) \<le> key" using b(2) [of 0] 3(1) by simp
    moreover have "key < K (ks ! (length ks - 1))" using b(3) [of "length ks - 1"] 3(2) last by simp
    ultimately show ?thesis
      using 3 k0 m assms(4,5) view_nth(2) [OF assms(1), of i] by (auto simp: loader_child_def strcmp_iffs)
  qed
qed

lemma loader_loop_path:
  assumes "rep (im_nodes img) q t" "shape lo h t" "1 \<le> lo" "in_order (flat K t)" "K = key_at img" "nul_free key"
  shows "loader_loop img key (off t) = Some (Inr (off (snd (descend (child_idx K key) c t))))"
  using assms
proof (induction t arbitrary: q lo h c)
  case (Leaf p ks vs)
  then show ?case by (subst loader_loop.simps) simp
next
  case (Inner p ks ts)
  let ?i = "child_idx K key ks"
  have len: "length ts = Suc (length ks)" "ks \<noteq> []" using Inner.prems(2,3) by auto
  have kids: "\<forall>t \<in> set ts. shape 11 (h - 1) t" using Inner.prems(2) by simp
  have ks: "sorted_wrt (\<lambda>a b. K a < K b) ks"
    using inner_keys [OF Inner.prems(2,4), of ks] by (simp_all del: flat.simps)
  have i: "?i < length ts"
    using child_idx_bounds(1) [OF ks refl, of key] len by (simp_all add: le_imp_less_Suc)
  have n: "node_ok (im_nodes img p)" "vkeys (im_nodes img p) = ks" "vkids (im_nodes img p) = map off ts"
      "\<not> n_is_leaf (im_nodes img p)" "rep (im_nodes img) p (ts ! ?i)"
    using Inner.prems(1) i by auto
  have step: "loader_child img key (im_nodes img p) = Inr (off (ts ! ?i))"
    using loader_child_idx [OF n(1,2) ks Inner.prems(5,6) refl len(2)] n(3) i by simp
  have flat: "flat K (Inner p ks ts) = interleave (seps K ks) (map (flat K) ts)" by (simp add: seps_def)
  have sub: "in_order (flat K (ts ! ?i))"
    using interleave_seps_sorted [of "map (flat K) ts" ks K] Inner.prems(4) len(1) i unfolding flat by simp
  have "loader_loop img key (off (ts ! ?i)) = Some (Inr (off (snd (descend (child_idx K key)
      ((p, take ?i ks, take ?i ts, drop ?i ks, drop (Suc ?i) ts) # c) (ts ! ?i)))))"
    using Inner.IH [OF nth_mem [OF i] n(5) _ _ sub Inner.prems(5,6), of 11 "h - 1"] kids i by simp
  then show ?case using n(4) step i by (subst loader_loop.simps) (simp add: Let_def)
qed

lemma find_mapped: "List.find P (map f xs) = map_option f (List.find (\<lambda>x. P (f x)) xs)"
  by (induction xs) auto

lemma leaf_value_map_of:
  assumes "node_ok n" "vkeys n = ks" "vvals n = vs" "K = key_at img" "nul_free key"
  shows "leaf_value img key n = map_of (ents (flat K (Leaf p ks vs))) key"
proof -
  have m: "n_num_keys n = length ks" "length vs = length ks" using length_views [OF assms(1)] assms(2,3) by simp_all
  have find: "map_option (\<lambda>ii. vs' ! ii) (List.find (\<lambda>ii. K (ks' ! ii) = key) [0..<length ks'])
      = map_of (zip (map K ks') vs') key" if "length vs' = length ks'" for ks' and vs' :: "int list"
    using that
  proof (induction vs' ks' rule: list_induct2)
    case (Cons v vs' k ks')
    have "List.find (\<lambda>ii. K ((k # ks') ! ii) = key) (map Suc [0..<length ks'])
        = map_option Suc (List.find (\<lambda>ii. K (ks' ! ii) = key) [0..<length ks'])"
      by (simp add: find_mapped)
    then show ?case using Cons.IH
      by (simp add: upt_conv_Cons map_Suc_upt [symmetric] option.map_comp comp_def del: upt_Suc)
  qed simp
  have "leaf_value img key n = map_option (\<lambda>ii. vs ! ii) (List.find (\<lambda>ii. K (ks ! ii) = key) [0..<length ks])"
  proof -
    have "List.find (\<lambda>ii. strcmp (key_at img (n_keys n ! ii)) key = 0) [0..<length ks]
        = List.find (\<lambda>ii. K (ks ! ii) = key) [0..<length ks]"
      using view_nth(1) [OF assms(1)] m assms(2,4,5) by (intro find_cong) (auto simp: strcmp_eq)
    moreover have "n_values n ! ii = vs ! ii" if "ii < length ks" for ii
      using view_nth(3) [OF assms(1)] m assms(3) that by simp
    ultimately show ?thesis
      by (auto simp: leaf_value_def m find_Some_iff split: option.splits intro!: option.map_cong)
  qed
  also have "\<dots> = map_of (zip (map K ks) vs) key" by (rule find [OF m(2)])
  also have "zip (map K ks) vs = ents (flat K (Leaf p ks vs))"
    using m(2) by (induction vs ks rule: list_induct2) auto
  finally show ?thesis .
qed

lemma tree_lookup_map_of:
  assumes "hd_root (im_headers img 0) = off T" "rep (im_nodes img) (-1) T" "shape 1 H T" "in_order (flat (key_at img) T)"
    "nul_free key"
  shows "tree_lookup img key = Some (Inr (map_of (index_map img T) key))"
proof -
  define K where "K = key_at img"
  obtain c p ks vs where c: "descend (child_idx K key) [] T = (c, Leaf p ks vs)" "plug (Leaf p ks vs) c = T"
      "shape_ctx 0 c" "beside K key c"
    using way_down [OF assms(3)] assms(4) K_def by metis
  have "loader_loop img key (off T) = Some (Inr p)"
    using loader_loop_path [OF assms(2,3) _ _ K_def assms(5), of "[]"] assms(4) c(1) by (simp add: K_def)
  moreover have "node_ok (im_nodes img p)" "vkeys (im_nodes img p) = ks" "vvals (im_nodes img p) = vs"
    using assms(2) c(2) by (auto simp: rep_plug)
  then have "leaf_value img key (im_nodes img p) = map_of (ents (flat K (Leaf p ks vs))) key"
    using leaf_value_map_of K_def assms(5) by blast
  moreover have "map_of (index_map img T) key = map_of (ents (flat K (Leaf p ks vs))) key"
    using map_of_beside [OF c(4), of "flat K (Leaf p ks vs)"] flat_plug [OF c(3), of K "Leaf p ks vs"] c(2)
    by (simp add: index_map_def K_def)
  ultimately show ?thesis by (simp add: tree_lookup_def assms(1))
qed

section \<open>Tree files as the index writes them\<close>

text \<open>
  \<open>built img xs\<close>: the file was written by adding the inodes \<open>xs\<close> to a new index that was
  told their totals. \<open>holds img xs\<close> is what a reader may rely on, the newest inode first.
\<close>

definition built :: "image \<Rightarrow> job list \<Rightarrow> bool" where
  "built img xs \<longleftrightarrow> (\<exists>os num bp. add_all xs (BPLUSIndex os num (int (length xs)) (byte_total xs) (block_count xs) (path_total xs))
       = Some (Inr bp) \<and> img = bp_img bp)"

definition jobs_ok :: "job list \<Rightarrow> bool" where
  "jobs_ok xs \<longleftrightarrow> xs \<noteq> [] \<and> (\<forall>x \<in> set xs. job_ok x \<and> distinct (map fst (fst (snd x)))) \<and> distinct (map job_id xs)"

definition holds :: "layout \<Rightarrow> image \<Rightarrow> job list \<Rightarrow> bool" where
  "holds L img xs \<longleftrightarrow> (\<exists>T H. hd_root (im_headers img 0) = off T \<and> rep (im_nodes img) (-1) T \<and> shape 1 H T
       \<and> in_order (flat (key_at img) T) \<and> index_map img T = index_of L xs) \<and> written L img xs
     \<and> hd_num_inodes (im_headers img 0) = int (length xs) \<and> hd_inode_list (im_headers img 0) = l_inode L \<and> 0 \<le> l_bd L"

lemma built_holds:
  assumes "built img xs" "jobs_ok xs"
  shows "holds (layout_for (int (length xs)) (byte_total xs) (block_count xs)) img (rev xs)"
proof -
  let ?L = "layout_for (int (length xs)) (byte_total xs) (block_count xs)"
  obtain os num bp where bp: "add_all xs (BPLUSIndex os num (int (length xs)) (byte_total xs) (block_count xs) (path_total xs))
      = Some (Inr bp)" "img = bp_img bp" using assms(1) by (auto simp: built_def)
  obtain T where T: "index_ok ?L bp T (rev xs)" "bp_num_ents bp = int (length xs)"
    using new_index_ok [OF _ _ _ refl refl, of xs os num] assms(2) bp(1) by (auto simp: jobs_ok_def)
  then have "hd_root (im_headers img 0) = off T"
    using bp(2) by (auto simp: index_ok_def tree_ok_def rooted_def layout_of_def get_offset_off)
  then show ?thesis using T bp(2) by (auto simp: index_ok_def tree_ok_def holds_def layout_of_def)
qed

lemma written_lookup:
  assumes "written L img xs" "x \<in> set xs" "distinct (map job_id xs)"
  shows "\<exists>j pp nb by. map_of (index_of L xs) (job_id x) = Some (l_inode L + j * sizeof_inode) \<and> stored_at L img j pp nb by x \<and> 0 \<le> nb"
  using assms
proof (induction xs)
  case (Cons y ys)
  show ?case
  proof (cases "x = y")
    case True
    moreover have "0 \<le> block_count ys" by (rule totals_nonneg)
    ultimately show ?thesis using Cons.prems(1) by (auto simp: omap.find_put)
  next
    case False
    then have "x \<in> set ys" "job_id y \<noteq> job_id x" using Cons.prems(2,3) by force+
    then show ?thesis using Cons by (auto simp: omap.find_put)
  qed
qed simp

lemma holds_lookup:
  assumes "holds L img xs" "nul_free key" "distinct (map job_id xs)"
  shows "key \<notin> job_id ` set xs \<Longrightarrow> tree_lookup img key = Some (Inr None)"
    "x \<in> set xs \<Longrightarrow> key = job_id x \<Longrightarrow>
      \<exists>j pp nb by. tree_lookup img key = Some (Inr (Some (l_inode L + j * sizeof_inode))) \<and> stored_at L img j pp nb by x \<and> 0 \<le> nb"
proof -
  have look: "tree_lookup img key = Some (Inr (map_of (index_of L xs) key))"
    using assms(1) tree_lookup_map_of [OF _ _ _ _ assms(2)] by (auto simp: holds_def)
  show "tree_lookup img key = Some (Inr None)" if "key \<notin> job_id ` set xs"
    using that look index_of_keys [of L xs] by (simp add: map_of_eq_None_iff)
  show "\<exists>j pp nb by. tree_lookup img key = Some (Inr (Some (l_inode L + j * sizeof_inode))) \<and> stored_at L img j pp nb by x \<and> 0 \<le> nb"
    if "x \<in> set xs" "key = job_id x"
    using written_lookup [OF _ that(1) assms(3), of L img] look assms(1) that(2) by (auto simp: holds_def)
qed

section \<open>Merging versions\<close>

text \<open>
  What a reader gets of the blocks of an inode: \<open>entries x\<close> are the block versions one
  file has, \<open>merge_block\<close> takes one of them over unless a newer one is there.
\<close>

definition reloaded :: "block \<Rightarrow> block" where
  "reloaded b = block_of (block_bytes b) (get_actual_size b)"

definition entries :: "job \<Rightarrow> (u64 \<times> u64 \<times> block) list" where
  "entries x = (case x of (i, dbs, mts) \<Rightarrow> map (\<lambda>(bid, b). (bid, mtime_of mts bid, reloaded b)) dbs)"

definition merge_block :: "u64 \<times> u64 \<times> block \<Rightarrow> disk_inode_info \<Rightarrow> disk_inode_info" where
  "merge_block = (\<lambda>(bid, t, b) latest.
     if (case map_of (i_block_time latest) bid of None \<Rightarrow> True | Some t' \<Rightarrow> t' \<le> t)
     then latest\<lparr>i_block_time := AList.update bid t (i_block_time latest),
            i_block_data := AList.update bid b (i_block_data latest)\<rparr>
     else latest)"

definition merge_attrs :: "job \<Rightarrow> u64 \<times> disk_inode_info \<Rightarrow> u64 \<times> disk_inode_info" where
  "merge_attrs x = (\<lambda>(latest_time, latest). case x of (i, dbs, mts) \<Rightarrow>
     if latest_time < get_ull_mtime i
     then (get_ull_mtime i, latest\<lparr>i_mode := get_mode i, i_size := get_size i, i_nlink := get_link i,
       i_mtime := get_ull_mtime i, i_ctime := get_ull_ctime i, i_inode_id := get_id i, i_deleted := is_deleted i\<rparr>)
     else (latest_time, latest))"

definition merge_version :: "bool \<Rightarrow> job \<Rightarrow> u64 \<times> disk_inode_info \<Rightarrow> u64 \<times> disk_inode_info" where
  "merge_version want_data x s = (if want_data then apsnd (fold merge_block (entries x)) (merge_attrs x s) else merge_attrs x s)"

lemma reloaded_bytes:
  assumes "block_inv b"
  shows "block_inv (reloaded b)" "block_bytes (reloaded b) = block_bytes b" "get_actual_size (reloaded b) = get_actual_size b"
proof -
  have "unat (get_actual_size b) \<le> SIZE" "unat (get_actual_size b) \<le> length (block_bytes b)"
    using assms by (simp_all add: length_block_bytes get_actual_size_def block_inv_def)
  note r = block_of_bytes [OF this, folded reloaded_def]
  show "block_inv (reloaded b)" using r by simp
  show "get_actual_size (reloaded b) = get_actual_size b" using r by (simp add: get_actual_size_def)
  show "block_bytes (reloaded b) = block_bytes b"
    using r get_data_inv [of "reloaded b"] length_block_bytes [OF assms] by (simp add: get_actual_size_def)
qed

lemma newer_blocks_stored:
  assumes "stored_blocks img bdo byo dbs mts"
  shows "newer_blocks img bdo (sizeof_block_data * int (length dbs)) = fold merge_block (entries (i, dbs, mts))"
proof -
  have num: "nat ((sizeof_block_data * int n + sizeof_block_data - 1) div sizeof_block_data) = n" for n by simp
  have "fold (\<lambda>k. newer_block img (bdo + int k * sizeof_block_data)) [0..<length dbs] = fold merge_block (entries (i, dbs, mts))"
    using assms
  proof (induction dbs arbitrary: bdo byo)
    case (Cons d dbs)
    obtain bid b where d: "d = (bid, b)" by (cases d)
    have b: "im_bds img bdo = \<lparr>bd_block_id = bid, bd_mtime = mtime_of mts bid, bd_size = get_actual_size b, bd_data_offset = byo\<rparr>"
        "load_at (im_bytes img) byo (unat (get_actual_size b)) = block_bytes b"
        "stored_blocks img (bdo + sizeof_block_data) (byo + int (unat (get_actual_size b))) dbs mts"
      using Cons.prems d by (auto simp: block_bytes_def get_actual_size_def get_data_ar_def)
    have "newer_block img bdo = merge_block (bid, mtime_of mts bid, reloaded b)"
      by (rule ext) (simp add: newer_block_def merge_block_def b(1,2) Let_def reloaded_def split: option.split)
    moreover have "fold (\<lambda>k. newer_block img (bdo + int k * sizeof_block_data)) (map Suc [0..<length dbs])
        = fold merge_block (entries (i, dbs, mts))"
      using Cons.IH [OF b(3)] by (simp add: fold_map comp_def algebra_simps)
    ultimately show ?case
      by (simp add: d entries_def upt_conv_Cons map_Suc_upt [symmetric] del: upt_Suc)
  qed (simp add: entries_def)
  then show ?thesis unfolding newer_blocks_def num .
qed

text \<open>A mapped file that has the version \<open>x\<close> of the inode with the id \<open>key\<close>, with data if data is wanted.\<close>

definition offers :: "bool \<Rightarrow> string \<Rightarrow> string \<times> image option \<Rightarrow> job \<Rightarrow> bool" where
  "offers want_data key m x \<longleftrightarrow> (\<exists>img L xs. snd m = Some img \<and> holds L img xs \<and> distinct (map job_id xs)
     \<and> x \<in> set xs \<and> job_id x = key \<and> (want_data \<longrightarrow> fst (snd x) \<noteq> []))"

lemma latest_loop_Cons:
  assumes "offers False key m x" "nul_free key"
  shows "latest_loop (m # ms) key want_data t latest =
    (let (t1, latest1) = merge_version want_data x (t, latest)
     in if want_data \<and> fst (snd x) = [] then Some (Inr latest1) else latest_loop ms key want_data t1 latest1)"
proof -
  obtain f o' where m: "m = (f, o')" by (cases m)
  obtain i dbs mts where x: "x = (i, dbs, mts)" by (cases x)
  obtain img L ys where h: "snd m = Some img" "holds L img ys" "distinct (map job_id ys)" "x \<in> set ys" "key = job_id x"
    using assms(1) x by (auto simp: offers_def)
  obtain j pp nb by' where look: "tree_lookup img key = Some (Inr (Some (l_inode L + j * sizeof_inode)))"
      and st: "stored_at L img j pp nb by' x" "0 \<le> nb"
    using holds_lookup(2) [OF h(2) assms(2) h(3,4,5)] by blast
  let ?d = "im_inodes img (l_inode L + j * sizeof_inode)"
  have d: "d_mode ?d = get_mode i" "d_nlink ?d = get_link i" "d_mtime ?d = get_ull_mtime i" "d_ctime ?d = get_ull_ctime i"
      "d_size ?d = get_size i" "d_deleted ?d = is_deleted i" "d_block_data ?d = -1 \<longleftrightarrow> dbs = []"
      "dbs \<noteq> [] \<Longrightarrow> newer_blocks img (d_block_data ?d) (d_block_data_size ?d) = fold merge_block (entries x)"
    using st h(2) x newer_blocks_stored [of img _ _ dbs mts i]
    by (auto simp: stored_at_def holds_def Let_def split: if_splits)
  have "dbs = [] \<Longrightarrow> entries x = []" by (simp add: entries_def x)
  then show ?thesis
    using m h(1) look d h(5) by (simp add: merge_version_def merge_attrs_def newer_inode_def Let_def x)
qed

lemma latest_loop_versions:
  assumes "list_all2 (offers want_data key) ms xs" "nul_free key"
  shows "latest_loop (ms @ rest) key want_data t latest =
    (let (t', latest') = fold (merge_version want_data) xs (t, latest) in latest_loop rest key want_data t' latest')"
  using assms(1)
proof (induction ms xs arbitrary: t latest)
  case (Cons m ms x xs)
  have m: "offers False key m x" "want_data \<longrightarrow> fst (snd x) \<noteq> []" using Cons.hyps(1) by (auto simp: offers_def)
  show ?case
    using latest_loop_Cons [OF m(1) assms(2)] m(2) Cons.IH
    by (cases "merge_version want_data x (t, latest)") (auto simp: Let_def)
qed simp

lemma latest_loop_missing:
  assumes "holds L img xs" "distinct (map job_id xs)" "key \<notin> job_id ` set xs" "nul_free key"
  shows "latest_loop ((f, Some img) # ms) key want_data t latest = Some (Inr latest)"
  using holds_lookup(1) [OF assms(1,4,2,3)] by simp

text \<open>
  The newest of several versions: \<open>newest_block es bid r\<close> relates the block versions
  \<open>es\<close> seen so far to the result, \<open>newest_attrs xs\<close> the inode versions.
\<close>

definition newest_block :: "(u64 \<times> u64 \<times> block) list \<Rightarrow> disk_inode_info \<Rightarrow> u64 \<Rightarrow> bool" where
  "newest_block es r bid \<longleftrightarrow>
     (case map_of (i_block_time r) bid of
        None \<Rightarrow> bid \<notin> fst ` set es \<and> map_of (i_block_data r) bid = None
      | Some t \<Rightarrow> (\<exists>b. map_of (i_block_data r) bid = Some b \<and> (bid, t, b) \<in> set es)
          \<and> (\<forall>(bid', t', b') \<in> set es. bid' = bid \<longrightarrow> t' \<le> t))"

definition has_attrs :: "inode \<Rightarrow> disk_inode_info \<Rightarrow> bool" where
  "has_attrs i r \<longleftrightarrow> i_mode r = get_mode i \<and> i_size r = get_size i \<and> i_nlink r = get_link i \<and> i_mtime r = get_ull_mtime i
     \<and> i_ctime r = get_ull_ctime i \<and> i_inode_id r = get_id i \<and> i_deleted r = is_deleted i"

definition newest_attrs :: "job list \<Rightarrow> u64 \<times> disk_inode_info \<Rightarrow> bool" where
  "newest_attrs xs = (\<lambda>(t, r). i_mtime r = t \<and> (\<forall>x \<in> set xs. get_ull_mtime (fst x) \<le> t)
     \<and> (t = 0 \<or> (\<exists>x \<in> set xs. has_attrs (fst x) r)))"

lemma newest_block_step: "newest_block es r bid \<Longrightarrow> newest_block (es @ [e]) (merge_block e r) bid"
proof -
  assume inv: "newest_block es r bid"
  obtain bid' t' b' where e: "e = (bid', t', b')" by (cases e)
  show ?thesis
  proof (cases "bid' = bid")
    case False
    then show ?thesis using inv
      by (auto simp: newest_block_def merge_block_def e umap.find_put split: option.splits)
  next
    case same: True
    show ?thesis
    proof (cases "map_of (i_block_time r) bid")
      case None
      then have "\<forall>(bid'', t'', b'') \<in> set es. bid'' \<noteq> bid" using inv by (force simp: newest_block_def)
      then show ?thesis using None same by (auto simp: newest_block_def merge_block_def e umap.find_put)
    next
      case (Some t)
      then have old: "\<forall>(bid'', t'', b'') \<in> set es. bid'' = bid \<longrightarrow> t'' \<le> t" using inv by (simp add: newest_block_def)
      show ?thesis
      proof (cases "t \<le> t'")
        case True
        then have "\<forall>(bid'', t'', b'') \<in> set es. bid'' = bid \<longrightarrow> t'' \<le> t'" using old by (auto intro: order_trans)
        then show ?thesis using Some same True by (auto simp: newest_block_def merge_block_def e umap.find_put)
      next
        case False
        then show ?thesis using inv Some same by (auto simp: newest_block_def merge_block_def e)
      qed
    qed
  qed
qed

lemma newest_block_fold: "newest_block es r bid \<Longrightarrow> newest_block (es @ es') (fold merge_block es' r) bid"
proof (induction es' arbitrary: es r)
  case (Cons e es')
  then show ?case using Cons.IH [OF newest_block_step] by simp
qed simp

lemma merge_block_attrs: "has_attrs i (fold merge_block es r) = has_attrs i r" "i_mtime (fold merge_block es r) = i_mtime r"
  by (induction es arbitrary: r) (simp_all add: merge_block_def has_attrs_def split: prod.split)

lemma newest_attrs_step: "newest_attrs xs s \<Longrightarrow> newest_attrs (xs @ [x]) (merge_version want_data x s)"
proof -
  assume inv: "newest_attrs xs s"
  obtain t r where s: "s = (t, r)" by (cases s)
  obtain i dbs mts where x: "x = (i, dbs, mts)" by (cases x)
  have "newest_attrs (xs @ [x]) (merge_attrs x s)"
  proof (cases "t < get_ull_mtime i")
    case True
    then show ?thesis using inv s x by (auto simp: newest_attrs_def merge_attrs_def has_attrs_def)
  next
    case False
    then show ?thesis using inv s x by (auto simp: newest_attrs_def merge_attrs_def not_less)
  qed
  then show ?thesis by (cases "merge_attrs x s") (auto simp: merge_version_def newest_attrs_def merge_block_attrs)
qed

lemma merge_attrs_blocks: "newest_block es (snd (merge_attrs x s)) bid = newest_block es (snd s) bid"
  by (cases s; cases x) (simp add: merge_attrs_def newest_block_def split: option.split)

lemma merged_attrs: "newest_attrs ys s \<Longrightarrow> newest_attrs (ys @ xs) (fold (merge_version want_data) xs s)"
proof (induction xs arbitrary: ys s)
  case (Cons x xs)
  then show ?case using Cons.IH [OF newest_attrs_step] by simp
qed simp

lemma merged_blocks:
  "newest_block es (snd s) bid \<Longrightarrow> newest_block (es @ concat (map entries xs)) (snd (fold (merge_version True) xs s)) bid"
proof (induction xs arbitrary: es s)
  case (Cons x xs)
  have "newest_block (es @ entries x) (snd (merge_version True x s)) bid"
    using newest_block_fold [of es "snd (merge_attrs x s)" bid "entries x"] Cons.prems
    by (simp add: merge_version_def merge_attrs_blocks)
  from Cons.IH [OF this] show ?case by simp
qed simp

lemma find_latest_versions:
  assumes "list_all2 (offers want_data (crypto_hash generichash path)) (ld_mem ld) xs" "path \<noteq> []"
  shows "\<exists>r. find_latest_inode generichash ld path want_data = Some (Inr r) \<and> newest_attrs xs (i_mtime r, r)
    \<and> (want_data \<longrightarrow> (\<forall>bid. newest_block (concat (map entries xs)) r bid))"
proof -
  let ?r0 = "(ld_junk ld)\<lparr>i_path := [], i_inode_id := [], i_mtime := 0, i_block_time := [], i_block_data := []\<rparr>"
  let ?s = "fold (merge_version want_data) xs (0, ?r0)"
  have find: "find_latest_inode generichash ld path want_data = Some (Inr (snd ?s))"
    using latest_loop_versions [OF assms(1) nul_free_crypto_hash, of "[]" 0 ?r0] assms(2)
    by (simp add: find_latest_inode_def Let_def case_prod_beta)
  have attrs: "newest_attrs ([] @ xs) ?s" by (rule merged_attrs) (simp add: newest_attrs_def)
  then have "fst ?s = i_mtime (snd ?s)" by (cases ?s) (simp add: newest_attrs_def)
  then have "newest_attrs xs (i_mtime (snd ?s), snd ?s)" using attrs by (metis append_Nil prod.collapse)
  moreover have "newest_block (concat (map entries xs)) (snd ?s) bid" if "want_data" for bid
    using that merged_blocks [of "[]" "(0, ?r0)" bid xs] by (simp add: newest_block_def)
  ultimately show ?thesis using find by blast
qed

section \<open>Children\<close>

lemma inode_offsets_eq:
  assumes "0 \<le> a" "a + sizeof_inode * int n < 2 ^ 32"
  shows "inode_offsets (of_int a) (a + sizeof_inode * int n) = Some (map (\<lambda>k. a + sizeof_inode * int k) [0..<n])"
  using assms
proof (induction n arbitrary: a)
  case 0
  then have "uint (of_int a :: u32) = a" by (simp add: uint_word_of_int_eq take_bit_int_eq_self)
  then show ?case by (subst inode_offsets.simps) simp
next
  case (Suc n)
  have a: "uint (of_int a :: u32) = a" using Suc.prems by (simp add: uint_word_of_int_eq take_bit_int_eq_self)
  have next': "of_int a + 80 = (of_int (a + 80) :: u32)" by simp
  have "inode_offsets (of_int (a + 80)) (a + sizeof_inode * int (Suc n))
      = Some (map (\<lambda>k. (a + 80) + sizeof_inode * int k) [0..<n])"
    using Suc.IH [of "a + 80"] Suc.prems by (simp add: algebra_simps)
  then show ?case
    by (subst inode_offsets.simps)
      (simp add: a next' upt_conv_Cons map_Suc_upt [symmetric] comp_def algebra_simps del: upt_Suc of_int_add)
qed

lemma inode_offsets_returns: "inode_offsets ii limit = Some ys \<Longrightarrow> limit < 2 ^ 32"
proof (erule inode_offsets.raw_induct [rotated])
  fix f and ii :: u32 and limit and ys :: "int list"
  assume IH: "\<And>ii limit ys. f ii limit = Some ys \<Longrightarrow> limit < 2 ^ 32"
    and body: "(if uint ii < limit then Option.bind (f (ii + 80) limit) (\<lambda>rest. Some (uint ii # rest)) else Some []) = Some ys"
  have "uint ii < 2 ^ 32" using uint_lt2p [of ii] by simp
  then show "limit < 2 ^ 32" using IH body by (auto split: if_splits simp: bind_eq_Some_conv)
qed

definition child_of :: "string \<Rightarrow> job \<Rightarrow> bool" where
  "child_of path x \<longleftrightarrow> (let parent = parent_path (get_path (fst x)) in parent = path \<or> parent = [] \<and> path = ''/'')"

definition index_entry_of :: "job \<Rightarrow> index_entry" where
  "index_entry_of x = \<lparr>ie_path = get_path (fst x), ie_mtime = get_ull_mtime (fst x), ie_deleted = is_deleted (fst x)\<rparr>"

lemma child_entry_stored:
  assumes "stored_at L img j pp nb by x" "nul_free (get_path (fst x))"
  shows "child_entry img path (l_inode L + sizeof_inode * j) = (if child_of path x then [index_entry_of x] else [])"
  using assms by (cases x) (auto simp: child_entry_def stored_at_def Let_def child_of_def index_entry_of_def c_str_nul_free mult.commute)

lemma child_entries_written:
  assumes "written L img xs" "\<forall>x \<in> set xs. nul_free (get_path (fst x))"
  shows "concat (map (\<lambda>k. child_entry img path (l_inode L + sizeof_inode * int k)) [0..<length xs])
    = map index_entry_of (filter (child_of path) (rev xs))"
  using assms by (induction xs) (auto simp: child_entry_stored)

lemma children_of_tree:
  assumes "holds L img xs" "\<forall>x \<in> set xs. nul_free (get_path (fst x))" "0 \<le> l_inode L"
    "l_inode L + sizeof_inode * int (length xs) < 2 ^ 32"
  shows "children_loop ((f, Some img) # ms) path names
    = children_loop ms path (names @ map index_entry_of (filter (child_of path) (rev xs)))"
proof -
  have h: "written L img xs" "hd_num_inodes (im_headers img 0) = int (length xs)" "hd_inode_list (im_headers img 0) = l_inode L"
    using assms(1) by (simp_all add: holds_def)
  show ?thesis
    using inode_offsets_eq [OF assms(3,4)] child_entries_written [OF h(1) assms(2), of path]
    by (simp add: h Let_def mult.commute comp_def)
qed

text \<open>The mapped files after \<open>load_trees\<close>, when no file that was mapped before is gone.\<close>

definition tree_files :: "directory \<Rightarrow> directory" where
  "tree_files dir = filter (\<lambda>(ent, img). take 5 ent = ''TREE-'') dir"

definition no_stale :: "directory \<Rightarrow> loader \<Rightarrow> bool" where
  "no_stale dir ld \<longleftrightarrow> distinct (map fst dir) \<and> distinct (map fst (ld_mem ld))
     \<and> fst ` set (ld_mem ld) \<subseteq> (\<lambda>(ent, img). ld_path ld @ ent) ` set (tree_files dir)"

lemma load_trees_fold:
  "ld_mem (load_trees dir ld) = fold (\<lambda>(k, v). AList.update k v) (map (\<lambda>(ent, img). (ld_path ld @ ent, Some img)) (tree_files dir))
     (map (\<lambda>(fpath, m). (fpath, None)) (ld_mem ld))"
proof -
  have "fold (\<lambda>(ent, img) mem. if take 5 ent \<noteq> ''TREE-'' then mem else AList.update (p @ ent) (Some img) mem) dir m
    = fold (\<lambda>(k, v). AList.update k v) (map (\<lambda>(ent, img). (p @ ent, Some img)) (tree_files dir)) m" for p m
    by (induction dir arbitrary: m) (auto simp: tree_files_def)
  then show ?thesis by (simp add: load_trees_def)
qed

lemma load_trees_mem:
  assumes "no_stale dir ld"
  shows "set (ld_mem (load_trees dir ld)) = (\<lambda>(ent, img). (ld_path ld @ ent, Some img)) ` set (tree_files dir)"
    "distinct (map fst (ld_mem (load_trees dir ld)))"
proof -
  let ?kvs = "map (\<lambda>(ent, img). (ld_path ld @ ent, Some img)) (tree_files dir)"
  let ?old = "map (\<lambda>(fpath, m). (fpath, None :: image option)) (ld_mem ld)"
  have "distinct (map fst (tree_files dir))"
    using assms by (simp add: no_stale_def tree_files_def distinct_map_filter)
  moreover have "map fst ?kvs = map ((@) (ld_path ld)) (map fst (tree_files dir))" by (simp add: comp_def case_prod_beta)
  ultimately have d: "distinct (map fst ?kvs)" by (simp only: distinct_map inj_on_def) simp
  have "distinct (map fst ?old)" using assms by (simp add: no_stale_def comp_def case_prod_beta)
  moreover have "distinct (map fst m) \<Longrightarrow> distinct (map fst (fold (\<lambda>(k, v). AList.update k v) kvs m))" for kvs and m :: "(string \<times> image option) list"
    by (induction kvs arbitrary: m) (auto simp: distinct_update)
  ultimately show dn: "distinct (map fst (ld_mem (load_trees dir ld)))" by (simp add: load_trees_fold)
  have map: "map_of (ld_mem (load_trees dir ld)) = map_of ?old ++ map_of (rev ?kvs)"
    by (simp only: load_trees_fold umap.find_put_all)
  have "map_of (rev ?kvs) = map_of ?kvs" using map_of_inject_set [of "rev ?kvs" ?kvs] d by (simp add: rev_map [symmetric])
  moreover have "map_of ?old k = None" if "map_of ?kvs k = None" for k
  proof -
    have keys: "fst ` set ?kvs = (\<lambda>(ent, img). ld_path ld @ ent) ` set (tree_files dir)" "fst ` set ?old = fst ` set (ld_mem ld)"
      by (simp_all add: image_image case_prod_beta)
    have "k \<notin> fst ` set ?kvs" using that by (rule iffD1 [OF map_of_eq_None_iff])
    moreover have "fst ` set (ld_mem ld) \<subseteq> fst ` set ?kvs" using assms by (simp only: keys no_stale_def)
    ultimately have "k \<notin> fst ` set ?old" unfolding keys(2) by (rule contra_subsetD [rotated])
    then show ?thesis by (rule iffD2 [OF map_of_eq_None_iff])
  qed
  ultimately have "map_of (ld_mem (load_trees dir ld)) = map_of ?kvs"
    using map by (auto simp: map_add_def fun_eq_iff split: option.splits)
  then have "set (ld_mem (load_trees dir ld)) = set ?kvs" using map_of_inject_set [OF dn d] by simp
  then show "set (ld_mem (load_trees dir ld)) = (\<lambda>(ent, img). (ld_path ld @ ent, Some img)) ` set (tree_files dir)" by simp
qed

definition tree_readable :: "image \<Rightarrow> job list \<Rightarrow> bool" where
  "tree_readable img xs \<longleftrightarrow> built img xs \<and> jobs_ok xs \<and> (\<forall>x \<in> set xs. nul_free (get_path (fst x)))
     \<and> 608 + 80 * length xs < 2 ^ 32"

lemma children_loop_all:
  assumes "\<forall>(f, m) \<in> set ms. \<exists>img. m = Some img \<and> tree_readable img (J f)"
  shows "children_loop ms path names
    = Some (Inr (names @ concat (map (\<lambda>(f, m). map index_entry_of (filter (child_of path) (J f))) ms)))"
  using assms
proof (induction ms arbitrary: names)
  case (Cons fm ms)
  obtain f img where fm: "fm = (f, Some img)" "tree_readable img (J f)" using Cons.prems by auto
  let ?L = "layout_for (int (length (J f))) (byte_total (J f)) (block_count (J f))"
  have h: "holds ?L img (rev (J f))" using fm(2) built_holds by (simp add: tree_readable_def)
  have "l_inode ?L = 608" by (simp add: layout_for_def Let_def)
  then show ?case
    using children_of_tree [OF h, of f ms path names] fm Cons by (simp add: tree_readable_def)
qed simp

lemma get_children_set:
  assumes "no_stale dir ld" "\<forall>(ent, img) \<in> set (tree_files dir). tree_readable img (J ent)"
  shows "\<exists>names. get_children dir ld path = Some (Inr (load_trees dir ld, names))
    \<and> set names = (\<Union>(ent, img) \<in> set (tree_files dir). index_entry_of ` set (filter (child_of path) (J ent)))"
proof -
  let ?J = "\<lambda>f. J (drop (length (ld_path ld)) f)"
  note mem = load_trees_mem(1) [OF assms(1)]
  have "\<forall>(f, m) \<in> set (ld_mem (load_trees dir ld)). \<exists>img. m = Some img \<and> tree_readable img (?J f)"
    using mem assms(2) by auto
  from children_loop_all [OF this, of path "[]"]
  have "get_children dir ld path = Some (Inr (load_trees dir ld, concat (map (\<lambda>(f, m). map index_entry_of
      (filter (child_of path) (?J f))) (ld_mem (load_trees dir ld)))))"
    by (simp add: get_children_def Let_def)
  moreover have "set (concat (map (\<lambda>(f, m). map index_entry_of (filter (child_of path) (?J f))) (ld_mem (load_trees dir ld))))
      = (\<Union>(f, m) \<in> set (ld_mem (load_trees dir ld)). index_entry_of ` set (filter (child_of path) (?J f)))"
    by (simp add: case_prod_beta)
  ultimately show ?thesis by (simp add: mem case_prod_beta)
qed

section \<open>Properties\<close>

lemma built_offers:
  assumes "built img xs" "jobs_ok xs" "x \<in> set xs" "want_data \<longrightarrow> fst (snd x) \<noteq> []"
  shows "offers want_data (job_id x) (f, Some img) x"
  using built_holds [OF assms(1,2)] assms(2-4) unfolding offers_def jobs_ok_def
  by (intro exI [of _ img] exI [of _ "layout_for (int (length xs)) (byte_total xs) (block_count xs)"] exI [of _ "rev xs"])
    (simp add: rev_map [symmetric])

lemma newest_single:
  assumes "newest_block (entries (i, dbs, mts)) r bid" "distinct (map fst dbs)"
  shows "map_of (i_block_data r) bid = map_option reloaded (map_of dbs bid)
    \<and> map_of (i_block_time r) bid = map_option (\<lambda>_. mtime_of mts bid) (map_of dbs bid)"
proof (cases "map_of (i_block_time r) bid")
  case None
  then have "bid \<notin> fst ` set dbs" using assms(1) by (force simp: newest_block_def entries_def)
  then have "map_of dbs bid = None" by (simp add: map_of_eq_None_iff)
  then show ?thesis using None assms(1) by (simp add: newest_block_def)
next
  case (Some t)
  then obtain b where "map_of (i_block_data r) bid = Some (reloaded b)" "(bid, b) \<in> set dbs" "t = mtime_of mts bid"
    using assms(1) by (auto simp: newest_block_def entries_def)
  then show ?thesis using Some assms(2) by simp
qed

text \<open>A search in one file merges one version into an empty result.\<close>

definition nothing_found :: "loader \<Rightarrow> disk_inode_info" where
  "nothing_found ld = (ld_junk ld)\<lparr>i_path := [], i_inode_id := [], i_mtime := 0, i_block_time := [], i_block_data := []\<rparr>"

lemma find_single_eq:
  assumes "jobs_ok xs" "built img xs" "(i, dbs, mts) \<in> set xs" "get_id i = crypto_hash generichash path" "path \<noteq> []"
    "ld_mem ld = [(f, Some img)]"
  shows "find_latest_inode generichash ld path want_data = Some (Inr (snd (merge_version want_data (i, dbs, mts) (0, nothing_found ld))))"
proof -
  have off: "offers False (crypto_hash generichash path) (f, Some img) (i, dbs, mts)"
    using built_offers [OF assms(2,1,3), of False f] assms(4) by simp
  show ?thesis
    using latest_loop_Cons [OF off nul_free_crypto_hash, of "[]" want_data 0 "nothing_found ld"] assms(5,6)
    by (simp add: find_latest_inode_def nothing_found_def Let_def case_prod_beta)
qed

text \<open>The blocks of a result have different numbers and are well formed.\<close>

definition blocks_ok :: "disk_inode_info \<Rightarrow> bool" where
  "blocks_ok r \<longleftrightarrow> distinct (map fst (i_block_data r)) \<and> (\<forall>x \<in> set (i_block_data r). block_inv (snd x))"

lemma merged_blocks_ok:
  assumes "blocks_ok r" "\<forall>(bid, t, b) \<in> set es. block_inv b"
  shows "blocks_ok (fold merge_block es r)"
  using assms
proof (induction es arbitrary: r)
  case (Cons e es)
  obtain bid t b where e: "e = (bid, t, b)" by (cases e)
  have "distinct (map fst (i_block_data r))" using Cons.prems(1) by (simp add: blocks_ok_def)
  note upd = umap.set_put [OF this, of bid b]
  have "blocks_ok (merge_block e r)"
    using Cons.prems upd e by (auto simp: blocks_ok_def merge_block_def distinct_update)
  then show ?case using Cons by simp
qed simp

lemma single_tree_blocks_ok:
  assumes "jobs_ok xs" "built img xs" "(i, dbs, mts) \<in> set xs" "get_id i = crypto_hash generichash path" "path \<noteq> []"
    "ld_mem ld = [(f, Some img)]" "find_latest_inode generichash ld path True = Some (Inr r)"
  shows "blocks_ok r"
proof -
  have "\<forall>(bid, b) \<in> set dbs. block_inv b" using assms(1,3) by (fastforce simp: jobs_ok_def job_ok_def)
  then have "\<forall>(bid, t, b) \<in> set (entries (i, dbs, mts)). block_inv b" by (auto simp: entries_def reloaded_bytes)
  moreover have "blocks_ok (snd (merge_attrs (i, dbs, mts) (0, nothing_found ld)))"
    by (simp add: merge_attrs_def nothing_found_def blocks_ok_def)
  ultimately have "blocks_ok (snd (merge_version True (i, dbs, mts) (0, nothing_found ld)))"
    by (simp add: merge_version_def merged_blocks_ok)
  then show ?thesis using assms(7) find_single_eq [OF assms(1-6), of True] by simp
qed

lemma find_in_single_tree:
  assumes "jobs_ok xs" "built img xs" "(i, dbs, mts) \<in> set xs" "get_id i = crypto_hash generichash path" "path \<noteq> []"
    "ld_mem ld = [(f, Some img)]"
  shows "\<exists>r. find_latest_inode generichash ld path want_data = Some (Inr r) \<and> (0 < get_ull_mtime i \<longrightarrow> has_attrs i r)
    \<and> (want_data \<longrightarrow> (\<forall>bid. map_option block_bytes (map_of (i_block_data r) bid) = map_option block_bytes (map_of dbs bid)))"
proof -
  let ?x = "(i, dbs, mts)"
  have jobs: "\<forall>x \<in> set xs. job_ok x" using assms(1) by (auto simp: jobs_ok_def)
  let ?r0 = "nothing_found ld"
  let ?s = "merge_version want_data ?x (0, ?r0)"
  note find = find_single_eq [OF assms, of want_data]
  have "newest_attrs ([] @ [?x]) ?s" by (rule newest_attrs_step) (simp add: newest_attrs_def nothing_found_def)
  then have attrs: "0 < get_ull_mtime i \<longrightarrow> has_attrs i (snd ?s)"
    by (cases ?s) (auto simp: newest_attrs_def)
  have blocks: "map_option block_bytes (map_of (i_block_data (snd ?s)) bid) = map_option block_bytes (map_of dbs bid)"
    if "want_data" for bid
  proof -
    have "newest_block (entries ?x) (snd ?s) bid"
      using that merged_blocks [of "[]" "(0, ?r0)" bid "[?x]"] by (simp add: newest_block_def nothing_found_def)
    then have "map_of (i_block_data (snd ?s)) bid = map_option reloaded (map_of dbs bid)"
      using newest_single assms(1,3) by (fastforce simp: jobs_ok_def)
    moreover have "block_inv b" if "map_of dbs bid = Some b" for b
      using jobs assms(3) map_of_SomeD [OF that] by (fastforce simp: job_ok_def)
    ultimately show ?thesis by (cases "map_of dbs bid") (simp_all add: reloaded_bytes)
  qed
  show ?thesis using find attrs blocks by blast
qed

lemma find_in_missing_tree:
  assumes "jobs_ok xs" "built img xs" "crypto_hash generichash path \<notin> job_id ` set xs" "path \<noteq> []"
    "ld_mem ld = (f, Some img) # ms"
  shows "\<exists>r. find_latest_inode generichash ld path want_data = Some (Inr r) \<and> i_mtime r = 0"
  using latest_loop_missing [OF built_holds [OF assms(2,1)] _ _ nul_free_crypto_hash, of generichash path f ms] assms
  by (simp add: find_latest_inode_def Let_def rev_map [symmetric] jobs_ok_def)

text \<open>
  An inode \<open>/f\<close> written at time \<open>t\<close> with one byte of contents, under a constant hash.
\<close>

definition version_job :: "u64 \<Rightarrow> u8 \<Rightarrow> job" where
  "version_job t v = ((sample_inode ''01'')\<lparr>ino_ul_mtime := t\<rparr>, [(0, block_of [v] 1)], [(0, t)])"

lemma version_job_ok: "jobs_ok [version_job t v]"
  using block_of_bytes [of 1 "[v]"]
  by (simp add: version_job_def jobs_ok_def job_ok_def get_id_def sample_inode_def nul_free_def)

lemma sample_hash: "crypto_hash (\<lambda>_. [1]) ''/f'' = ''01''"
  by (simp add: crypto_hash_def Let_def binary_to_hex_eq [of "[]", simplified] sprintf_02X_def hex_digit_def char_of_def
      bit_Suc_0_iff)

lemma built_exists: "jobs_ok xs \<Longrightarrow> \<exists>img. built img xs"
  using new_index_ok [OF _ _ _ refl refl, of xs] unfolding built_def jobs_ok_def by blast

text \<open>
  (C6) Flushing and loading is a round trip. A loader that has mapped the file an index
  was built in finds every inode that was added, by its path, with the attributes it was
  written with, and with \<open>want_data\<close> exactly its dirty blocks, byte for byte. A path with
  another id is not found: the modification time of the result is 0.
\<close>

theorem load_roundtrip:
  assumes "jobs_ok xs" "built img xs" "ld_mem ld = [(f, Some img)]" "path \<noteq> []"
  shows "\<exists>r. find_latest_inode generichash ld path want_data = Some (Inr r)
    \<and> (crypto_hash generichash path \<notin> job_id ` set xs \<longrightarrow> i_mtime r = 0)
    \<and> (\<forall>(i, dbs, mts) \<in> set xs. get_id i = crypto_hash generichash path \<and> 0 < get_ull_mtime i \<longrightarrow> has_attrs i r
         \<and> (want_data \<longrightarrow> (\<forall>bid. map_option block_bytes (map_of (i_block_data r) bid) = map_option block_bytes (map_of dbs bid))))"
proof (cases "crypto_hash generichash path \<in> job_id ` set xs")
  case False
  then have none: "\<forall>(i, dbs, mts) \<in> set xs. get_id i \<noteq> crypto_hash generichash path" by force
  obtain r where "find_latest_inode generichash ld path want_data = Some (Inr r)" "i_mtime r = 0"
    using find_in_missing_tree [OF assms(1,2) False assms(4,3)] by blast
  then show ?thesis using none by (intro exI [of _ r]) auto
next
  case True
  then obtain i dbs mts where x: "(i, dbs, mts) \<in> set xs" "get_id i = crypto_hash generichash path" by auto
  have only: "\<forall>y \<in> set xs. job_id y = get_id i \<longrightarrow> y = (i, dbs, mts)"
    using x(1) assms(1) unfolding jobs_ok_def distinct_map by (metis fst_conv inj_onD)
  obtain r where "find_latest_inode generichash ld path want_data = Some (Inr r)" "0 < get_ull_mtime i \<longrightarrow> has_attrs i r"
      "want_data \<longrightarrow> (\<forall>bid. map_option block_bytes (map_of (i_block_data r) bid) = map_option block_bytes (map_of dbs bid))"
    using find_in_single_tree [OF assms(1,2) x assms(4,3)] by blast
  then show ?thesis using only x(2) True by (intro exI [of _ r]) (auto simp del: map_option_eq_Some)
qed

theorem load_roundtrip_witness:
  "\<exists>img r. built img [version_job 5 7]
    \<and> find_latest_inode (\<lambda>_. [1]) (\<lparr>ld_path = ''d/'', ld_mem = [(''d/TREE-1'', Some img)], ld_junk = undefined\<rparr>)
          ''/f'' True = Some (Inr r) \<and> i_mtime r = 5 \<and> map_option block_bytes (map_of (i_block_data r) 0) = Some [7]"
proof -
  obtain i dbs mts where x: "version_job 5 7 = (i, dbs, mts)" by (cases "version_job 5 7")
  have i: "get_id i = crypto_hash (\<lambda>_. [1]) ''/f''" "0 < get_ull_mtime i" "get_ull_mtime i = 5"
    using x by (auto simp: sample_hash version_job_def sample_inode_def get_id_def get_ull_mtime_def)
  have b: "map_option block_bytes (map_of dbs 0) = Some [7]"
    using x block_of_bytes [of 1 "[7]"] get_data_inv [of "block_of [7] 1"] by (auto simp: version_job_def)
  obtain img where img: "built img [version_job 5 7]" using built_exists version_job_ok by blast
  let ?ld = "\<lparr>ld_path = ''d/'', ld_mem = [(''d/TREE-1'', Some img)], ld_junk = undefined\<rparr> :: loader"
  obtain r where "find_latest_inode (\<lambda>_. [1]) ?ld ''/f'' True = Some (Inr r)" "has_attrs i r"
      "\<forall>bid. map_option block_bytes (map_of (i_block_data r) bid) = map_option block_bytes (map_of dbs bid)"
    using load_roundtrip [OF version_job_ok img, of ?ld "''d/TREE-1''" "''/f''" "\<lambda>_. [1]" True] x i(1,2) by auto
  then show ?thesis using img i(3) b unfolding has_attrs_def by metis
qed

text \<open>
  (C18) The newest version wins. When every mapped file has a version of the inode (with
  data, if data is wanted), the result of \<open>find_latest_inode\<close> does not depend on the order
  in which the files are visited: its attributes are those of a version with the greatest
  modification time, and each block is the newest of its versions; a block that no version
  has is absent.
\<close>

theorem newest_version_wins:
  assumes "list_all2 (\<lambda>m (img, xs, x). snd m = Some img \<and> built img xs \<and> jobs_ok xs \<and> x \<in> set xs
      \<and> job_id x = crypto_hash generichash path \<and> 0 < get_ull_mtime (fst x) \<and> (want_data \<longrightarrow> fst (snd x) \<noteq> [])) (ld_mem ld) vs"
    and "vs \<noteq> []" "path \<noteq> []"
  shows "\<exists>r. find_latest_inode generichash ld path want_data = Some (Inr r)
    \<and> (\<exists>(img, xs, x) \<in> set vs. has_attrs (fst x) r \<and> (\<forall>(img', xs', y) \<in> set vs. get_ull_mtime (fst y) \<le> get_ull_mtime (fst x)))
    \<and> (want_data \<longrightarrow> (\<forall>bid. newest_block (concat (map (\<lambda>(img, xs, x). entries x) vs)) r bid))"
proof -
  let ?xs = "map (\<lambda>(img, xs, x). x) vs"
  have "list_all2 (offers want_data (crypto_hash generichash path)) (ld_mem ld) ?xs"
    unfolding list_all2_map2 using assms(1)
  proof (rule list_all2_mono, goal_cases)
    case (1 m v)
    obtain f img xs x where "m = (f, Some img)" "v = (img, xs, x)" using 1 by (cases m; cases v) auto
    then show ?case using built_offers [of img xs x want_data f] 1 by simp
  qed
  then obtain r where r: "find_latest_inode generichash ld path want_data = Some (Inr r)" "newest_attrs ?xs (i_mtime r, r)"
      "want_data \<longrightarrow> (\<forall>bid. newest_block (concat (map entries ?xs)) r bid)"
    using find_latest_versions assms(3) by blast
  have pos: "\<forall>(img, xs, x) \<in> set vs. 0 < get_ull_mtime (fst x)"
    using assms(1) by (induction rule: list_all2_induct) auto
  have le: "\<forall>(img, xs, x) \<in> set vs. get_ull_mtime (fst x) \<le> i_mtime r" using r(2) by (auto simp: newest_attrs_def)
  have "i_mtime r \<noteq> 0"
  proof
    assume "i_mtime r = 0"
    then show False using pos le assms(2) by (cases vs) auto
  qed
  then obtain img xs x where x: "(img, xs, x) \<in> set vs" "has_attrs (fst x) r" using r(2) by (auto simp: newest_attrs_def)
  have "\<exists>(img, xs, x) \<in> set vs. has_attrs (fst x) r \<and> (\<forall>(img', xs', y) \<in> set vs. get_ull_mtime (fst y) \<le> get_ull_mtime (fst x))"
    using x le by (intro bexI [OF _ x(1)]) (auto simp: has_attrs_def)
  moreover have "concat (map (\<lambda>(img, xs, x). entries x) vs) = concat (map entries ?xs)"
    by (induction vs) (auto split: prod.splits)
  ultimately show ?thesis using r(1,3) by (simp only:) blast
qed

theorem newest_version_wins_witness:
  "\<exists>img1 img2 r. built img1 [version_job 1 7] \<and> built img2 [version_job 2 8]
     \<and> find_latest_inode (\<lambda>_. [1]) (\<lparr>ld_path = ''d/'', ld_mem = [(''d/TREE-2'', Some img2), (''d/TREE-1'', Some img1)],
          ld_junk = undefined\<rparr>) ''/f'' True = Some (Inr r) \<and> i_mtime r = 2"
proof -
  obtain img1 img2 where img: "built img1 [version_job 1 7]" "built img2 [version_job 2 8]"
    using built_exists version_job_ok by metis
  let ?ld = "\<lparr>ld_path = ''d/'', ld_mem = [(''d/TREE-2'', Some img2), (''d/TREE-1'', Some img1)], ld_junk = undefined\<rparr> :: loader"
  let ?vs = "[(img2, [version_job 2 8], version_job 2 8), (img1, [version_job 1 7], version_job 1 7)]"
  have "list_all2 (\<lambda>m (img, xs, x). snd m = Some img \<and> built img xs \<and> jobs_ok xs \<and> x \<in> set xs
      \<and> job_id x = crypto_hash (\<lambda>_. [1]) ''/f'' \<and> 0 < get_ull_mtime (fst x) \<and> (True \<longrightarrow> fst (snd x) \<noteq> [])) (ld_mem ?ld) ?vs"
    using img version_job_ok sample_hash
    by (simp add: version_job_def sample_inode_def get_id_def get_ull_mtime_def)
  from newest_version_wins [OF this] obtain r where r: "find_latest_inode (\<lambda>_. [1]) ?ld ''/f'' True = Some (Inr r)"
      "\<exists>(img, xs, x) \<in> set ?vs. has_attrs (fst x) r \<and> (\<forall>(img', xs', y) \<in> set ?vs. get_ull_mtime (fst y) \<le> get_ull_mtime (fst x))"
    by blast
  have "\<not> (2::u64) \<le> 1" by (simp add: word_le_nat_alt)
  then have "i_mtime r = 2"
    using r(2) by (auto simp: version_job_def sample_inode_def get_ull_mtime_def has_attrs_def)
  with r(1) img show ?thesis by blast
qed

text \<open>
  (C19) A file without the path ends the search: whatever the files behind it in the
  iteration order hold, \<open>find_latest_inode\<close> returns what it has found so far. An inode
  that only a later file has is reported as not existing.
\<close>

theorem missing_tree_hides:
  assumes "built img xs" "jobs_ok xs" "crypto_hash generichash path \<notin> job_id ` set xs" "path \<noteq> []"
    "list_all2 (offers want_data (crypto_hash generichash path)) ms ys"
    "ld_mem ld = ms @ (f, Some img) # rest"
  shows "find_latest_inode generichash ld path want_data = find_latest_inode generichash (ld\<lparr>ld_mem := ms\<rparr>) path want_data
    \<and> (ms = [] \<longrightarrow> (\<exists>r. find_latest_inode generichash ld path want_data = Some (Inr r) \<and> i_mtime r = 0))"
proof -
  have "latest_loop ((f, Some img) # rest) (crypto_hash generichash path) want_data t r = Some (Inr r)" for t r
    using latest_loop_missing [OF built_holds [OF assms(1,2)] _ _ nul_free_crypto_hash] assms(2,3)
    by (simp add: rev_map [symmetric] jobs_ok_def)
  then show ?thesis
    using latest_loop_versions [OF assms(5) nul_free_crypto_hash, of "(f, Some img) # rest"]
      latest_loop_versions [OF assms(5) nul_free_crypto_hash, of "[]"] assms(4-6)
    by (auto simp: find_latest_inode_def Let_def case_prod_beta)
qed

theorem missing_tree_hides_witness:
  "\<exists>img1 img2 r. built img1 (sample_jobs 1) \<and> built img2 [version_job 2 8]
     \<and> find_latest_inode (\<lambda>_. [1]) (\<lparr>ld_path = ''d/'', ld_mem = [(''d/TREE-1'', Some img1), (''d/TREE-2'', Some img2)],
          ld_junk = undefined\<rparr>) ''/f'' True = Some (Inr r) \<and> i_mtime r = 0"
proof -
  have ok: "jobs_ok (sample_jobs 1)"
    using sample_jobs_ok [of 1] by (auto simp: jobs_ok_def sample_jobs_def)
  obtain img1 img2 where img: "built img1 (sample_jobs 1)" "built img2 [version_job 2 8]"
    using built_exists version_job_ok ok by metis
  have "crypto_hash (\<lambda>_. [1]) ''/f'' \<notin> job_id ` set (sample_jobs 1)"
    unfolding sample_hash by (simp add: sample_jobs_def sample_inode_def get_id_def)
  from missing_tree_hides [OF img(1) ok this, of True "[]" "[]" "\<lparr>ld_path = ''d/'',
      ld_mem = [(''d/TREE-1'', Some img1), (''d/TREE-2'', Some img2)], ld_junk = undefined\<rparr>" "''d/TREE-1''"] img
  show ?thesis by auto
qed

text \<open>
  (C20) The listing of a directory is complete. For tree files whose inode lists end below
  4 GiB, \<open>get_children\<close> loads the directory, ends, and returns exactly the entries of the
  inodes whose parent is the path, over all the files.
\<close>

theorem get_children_complete:
  assumes "no_stale dir ld" "\<forall>(ent, img) \<in> set (tree_files dir). tree_readable img (J ent)"
  shows "\<exists>names. get_children dir ld path = Some (Inr (load_trees dir ld, names))
    \<and> set names = (\<Union>(ent, img) \<in> set (tree_files dir). index_entry_of ` set (filter (child_of path) (J ent)))"
  by (rule get_children_set [OF assms])

theorem get_children_complete_witness:
  "\<exists>img names ld. built img [version_job 5 7]
     \<and> get_children [(''.'', zero_image), (''TREE-1'', img)] \<lparr>ld_path = ''d/'', ld_mem = [], ld_junk = undefined\<rparr> ''/'' = Some (Inr (ld, names))
     \<and> ie_path ` set names = {''/f''}"
proof -
  obtain img where img: "built img [version_job 5 7]" using built_exists version_job_ok by blast
  let ?dir = "[(''.'', zero_image), (''TREE-1'', img)]"
  let ?ld = "\<lparr>ld_path = ''d/'', ld_mem = [], ld_junk = undefined\<rparr> :: loader"
  have files: "tree_files ?dir = [(''TREE-1'', img)]" by (simp add: tree_files_def)
  have "no_stale ?dir ?ld" by (simp add: no_stale_def)
  moreover have "tree_readable img [version_job 5 7]"
    using img version_job_ok by (simp add: tree_readable_def version_job_def sample_inode_def get_path_def nul_free_def)
  ultimately obtain names where "get_children ?dir ?ld ''/'' = Some (Inr (load_trees ?dir ?ld, names))"
      "set names = index_entry_of ` set (filter (child_of ''/'') [version_job 5 7])"
    using get_children_complete [of ?dir ?ld "\<lambda>_. [version_job 5 7]" "''/''"] files by auto
  moreover have "child_of ''/'' (version_job 5 7)" "ie_path (index_entry_of (version_job 5 7)) = ''/f''"
    by (simp_all add: child_of_def version_job_def sample_inode_def get_path_def parent_path_def index_entry_of_def)
  ultimately show ?thesis using img files by (intro exI [of _ img] exI [of _ names] exI [of _ "load_trees ?dir ?ld"]) auto
qed



end
