(* ===== verification/Block_Cache.thy ===== *)
theory Block_Cache
  imports Bplus_Loader
begin

text \<open>
  \<^verbatim>\<open>src/block_cache.h\<close> and \<^verbatim>\<open>src/block_cache.cpp\<close>: class \<open>BlockCache\<close>, the inodes
  and dirty blocks held in memory.

  The maps of the class are association lists in key order. An inode is shared by its id: the
  pointer map holds the inodes themselves (\<open>None\<close> is a null pointer), and everything the
  program reaches through two pointers, it reaches through two paths with the same id. Blocks
  are shared between inodes and the map of dirty blocks and live in the heap. \<open>operator[]\<close> of
  \<open>std::map\<close> inserts a default value for a key that is missing, and so do the definitions.

  What the operations take from outside is the record \<open>env\<close>: the hash function, the clock
  readings of the \<open>k\<close>-th call that reads the clock, the value an uninitialised mode has, and
  for a flush the random name of the tree file and the addresses its mapping gets. The
  members \<open>path_to_shdw_\<close>, \<open>mutex_\<close> and \<open>t\<close> are never used. \<open>size_\<close> is not initialised
  by the class; the constructor takes its value as an argument.
\<close>

section \<open>State\<close>

record env =
  e_hash :: "char list \<Rightarrow> u8 list"
  e_clk :: "nat \<Rightarrow> clock"
  e_mode0 :: u32
  e_os :: "int \<Rightarrow> int"
  e_rand :: "u8 list"

record block_cache =
  bc_path_to_disk :: string
  bc_inode_idx :: "(string \<times> string) list"
  bc_inode_ptrs :: "(string \<times> inode option) list"
  bc_dirty_block :: "(string \<times> (u64 \<times> bptr) list) list"
  bc_dirty_block_mtime :: "(string \<times> (u64 \<times> u64) list) list"
  bc_size :: u64
  bc_has_changed :: bool
  bc_loader :: loader
  bc_heap :: heap

type_synonym 'a outcome = "'a result option"

definition ENOENT :: int where
  "ENOENT = 2"

definition MAX_SIZE :: u64 where
  "MAX_SIZE = 65536"

definition and_then :: "'a outcome \<Rightarrow> ('a \<Rightarrow> 'b outcome) \<Rightarrow> 'b outcome" where
  "and_then m f = (case m of None \<Rightarrow> None | Some (Inl e) \<Rightarrow> Some (Inl e) | Some (Inr x) \<Rightarrow> f x)"

lemma and_then_simps [simp]:
  "and_then None f = None" "and_then (Some (Inl e)) f = Some (Inl e)" "and_then (Some (Inr x)) f = f x"
  by (simp_all add: and_then_def)

text \<open>\<open>m[k]\<close> of a map of maps, and the default insertion it may make.\<close>

definition row :: "string \<Rightarrow> (string \<times> ('a \<times> 'b) list) list \<Rightarrow> ('a \<times> 'b) list" where
  "row k m = (case map_of m k of Some r \<Rightarrow> r | None \<Rightarrow> [])"

definition touch :: "string \<Rightarrow> (string \<times> ('a \<times> 'b) list) list \<Rightarrow> (string \<times> ('a \<times> 'b) list) list" where
  "touch k m = (case map_of m k of Some r \<Rightarrow> m | None \<Rightarrow> omap_put k [] m)"

definition put_row :: "string \<Rightarrow> 'a::linorder \<Rightarrow> 'b \<Rightarrow> (string \<times> ('a \<times> 'b) list) list \<Rightarrow> (string \<times> ('a \<times> 'b) list) list" where
  "put_row k x v m = omap_put k (omap_put x v (row k m)) m"

text \<open>
  The constructor assigns a temporary loader: its members are copied, then the destructor of
  the temporary unmaps the files.
\<close>

definition BlockCache :: "u64 \<Rightarrow> disk_inode_info \<Rightarrow> directory \<Rightarrow> string \<Rightarrow> block_cache" where
  "BlockCache size0 junk dir path_to_disk =
     (let disk = path_to_disk @ ''root/'';
          tmp = BPLUSIndexLoader junk dir disk
      in \<lparr>bc_path_to_disk = disk, bc_inode_idx = [], bc_inode_ptrs = [], bc_dirty_block = [], bc_dirty_block_mtime = [],
          bc_size = size0, bc_has_changed = False,
          bc_loader = unmap_trees tmp, bc_heap = []\<rparr>)"

section \<open>Looking up inodes\<close>

definition in_cache :: "string \<Rightarrow> block_cache \<Rightarrow> int" where
  "in_cache path bc = (if map_of (bc_inode_idx bc) path \<noteq> None \<or> path = ''/'' then 0 else -1)"

text \<open>\<open>inode_ptrs_[inode_idx_[path]]\<close>: the state with what was inserted, the id, and the pointer.\<close>

definition get_inode_by_path :: "string \<Rightarrow> block_cache \<Rightarrow> block_cache \<times> string \<times> inode option" where
  "get_inode_by_path path bc =
     (let (bc1, ident) = (case map_of (bc_inode_idx bc) path of
            Some ident \<Rightarrow> (bc, ident)
          | None \<Rightarrow> (bc\<lparr>bc_inode_idx := omap_put path [] (bc_inode_idx bc)\<rparr>, []))
      in case map_of (bc_inode_ptrs bc1) ident of
           Some p \<Rightarrow> (bc1, ident, p)
         | None \<Rightarrow> (bc1\<lparr>bc_inode_ptrs := omap_put ident None (bc_inode_ptrs bc1)\<rparr>, ident, None))"

text \<open>A call on the inode that \<open>get_inode_by_path\<close> returns.\<close>

definition put_inode :: "string \<Rightarrow> inode \<Rightarrow> block_cache \<Rightarrow> block_cache" where
  "put_inode ident i bc = bc\<lparr>bc_inode_ptrs := omap_put ident (Some i) (bc_inode_ptrs bc)\<rparr>"

definition deref_path :: "string \<Rightarrow> block_cache \<Rightarrow> (block_cache \<times> string \<times> inode) result" where
  "deref_path path bc =
     (case get_inode_by_path path bc of
        (bc1, ident, Some i) \<Rightarrow> Inr (bc1, ident, i)
      | (bc1, ident, None) \<Rightarrow> Inl Null_Deref)"

definition on_inode :: "string \<Rightarrow> (inode \<Rightarrow> inode) \<Rightarrow> block_cache \<Rightarrow> block_cache result" where
  "on_inode path f bc =
     (case deref_path path bc of Inl e \<Rightarrow> Inl e | Inr (bc1, ident, i) \<Rightarrow> Inr (put_inode ident (f i) bc1))"

definition cache_get_refs :: "string \<Rightarrow> block_cache \<Rightarrow> (block_cache \<times> string list) result" where
  "cache_get_refs path bc =
     (if in_cache path bc = -1 then Inl (Domain_Error ''thing not here'')
      else case deref_path path bc of Inl e \<Rightarrow> Inl e | Inr (bc1, ident, i) \<Rightarrow> Inr (bc1, get_refs i))"

section \<open>Creating, removing and linking\<close>

definition make_file :: "env \<Rightarrow> string \<Rightarrow> u32 \<Rightarrow> bool \<Rightarrow> block_cache \<Rightarrow> block_cache \<times> int" where
  "make_file e path mode dirty bc =
     (let i0 = set_mode (e_clk e 1) mode (inode_new (e_hash e) (e_clk e 0) (e_mode0 e) path);
          i = (if dirty then inode_set_dirty i0 else i0)
      in (bc\<lparr>bc_size := bc_size bc + 1, bc_inode_idx := omap_put path (get_id i) (bc_inode_idx bc),
             bc_inode_ptrs := omap_put (get_id i) (Some i) (bc_inode_ptrs bc), bc_has_changed := True\<rparr>, 0))"

fun dec_links :: "string \<Rightarrow> (string \<times> inode option) list \<Rightarrow> (string \<times> inode option) list result" where
  "dec_links path [] = Inr []"
| "dec_links path ((ident, None) # rest) = Inl Null_Deref"
| "dec_links path ((ident, Some i) # rest) =
     (case dec_links path rest of
        Inl e \<Rightarrow> Inl e
      | Inr rest' \<Rightarrow> Inr ((ident, Some (if path \<in> set (get_refs i) then dec_link path i else i)) # rest'))"

definition cache_remove :: "env \<Rightarrow> string \<Rightarrow> block_cache \<Rightarrow> (block_cache \<times> int) result" where
  "cache_remove e path bc =
     (if in_cache path bc = -1 then Inr (bc, -1)
      else case dec_links path (bc_inode_ptrs bc) of
             Inl err \<Rightarrow> Inl err
           | Inr ptrs \<Rightarrow>
               (case on_inode path (delete_inode (e_clk e 0)) (bc\<lparr>bc_inode_ptrs := ptrs\<rparr>) of
                  Inl err \<Rightarrow> Inl err
                | Inr bc1 \<Rightarrow> Inr (bc1\<lparr>bc_has_changed := True, bc_size := bc_size bc1 - 1\<rparr>, 0)))"

definition cache_rmdir :: "env \<Rightarrow> string \<Rightarrow> block_cache \<Rightarrow> (block_cache \<times> int) result" where
  "cache_rmdir e path bc =
     (if in_cache path bc = -1 then Inr (bc, -1)
      else case on_inode path (delete_inode (e_clk e 0)) bc of
             Inl err \<Rightarrow> Inl err
           | Inr bc1 \<Rightarrow> Inr (bc1\<lparr>bc_has_changed := True\<rparr>, 0))"

text \<open>\<open>S_IFLNK | S_IRUSR | S_IWUSR\<close>.\<close>

definition LINK_MODE :: u32 where
  "LINK_MODE = 0xA180"

definition cache_symlink :: "env \<Rightarrow> string \<Rightarrow> string \<Rightarrow> block_cache \<Rightarrow> block_cache \<times> int" where
  "cache_symlink e from' to bc =
     (let ll = set_mode (e_clk e 1) LINK_MODE (inode_new (e_hash e) (e_clk e 0) (e_mode0 e) from')
      in (bc\<lparr>bc_inode_idx := omap_put to (get_id ll) (bc_inode_idx bc),
             bc_inode_ptrs := omap_put (get_id ll) (Some ll) (bc_inode_ptrs bc), bc_has_changed := True\<rparr>, 0))"

section \<open>Loading from disk\<close>

definition get_latest_inode :: "env \<Rightarrow> string \<Rightarrow> bool \<Rightarrow> block_cache \<Rightarrow> disk_inode_info outcome" where
  "get_latest_inode e path want_data bc = find_latest_inode (e_hash e) (bc_loader bc) path want_data"

fun add_loaded_blocks :: "(nat \<Rightarrow> clock) \<Rightarrow> nat \<Rightarrow> (u64 \<times> block) list \<Rightarrow> heap \<times> inode \<Rightarrow> heap \<times> inode" where
  "add_loaded_blocks clk k [] hi = hi"
| "add_loaded_blocks clk k ((bid, b) # blks) (h, i) =
     add_loaded_blocks clk (k + 1) blks (add_block (clk k) bid (length h) (h @ [b]) i)"

definition loaded_inode :: "env \<Rightarrow> string \<Rightarrow> disk_inode_info \<Rightarrow> heap \<Rightarrow> heap \<times> inode" where
  "loaded_inode e path di h =
     (let i1 = set_ctime (i_ctime di) (set_mtime (i_mtime di) (set_nlink (i_nlink di) (set_mode (e_clk e 2) (i_mode di)
            (set_size (e_clk e 1) (i_size di) (set_id (i_inode_id di)
              (inode_new (e_hash e) (e_clk e 0) (e_mode0 e) path))))));
          i2 = (if i_deleted di \<noteq> 0 then delete_inode (e_clk e 3) i1 else i1)
      in add_loaded_blocks (e_clk e) 4 (i_block_data di) (h, i2))"

definition load_from_disk :: "env \<Rightarrow> string \<Rightarrow> block_cache \<Rightarrow> (block_cache \<times> int) outcome" where
  "load_from_disk e path bc =
     and_then (get_latest_inode e path True bc) (\<lambda>di.
       if i_mtime di = 0 then Some (Inr (bc, -1))
       else
         (let (h, latest_inode) = loaded_inode e path di (bc_heap bc);
              bc1 = bc\<lparr>bc_heap := h\<rparr>
          in case (if in_cache path bc1 = 0
                   then (case deref_path path bc1 of Inl err \<Rightarrow> Inl err
                           | Inr (bc2, ident, i) \<Rightarrow> Inr (bc2, i_mtime di \<le> get_ull_mtime i))
                   else Inr (bc1, False)) of
               Inl err \<Rightarrow> Some (Inl err)
             | Inr (bc2, is_updated) \<Rightarrow>
                 Some (Inr (if \<not> is_updated \<or> in_cache path bc2 = -1
                   then (bc2\<lparr>bc_inode_idx := omap_put path (get_id latest_inode) (bc_inode_idx bc2),
                             bc_inode_ptrs := omap_put (get_id latest_inode) (Some (undo_dirty latest_inode)) (bc_inode_ptrs bc2)\<rparr>, 0)
                   else (bc2, 0)))))"

definition load_from_shdw :: "env \<Rightarrow> string \<Rightarrow> block_cache \<Rightarrow> (block_cache \<times> int) outcome" where
  "load_from_shdw e path bc = load_from_disk e path bc"

definition cache_open :: "env \<Rightarrow> string \<Rightarrow> block_cache \<Rightarrow> (block_cache \<times> int) outcome" where
  "cache_open e path bc =
     (if in_cache path bc = 0 then Some (Inr (bc, 0))
      else and_then (load_from_disk e path bc) (\<lambda>(bc1, res). Some (Inr (bc1, 0))))"

section \<open>Renaming\<close>

text \<open>The environment of the \<open>k\<close>-th nested operation: its own clock readings.\<close>

definition sub_env :: "nat \<Rightarrow> env \<Rightarrow> env" where
  "sub_env k e = e\<lparr>e_clk := (\<lambda>j. e_clk e (4 * j + k))\<rparr>"

definition rename_new :: "env \<Rightarrow> string \<Rightarrow> string \<Rightarrow> block_cache \<Rightarrow> (block_cache \<times> int) outcome" where
  "rename_new e from' to bc =
     (case deref_path from' bc of
        Inl err \<Rightarrow> Some (Inl err)
      | Inr (bc1, ident, i) \<Rightarrow>
          (let nto_inode = inode_copy (e_hash e) (e_clk e 0) to i;
               bc2 = put_inode ident (delete_inode (e_clk e 1) i) bc1
           in Some (Inr (bc2\<lparr>bc_inode_idx := omap_put to (get_id nto_inode) (bc_inode_idx bc2),
                bc_inode_ptrs := omap_put (get_id nto_inode) (Some nto_inode) (bc_inode_ptrs bc2),
                bc_has_changed := True\<rparr>, 0))))"

definition cache_rename :: "env \<Rightarrow> string \<Rightarrow> string \<Rightarrow> block_cache \<Rightarrow> (block_cache \<times> int) outcome" where
  "cache_rename e from' to bc =
     and_then (if in_cache from' bc = -1 then load_from_shdw (sub_env 0 e) from' bc else Some (Inr (bc, 0))) (\<lambda>(bc1, res1).
       if res1 = -1 then Some (Inr (bc1, -1))
       else and_then (if in_cache to bc1 = -1 then load_from_shdw (sub_env 1 e) to bc1 else Some (Inr (bc1, res1))) (\<lambda>(bc2, res2).
         if res2 = -1
         then (case deref_path from' bc2 of
                 Inl err \<Rightarrow> Some (Inl err)
               | Inr (bc3, ident, i) \<Rightarrow>
                   rename_new (sub_env 3 e) from' to (fst (make_file (sub_env 2 e) to (get_mode i) True bc3)))
         else rename_new (sub_env 3 e) from' to bc2))"

section \<open>Attributes and listings\<close>

text \<open>\<open>stbuf\<close> is the caller's structure; the fields the function does not fill in stay.\<close>

definition cache_getattr :: "env \<Rightarrow> string \<Rightarrow> stat \<Rightarrow> block_cache \<Rightarrow> (block_cache \<times> stat \<times> int) outcome" where
  "cache_getattr e path st bc =
     (if in_cache path bc = 0
      then (case deref_path path bc of
              Inl err \<Rightarrow> Some (Inl err)
            | Inr (bc1, ident, i) \<Rightarrow> Some (Inr (bc1, inode_stat i, 0)))
      else and_then (get_latest_inode e path False bc) (\<lambda>di.
        if i_mtime di = 0 then Some (Inr (bc, st, - ENOENT))
        else Some (Inr (bc, st\<lparr>st_mode := i_mode di, st_nlink := i_nlink di,
          st_blocks := unat (i_size di div get_physical_size + (if i_size di mod get_physical_size = 0 then 1 else 0)),
          st_size := i_size di, st_ctim := get_time_ts (i_ctime di), st_mtim := get_time_ts (i_mtime di)\<rparr>, 0))))"

definition newer_entry :: "index_entry \<Rightarrow> (string \<times> index_entry) list \<Rightarrow> (string \<times> index_entry) list" where
  "newer_entry disk_ent added_names =
     (case map_of added_names (ie_path disk_ent) of
        None \<Rightarrow> omap_put (ie_path disk_ent) disk_ent added_names
      | Some old \<Rightarrow> if ie_mtime disk_ent < ie_mtime old then added_names
                    else omap_put (ie_path disk_ent) disk_ent added_names)"

definition cache_readdir :: "directory \<Rightarrow> string \<Rightarrow> block_cache \<Rightarrow> (block_cache \<times> index_entry list) outcome" where
  "cache_readdir dir path bc =
     and_then (get_children dir (bc_loader bc) path) (\<lambda>(ld, disk_ents).
       Some (Inr (bc\<lparr>bc_loader := ld\<rparr>, map snd (fold newer_entry disk_ents []))))"

section \<open>Reading and writing\<close>

text \<open>
  One round of the loop of \<open>write\<close>; \<open>ident\<close> is the id of the path, and \<open>k\<close> numbers the
  rounds for the clock.
\<close>

definition write_block :: "env \<Rightarrow> string \<Rightarrow> u8 list \<Rightarrow> nat \<Rightarrow> u64 \<Rightarrow> u64 \<Rightarrow> u64 \<Rightarrow> u64 \<Rightarrow> inode \<Rightarrow> block_cache \<Rightarrow> (inode \<times> block_cache) result" where
  "write_block e ident buf k bid curr_idx blk_size offset_amt i bc =
     (if has_block i bid then
        (case get_block (e_clk e (2 * k)) bid i of
           Inl err \<Rightarrow> Inl err
         | Inr (i1, p) \<Rightarrow>
             Inr (i1, bc\<lparr>bc_heap := (bc_heap bc)[p := fst (block_insert (bc_heap bc ! p) buf blk_size offset_amt)],
                     bc_inode_ptrs := omap_put ident (Some i1) (bc_inode_ptrs bc),
                     bc_dirty_block := put_row ident bid p (bc_dirty_block bc),
                     bc_dirty_block_mtime := put_row ident bid (get_time (e_clk e (2 * k + 1) 0)) (bc_dirty_block_mtime bc)\<rparr>))
      else
        (let p = length (bc_heap bc);
             (h, i1) = add_block (e_clk e (2 * k)) bid p (bc_heap bc @ [block_of (drop (unat curr_idx) buf) blk_size]) i
         in Inr (i1, bc\<lparr>bc_heap := h,
                   bc_inode_ptrs := omap_put ident (Some i1) (bc_inode_ptrs bc),
                   bc_dirty_block := put_row ident bid p (bc_dirty_block bc),
                   bc_dirty_block_mtime := put_row ident bid (get_ull_mtime i1) (bc_dirty_block_mtime bc)\<rparr>)))"

definition next_size :: "u64 \<Rightarrow> u64 \<Rightarrow> u64" where
  "next_size sz curr_idx = (if sz < curr_idx + get_physical_size then sz - curr_idx else get_physical_size)"

partial_function (option) write_loop ::
  "env \<Rightarrow> string \<Rightarrow> u8 list \<Rightarrow> u64 \<Rightarrow> u64 \<Rightarrow> u64 \<Rightarrow> nat \<Rightarrow> u32 \<Rightarrow> u64 \<Rightarrow> u64 \<Rightarrow> inode \<Rightarrow> block_cache
     \<Rightarrow> (block_cache \<times> u64 \<times> u64) outcome" where
  "write_loop e ident buf sz offset num_blocks k block_idx curr_idx blk_size i bc =
     (if ucast block_idx < num_blocks then
        (let curr_idx1 = curr_idx + blk_size;
             blk_size1 = next_size sz curr_idx1;
             offset_amt = (if k = 0 then (if offset < get_physical_size then offset else offset mod get_physical_size) else 0)
         in case write_block e ident buf k (ucast block_idx) curr_idx1 blk_size1 offset_amt i bc of
              Inl err \<Rightarrow> Some (Inl err)
            | Inr (i1, bc1) \<Rightarrow>
                write_loop e ident buf sz offset num_blocks (k + 1) (block_idx + 1) curr_idx1 blk_size1 i1 bc1)
      else Some (Inr (bc, curr_idx, blk_size)))"

definition cache_write :: "env \<Rightarrow> string \<Rightarrow> u8 list \<Rightarrow> u64 \<Rightarrow> u64 \<Rightarrow> block_cache \<Rightarrow> (block_cache \<times> int) outcome" where
  "cache_write e path buf sz offset bc =
     and_then (if in_cache path bc = -1 then load_from_shdw (sub_env 0 e) path bc
               else Some (map_sum id (\<lambda>bc1. (bc1, 0)) (on_inode path (remake_inode \<circ> inode_set_dirty) bc))) (\<lambda>(bc1, res).
       if res = -1 then Some (Inr (bc1, -1))
       else
         (let num_blocks = ulong_ceil (sz + offset) get_physical_size
          in case deref_path path bc1 of
               Inl err \<Rightarrow> Some (Inl err)
             | Inr (bc2, ident, i) \<Rightarrow>
                 (let i1 = (if get_size i < sz + offset then set_size (e_clk e 1) (sz + offset) i else i);
                      bc3 = put_inode ident i1 bc2
                  in and_then (write_loop (sub_env 2 e) ident buf sz offset num_blocks 0 (ucast (offset div get_physical_size)) 0 0 i1 bc3)
                       (\<lambda>(bc4, curr_idx, blk_size).
                         if curr_idx + blk_size = sz then Some (Inr (bc4\<lparr>bc_has_changed := True\<rparr>, sint (ucast sz :: u32)))
                         else Some (Inl Assert_Failed)))))"

definition cache_read :: "env \<Rightarrow> string \<Rightarrow> u64 \<Rightarrow> u64 \<Rightarrow> block_cache \<Rightarrow> (block_cache \<times> u8 list \<times> int) outcome" where
  "cache_read e path sz offset bc =
     and_then (if in_cache path bc = -1 then load_from_shdw e path bc else Some (Inr (bc, 0))) (\<lambda>(bc1, res).
       case deref_path path bc1 of
         Inl err \<Rightarrow> Some (Inl err)
       | Inr (bc2, ident, i) \<Rightarrow>
           (case inode_read (bc_heap bc2) i sz offset of
              Inl err \<Rightarrow> Some (Inl err)
            | Inr (buf, n) \<Rightarrow> Some (Inr (bc2, buf, sint n))))"

definition cache_readlink :: "string \<Rightarrow> u64 \<Rightarrow> block_cache \<Rightarrow> (block_cache \<times> u8 list \<times> int) result" where
  "cache_readlink path sz bc =
     (if in_cache path bc = -1 then Inr (bc, [], - ENOENT)
      else case deref_path path bc of
             Inl err \<Rightarrow> Inl err
           | Inr (bc1, ident, i) \<Rightarrow>
               if \<not> S_ISLNK (get_mode i) then Inr (bc1, [], - ENOENT)
               else case inode_read (bc_heap bc1) i sz 0 of
                      Inl err \<Rightarrow> Inl err
                    | Inr (buf, n) \<Rightarrow> Inr (bc1, buf, sint n))"

definition cache_truncate :: "env \<Rightarrow> string \<Rightarrow> u64 \<Rightarrow> block_cache \<Rightarrow> (block_cache \<times> int) result" where
  "cache_truncate e path sz bc =
     (if in_cache path bc = -1 then Inr (bc, -1)
      else case on_inode path (set_size (e_clk e 0) sz) bc of
             Inl err \<Rightarrow> Inl err
           | Inr bc1 \<Rightarrow> Inr (bc1\<lparr>bc_has_changed := True\<rparr>, 0))"

section \<open>Flushing\<close>

text \<open>The totals the flush announces: 64-bit sums over all dirty blocks, and over the paths.\<close>

definition dirty_size :: "block_cache \<Rightarrow> u64" where
  "dirty_size bc = fold (\<lambda>(ident, bls) n. fold (\<lambda>(bid, p) n. n + get_actual_size (bc_heap bc ! p)) bls n) (bc_dirty_block bc) 0"

definition dirty_count :: "block_cache \<Rightarrow> u64" where
  "dirty_count bc = fold (\<lambda>(ident, bls) n. fold (\<lambda>(bid, p) n. n + 1) bls n) (bc_dirty_block bc) 0"

definition path_size :: "block_cache \<Rightarrow> u64" where
  "path_size bc = fold (\<lambda>(path, ident) n. n + of_nat (length path)) (bc_inode_idx bc) 0"

fun flush_inodes :: "(string \<times> string) list \<Rightarrow> block_cache \<Rightarrow> bplus \<Rightarrow> (block_cache \<times> bplus) outcome" where
  "flush_inodes [] bc flusher = Some (Inr (bc, flusher))"
| "flush_inodes ((path, ident) # rest) bc flusher =
     (case deref_path path bc of
        Inl err \<Rightarrow> Some (Inl err)
      | Inr (bc1, ident1, i) \<Rightarrow>
          (let bc2 = bc1\<lparr>bc_dirty_block := touch ident (bc_dirty_block bc1),
                       bc_dirty_block_mtime := touch ident (bc_dirty_block_mtime bc1)\<rparr>
           in and_then (add_inode i (map (\<lambda>(bid, p). (bid, bc_heap bc2 ! p)) (row ident (bc_dirty_block bc2)))
                         (row ident (bc_dirty_block_mtime bc2)) flusher) (\<lambda>flusher1.
                flush_inodes rest bc2 flusher1)))"

text \<open>
  The file the flush writes is part of the result; the first allocation creates it, so a flush
  without inodes makes none.
\<close>

definition flush_to_disk :: "env \<Rightarrow> block_cache \<Rightarrow> (block_cache \<times> (string \<times> image) option \<times> int) outcome" where
  "flush_to_disk e bc =
     (if \<not> bc_has_changed bc then Some (Inr (bc, None, -1))
      else and_then (flush_inodes (bc_inode_idx bc) bc (BPLUSIndex (e_os e) (e_rand e) (int (length (bc_inode_idx bc)))
             (uint (dirty_size bc)) (uint (dirty_count bc)) (uint (path_size bc)))) (\<lambda>(bc1, flusher).
        Some (Inr (bc1\<lparr>bc_inode_idx := [], bc_inode_ptrs := [], bc_dirty_block := [], bc_size := 0\<rparr>,
          (if bp_root_ptr flusher then Some (tf_file (bp_mem flusher), bp_img flusher) else None), 0))))"

definition flush_to_shdw :: "env \<Rightarrow> int \<Rightarrow> block_cache \<Rightarrow> (block_cache \<times> (string \<times> image) option \<times> int) outcome" where
  "flush_to_shdw e on_close bc =
     (if bc_size bc < MAX_SIZE \<and> on_close = 0 then Some (Inr (bc, None, -1)) else flush_to_disk e bc)"

end
