(* ===== verification/Cache_Inv.thy ===== *)
theory Cache_Inv
  imports Block_Cache
begin

text \<open>
  The structural invariant of the cache and the step relation of its operations: every state
  that operations can reach from a new cache has it, and in such a state an operation on a
  path that is in the cache never follows a null pointer.
\<close>

section \<open>The invariant\<close>

abbreviation keys_sorted :: "('k::linorder \<times> 'v) list \<Rightarrow> bool" where
  "keys_sorted m \<equiv> sorted_wrt (<) (map fst m)"

definition inode_wf :: "heap \<Rightarrow> string \<Rightarrow> inode \<Rightarrow> bool" where
  "inode_wf h ident i \<longleftrightarrow> ino_id i = ident \<and> distinct (map fst (ino_blocks i)) \<and> (\<forall>(bid, p) \<in> set (ino_blocks i). p < length h)"

definition dirty_wf :: "heap \<Rightarrow> (u64 \<times> bptr) list \<Rightarrow> bool" where
  "dirty_wf h r \<longleftrightarrow> keys_sorted r \<and> (\<forall>(bid, p) \<in> set r. p < length h)"

definition cache_wf :: "block_cache \<Rightarrow> bool" where
  "cache_wf bc \<longleftrightarrow> keys_sorted (bc_inode_idx bc) \<and> keys_sorted (bc_inode_ptrs bc)
     \<and> keys_sorted (bc_dirty_block bc) \<and> keys_sorted (bc_dirty_block_mtime bc)
     \<and> (\<forall>path ident. map_of (bc_inode_idx bc) path = Some ident \<longrightarrow> map_of (bc_inode_ptrs bc) ident \<noteq> None)
     \<and> (\<forall>ident p. map_of (bc_inode_ptrs bc) ident = Some p \<longrightarrow> (\<exists>i. p = Some i \<and> inode_wf (bc_heap bc) ident i))
     \<and> (\<forall>ident r. map_of (bc_dirty_block bc) ident = Some r \<longrightarrow> dirty_wf (bc_heap bc) r)"

lemma inode_wf_mono: "inode_wf h ident i \<Longrightarrow> length h \<le> length h' \<Longrightarrow> inode_wf h' ident i"
  by (fastforce simp: inode_wf_def)

lemma dirty_wf_mono: "dirty_wf h r \<Longrightarrow> length h \<le> length h' \<Longrightarrow> dirty_wf h' r"
  by (fastforce simp: dirty_wf_def)

lemma cache_wf_heap: "cache_wf bc \<Longrightarrow> length (bc_heap bc) \<le> length h \<Longrightarrow> cache_wf (bc\<lparr>bc_heap := h\<rparr>)"
  unfolding cache_wf_def using inode_wf_mono dirty_wf_mono by (simp; meson)

lemma cache_wf_put:
  assumes "cache_wf bc" "inode_wf (bc_heap bc) ident i"
  shows "cache_wf (put_inode ident i bc)"
  using assms by (auto simp: cache_wf_def put_inode_def omap_put_sorted omap_put_find)

lemma cache_wf_link:
  assumes "cache_wf bc" "inode_wf (bc_heap bc) ident i"
  shows "cache_wf (bc\<lparr>bc_inode_idx := omap_put path ident (bc_inode_idx bc),
    bc_inode_ptrs := omap_put ident (Some i) (bc_inode_ptrs bc)\<rparr>)"
  using assms by (auto simp: cache_wf_def omap_put_sorted omap_put_find)

lemma cache_wf_fields [simp]:
  "cache_wf (bc\<lparr>bc_size := s\<rparr>) = cache_wf bc" "cache_wf (bc\<lparr>bc_has_changed := c\<rparr>) = cache_wf bc"
  "cache_wf (bc\<lparr>bc_loader := ld\<rparr>) = cache_wf bc"
  by (simp_all add: cache_wf_def)

lemma cache_wf_dirty:
  assumes "cache_wf bc" "p < length (bc_heap bc)"
  shows "cache_wf (bc\<lparr>bc_dirty_block := put_row ident bid p (bc_dirty_block bc),
    bc_dirty_block_mtime := put_row ident bid t (bc_dirty_block_mtime bc)\<rparr>)"
proof -
  have "dirty_wf (bc_heap bc) (row ident (bc_dirty_block bc))"
    using assms(1) unfolding cache_wf_def row_def by (cases "map_of (bc_dirty_block bc) ident") (auto simp: dirty_wf_def)
  then have "dirty_wf (bc_heap bc) (omap_put bid p (row ident (bc_dirty_block bc)))"
    using assms(2) by (auto simp: dirty_wf_def omap_put_sorted omap.set_put)
  then show ?thesis
    using assms(1) by (auto simp: cache_wf_def put_row_def omap_put_sorted omap_put_find)
qed

lemma bc_heap_put_inode [simp]: "bc_heap (put_inode ident i bc) = bc_heap bc"
  by (simp add: put_inode_def)

lemma deref_wf:
  assumes "cache_wf bc" "deref_path path bc = Inr (bc1, ident, i)"
  shows "cache_wf bc1" "inode_wf (bc_heap bc1) ident i" "bc_heap bc1 = bc_heap bc"
    "map_of (bc_inode_ptrs bc1) ident = Some (Some i)" "map_of (bc_inode_idx bc1) path = Some ident"
proof -
  obtain bc' id' where g: "bc' = (case map_of (bc_inode_idx bc) path of Some ident \<Rightarrow> bc
      | None \<Rightarrow> bc\<lparr>bc_inode_idx := omap_put path [] (bc_inode_idx bc)\<rparr>)"
    "id' = (case map_of (bc_inode_idx bc) path of Some ident \<Rightarrow> ident | None \<Rightarrow> [])" by blast
  have "bc1 = bc' \<and> ident = id' \<and> map_of (bc_inode_ptrs bc') id' = Some (Some i)"
    using assms(2) unfolding g by (auto simp: deref_path_def get_inode_by_path_def Let_def split: option.splits prod.splits)
  moreover have "bc_inode_ptrs bc' = bc_inode_ptrs bc" "bc_heap bc' = bc_heap bc" "map_of (bc_inode_idx bc') path = Some id'"
    unfolding g by (auto simp: omap_put_find split: option.splits)
  ultimately show d: "bc_heap bc1 = bc_heap bc" "map_of (bc_inode_ptrs bc1) ident = Some (Some i)"
      "map_of (bc_inode_idx bc1) path = Some ident" by auto
  show "cache_wf bc1"
    using assms(1) \<open>bc1 = bc' \<and> _\<close> unfolding g
    by (auto simp: cache_wf_def omap_put_sorted omap_put_find split: option.splits)
  then show "inode_wf (bc_heap bc1) ident i" using d(2) by (fastforce simp: cache_wf_def)
qed

lemma deref_cached:
  assumes "cache_wf bc" "map_of (bc_inode_idx bc) path = Some ident"
  shows "\<exists>i. deref_path path bc = Inr (bc, ident, i) \<and> map_of (bc_inode_ptrs bc) ident = Some (Some i)"
proof -
  have "map_of (bc_inode_ptrs bc) ident \<noteq> None" using assms unfolding cache_wf_def by blast
  then obtain p where "map_of (bc_inode_ptrs bc) ident = Some p" by blast
  moreover obtain i where "p = Some i" using assms(1) calculation unfolding cache_wf_def by blast
  ultimately show ?thesis using assms(2) by (simp add: deref_path_def get_inode_by_path_def)
qed

section \<open>Operations on one inode\<close>

lemma inode_wf_simps [simp]:
  "inode_wf h ident (set_mode clk mode i) = inode_wf h ident i" "inode_wf h ident (inode_set_dirty i) = inode_wf h ident i"
  "inode_wf h ident (remake_inode i) = inode_wf h ident i" "inode_wf h ident (set_size clk sz i) = inode_wf h ident i"
  "inode_wf h ident (undo_dirty i) = inode_wf h ident i" "inode_wf h ident (set_nlink nl i) = inode_wf h ident i"
  "inode_wf h ident (set_mtime t i) = inode_wf h ident i" "inode_wf h ident (set_ctime t i) = inode_wf h ident i"
  by (simp_all add: inode_wf_def set_mode_def Let_def inode_set_dirty_def remake_inode_def set_size_def update_mtime_def
      undo_dirty_def set_nlink_def set_mtime_def set_ctime_def)

lemma inode_wf_cleared:
  "inode_wf h ident i \<Longrightarrow> inode_wf h ident (delete_inode clk i)" "inode_wf h ident i \<Longrightarrow> inode_wf h ident (dec_link path i)"
  by (simp_all add: inode_wf_def delete_inode_def update_mtime_def dec_link_def Let_def)

lemma inode_wf_new: "inode_wf h (crypto_hash gh path) (inode_new gh clk m path)"
  by (simp add: inode_wf_def inode_new_def)

lemma inode_wf_copy: "inode_wf h ident i \<Longrightarrow> inode_wf h (crypto_hash gh path) (inode_copy gh clk path i)"
proof -
  assume i: "inode_wf h ident i"
  have d: "distinct (map fst (ino_blocks (inode_copy gh clk path i)))" by (rule copied_blocks_distinct)
  moreover have "map_of (ino_blocks (inode_copy gh clk path i)) = map_of (ino_blocks i)"
    using copied_blocks i by (simp add: inode_wf_def)
  ultimately have "set (ino_blocks (inode_copy gh clk path i)) = set (ino_blocks i)"
    using i map_of_inject_set unfolding inode_wf_def by blast
  then show ?thesis using i d by (simp add: inode_wf_def inode_copy_def)
qed

lemma get_id_wf: "inode_wf h ident i \<Longrightarrow> get_id i = ident"
  by (simp add: inode_wf_def get_id_def)

lemma inode_wf_self: "inode_wf h ident i \<Longrightarrow> inode_wf h (get_id i) i"
  by (simp add: get_id_wf)

lemma length_add_block [simp]: "length (fst (add_block clk bid p h i)) = length h"
  by (simp add: add_block_def Let_def split: option.split)

lemma inode_wf_add_block:
  assumes "inode_wf h ident i" "p < length h"
  shows "inode_wf (fst (add_block clk bid p h i)) ident (snd (add_block clk bid p h i))"
proof -
  have "set (AList.update bid p (ino_blocks i)) \<subseteq> insert (bid, p) (set (ino_blocks i))"
    using assms(1) umap.set_put [of "ino_blocks i" bid p] by (auto simp: inode_wf_def)
  then show ?thesis using assms
    by (fastforce simp: inode_wf_def add_block_def Let_def update_mtime_def distinct_update split: option.split)
qed

lemma add_loaded_blocks_wf:
  "inode_wf h ident i \<Longrightarrow> (h', i') = add_loaded_blocks clk k blks (h, i) \<Longrightarrow> length h \<le> length h' \<and> inode_wf h' ident i'"
proof (induction blks arbitrary: k h i)
  case (Cons x blks)
  obtain bid b where x: "x = (bid, b)" by (cases x)
  let ?s = "add_block (clk k) bid (length h) (h @ [b]) i"
  have "inode_wf (fst ?s) ident (snd ?s)"
    using Cons.prems(1) by (intro inode_wf_add_block) (auto elim: inode_wf_mono)
  then have "length (fst ?s) \<le> length h' \<and> inode_wf h' ident i'"
    using Cons.IH [of "fst ?s" "snd ?s" "k + 1"] Cons.prems(2) x by simp
  then show ?case by simp
qed simp

section \<open>Every operation keeps the invariant\<close>

lemma on_inode_wf:
  assumes "cache_wf bc" "on_inode path f bc = Inr bc'" "\<And>h ident i. inode_wf h ident i \<Longrightarrow> inode_wf h ident (f i)"
  shows "cache_wf bc'"
  using assms deref_wf(1,2) [OF assms(1)] cache_wf_put
  by (auto simp: on_inode_def split: sum.splits)

lemma make_file_wf: "cache_wf bc \<Longrightarrow> cache_wf (fst (make_file e path mode dirty bc))"
proof -
  assume wf: "cache_wf bc"
  let ?i0 = "set_mode (e_clk e 1) mode (inode_new (e_hash e) (e_clk e 0) (e_mode0 e) path)"
  let ?i = "if dirty then inode_set_dirty ?i0 else ?i0"
  have i: "inode_wf (bc_heap bc) (get_id ?i) ?i"
    by (rule inode_wf_self [where ident = "crypto_hash (e_hash e) path"]) (simp add: inode_wf_new)
  have "fst (make_file e path mode dirty bc) = (bc\<lparr>bc_inode_idx := omap_put path (get_id ?i) (bc_inode_idx bc),
      bc_inode_ptrs := omap_put (get_id ?i) (Some ?i) (bc_inode_ptrs bc)\<rparr>)\<lparr>bc_size := bc_size bc + 1, bc_has_changed := True\<rparr>"
    by (simp add: make_file_def Let_def)
  then show ?thesis using cache_wf_link [OF wf i, of path] by simp
qed

lemma cache_symlink_wf: "cache_wf bc \<Longrightarrow> cache_wf (fst (cache_symlink e from' to bc))"
proof -
  assume wf: "cache_wf bc"
  let ?i = "set_mode (e_clk e 1) LINK_MODE (inode_new (e_hash e) (e_clk e 0) (e_mode0 e) from')"
  have i: "inode_wf (bc_heap bc) (get_id ?i) ?i"     by (rule inode_wf_self [where ident = "crypto_hash (e_hash e) from'"]) (simp add: inode_wf_new)
  have "fst (cache_symlink e from' to bc) = (bc\<lparr>bc_inode_idx := omap_put to (get_id ?i) (bc_inode_idx bc),
      bc_inode_ptrs := omap_put (get_id ?i) (Some ?i) (bc_inode_ptrs bc)\<rparr>)\<lparr>bc_has_changed := True\<rparr>"
    by (simp add: cache_symlink_def Let_def)
  then show ?thesis using cache_wf_link [OF wf i, of to] by simp
qed

lemma dec_links_map:
  "dec_links path ptrs = Inr ptrs' \<Longrightarrow> map fst ptrs' = map fst ptrs
    \<and> map_of ptrs' ident = map_option (map_option (\<lambda>i. if path \<in> set (get_refs i) then dec_link path i else i)) (map_of ptrs ident)"
proof (induction path ptrs arbitrary: ptrs' rule: dec_links.induct)
  case (3 path ident' i rest)
  then show ?case by (auto split: sum.splits)
qed auto

lemma cache_remove_wf:
  assumes "cache_wf bc" "cache_remove e path bc = Inr (bc', res)"
  shows "cache_wf bc'"
proof (cases "in_cache path bc = -1")
  case False
  then obtain ptrs bc1 where p: "dec_links path (bc_inode_ptrs bc) = Inr ptrs"
      "on_inode path (delete_inode (e_clk e 0)) (bc\<lparr>bc_inode_ptrs := ptrs\<rparr>) = Inr bc1"
      "bc' = bc1\<lparr>bc_has_changed := True, bc_size := bc_size bc1 - 1\<rparr>"
    using assms(2) by (auto simp: cache_remove_def split: sum.splits)
  note m = dec_links_map [OF p(1)]
  have "keys_sorted ptrs" using m assms(1) by (simp add: cache_wf_def)
  moreover have "\<exists>i. q = Some i \<and> inode_wf (bc_heap bc) ident i" if q: "map_of ptrs ident = Some q" for ident q
  proof -
    obtain q' where q': "map_of (bc_inode_ptrs bc) ident = Some q'"
        "q = map_option (\<lambda>i. if path \<in> set (get_refs i) then dec_link path i else i) q'"
      using q m [of ident] by auto
    obtain i where "q' = Some i" "inode_wf (bc_heap bc) ident i" using assms(1) q'(1) unfolding cache_wf_def by blast
    then show ?thesis using q'(2) inode_wf_cleared(2) by auto
  qed
  ultimately have "cache_wf (bc\<lparr>bc_inode_ptrs := ptrs\<rparr>)"
    using assms(1) m by (simp add: cache_wf_def)
  from on_inode_wf [OF this p(2) inode_wf_cleared(1)] show ?thesis by (simp add: p(3))
qed (use assms in \<open>simp add: cache_remove_def\<close>)

lemma cache_rmdir_wf: "cache_wf bc \<Longrightarrow> cache_rmdir e path bc = Inr (bc', res) \<Longrightarrow> cache_wf bc'"
  using on_inode_wf [OF _ _ inode_wf_cleared(1)] by (auto simp: cache_rmdir_def split: if_splits sum.splits)

lemma cache_truncate_wf: "cache_wf bc \<Longrightarrow> cache_truncate e path sz bc = Inr (bc', res) \<Longrightarrow> cache_wf bc'"
  using on_inode_wf [of bc path "set_size (e_clk e 0) sz"] by (auto simp: cache_truncate_def split: if_splits sum.splits)

lemma cache_get_refs_wf: "cache_wf bc \<Longrightarrow> cache_get_refs path bc = Inr (bc', refs) \<Longrightarrow> cache_wf bc'"
  using deref_wf(1) by (auto simp: cache_get_refs_def split: if_splits sum.splits)

lemma cache_readlink_wf: "cache_wf bc \<Longrightarrow> cache_readlink path sz bc = Inr (bc', buf, res) \<Longrightarrow> cache_wf bc'"
  using deref_wf(1) by (auto simp: cache_readlink_def split: if_splits sum.splits)

lemma and_then_InrD: "and_then m f = Some (Inr y) \<Longrightarrow> \<exists>x. m = Some (Inr x) \<and> f x = Some (Inr y)"
  by (auto simp: and_then_def split: option.splits sum.splits)

lemma loaded_inode_wf:
  assumes "loaded_inode e path di h = (h', i)"
  shows "length h \<le> length h' \<and> inode_wf h' (i_inode_id di) i"
proof -
  let ?i1 = "set_ctime (i_ctime di) (set_mtime (i_mtime di) (set_nlink (i_nlink di) (set_mode (e_clk e 2) (i_mode di)
    (set_size (e_clk e 1) (i_size di) (set_id (i_inode_id di) (inode_new (e_hash e) (e_clk e 0) (e_mode0 e) path))))))"
  let ?i2 = "if i_deleted di \<noteq> 0 then delete_inode (e_clk e 3) ?i1 else ?i1"
  have "inode_wf h (i_inode_id di) (set_id (i_inode_id di) (inode_new (e_hash e) (e_clk e 0) (e_mode0 e) path))"
    by (simp add: inode_wf_def set_id_def inode_new_def)
  then have "inode_wf h (i_inode_id di) ?i1" by simp
  then have "inode_wf h (i_inode_id di) ?i2" using inode_wf_cleared(1) by (cases "i_deleted di = 0") simp_all
  moreover have "(h', i) = add_loaded_blocks (e_clk e) 4 (i_block_data di) (h, ?i2)"
    using assms unfolding loaded_inode_def Let_def by simp
  ultimately show ?thesis by (rule add_loaded_blocks_wf)
qed

lemma load_from_disk_wf:
  assumes "cache_wf bc" "load_from_disk e path bc = Some (Inr (bc', res))"
  shows "cache_wf bc'"
proof -
  obtain di where di: "get_latest_inode e path True bc = Some (Inr di)" using and_then_InrD [OF assms(2) [unfolded load_from_disk_def]] by blast
  show ?thesis
  proof (cases "i_mtime di = 0")
    case False
    obtain h i where hi: "loaded_inode e path di (bc_heap bc) = (h, i)" by (cases "loaded_inode e path di (bc_heap bc)")
    note w = loaded_inode_wf [OF hi]
    let ?bc1 = "bc\<lparr>bc_heap := h\<rparr>"
    have wf1: "cache_wf ?bc1" using assms(1) w by (simp add: cache_wf_heap)
    obtain bc2 upd where 2: "(if in_cache path ?bc1 = 0 then (case deref_path path ?bc1 of Inl err \<Rightarrow> Inl err
          | Inr (bc2, ident, i) \<Rightarrow> Inr (bc2, i_mtime di \<le> get_ull_mtime i)) else Inr (?bc1, False)) = Inr (bc2, upd)"
      and res: "bc' = (if \<not> upd \<or> in_cache path bc2 = -1
          then bc2\<lparr>bc_inode_idx := omap_put path (get_id i) (bc_inode_idx bc2),
                  bc_inode_ptrs := omap_put (get_id i) (Some (undo_dirty i)) (bc_inode_ptrs bc2)\<rparr> else bc2)"
      using assms(2) False unfolding load_from_disk_def di and_then_simps hi
      by (auto simp: Let_def split: sum.splits if_splits)
    have wf2: "cache_wf bc2 \<and> bc_heap bc2 = h"
      using 2 wf1 deref_wf(1,3) [OF wf1] by (auto split: if_splits sum.splits)
    have "inode_wf (bc_heap bc2) (get_id i) (undo_dirty i)" using w wf2 get_id_wf by auto
    from cache_wf_link [OF conjunct1 [OF wf2] this] wf2 show ?thesis by (simp add: res)
  qed (use assms di in \<open>simp add: load_from_disk_def\<close>)
qed

lemma cache_open_wf: "cache_wf bc \<Longrightarrow> cache_open e path bc = Some (Inr (bc', res)) \<Longrightarrow> cache_wf bc'"
  using load_from_disk_wf by (fastforce simp: cache_open_def and_then_def split: if_splits option.splits sum.splits)

lemma rename_new_wf:
  assumes "cache_wf bc" "rename_new e from' to bc = Some (Inr (bc', res))"
  shows "cache_wf bc'"
proof -
  obtain bc1 ident i where d: "deref_path from' bc = Inr (bc1, ident, i)"
    using assms(2) by (auto simp: rename_new_def split: sum.splits)
  note w = deref_wf [OF assms(1) d]
  let ?n = "inode_copy (e_hash e) (e_clk e 0) to i" and ?bc2 = "put_inode ident (delete_inode (e_clk e 1) i) bc1"
  have wf2: "cache_wf ?bc2" using cache_wf_put [OF w(1) inode_wf_cleared(1) [OF w(2)]] .
  have "inode_wf (bc_heap ?bc2) (get_id ?n) ?n" using inode_wf_self [OF inode_wf_copy [OF w(2)]] by simp
  from cache_wf_link [OF wf2 this, of to] show ?thesis
    using assms(2) d by (auto simp: rename_new_def Let_def)
qed

lemma cache_rename_wf:
  assumes "cache_wf bc" "cache_rename e from' to bc = Some (Inr (bc', res))"
  shows "cache_wf bc'"
proof -
  obtain bc1 res1 where 1: "(if in_cache from' bc = -1 then load_from_shdw (sub_env 0 e) from' bc else Some (Inr (bc, 0))) = Some (Inr (bc1, res1))"
    and r1: "(if res1 = -1 then Some (Inr (bc1, -1))
       else and_then (if in_cache to bc1 = -1 then load_from_shdw (sub_env 1 e) to bc1 else Some (Inr (bc1, res1))) (\<lambda>(bc2, res2).
         if res2 = -1
         then (case deref_path from' bc2 of
                 Inl err \<Rightarrow> Some (Inl err)
               | Inr (bc3, ident, i) \<Rightarrow>
                   rename_new (sub_env 3 e) from' to (fst (make_file (sub_env 2 e) to (get_mode i) True bc3)))
         else rename_new (sub_env 3 e) from' to bc2)) = Some (Inr (bc', res))"
    using and_then_InrD [OF assms(2) [unfolded cache_rename_def]] by auto
  have wf1: "cache_wf bc1"
    using 1 assms(1) load_from_disk_wf [OF assms(1)] by (auto simp: load_from_shdw_def split: if_splits)
  show ?thesis
  proof (cases "res1 = -1")
    case False
    then obtain bc2 res2 where 2: "(if in_cache to bc1 = -1 then load_from_shdw (sub_env 1 e) to bc1 else Some (Inr (bc1, res1))) = Some (Inr (bc2, res2))"
      and r2: "(if res2 = -1
         then (case deref_path from' bc2 of
                 Inl err \<Rightarrow> Some (Inl err)
               | Inr (bc3, ident, i) \<Rightarrow>
                   rename_new (sub_env 3 e) from' to (fst (make_file (sub_env 2 e) to (get_mode i) True bc3)))
         else rename_new (sub_env 3 e) from' to bc2) = Some (Inr (bc', res))"
      using r1 by (auto dest!: and_then_InrD)
    have wf2: "cache_wf bc2"
      using 2 wf1 load_from_disk_wf [OF wf1] by (auto simp: load_from_shdw_def split: if_splits)
    show ?thesis
    proof (cases "res2 = -1")
      case True
      then obtain bc3 ident i where d: "deref_path from' bc2 = Inr (bc3, ident, i)"
          "rename_new (sub_env 3 e) from' to (fst (make_file (sub_env 2 e) to (get_mode i) True bc3)) = Some (Inr (bc', res))"
        using r2 by (auto split: sum.splits)
      from rename_new_wf [OF make_file_wf [OF deref_wf(1) [OF wf2 d(1)]] d(2)] show ?thesis .
    next
      case False
      then show ?thesis using r2 rename_new_wf [OF wf2] by simp
    qed
  qed (use r1 wf1 in simp)
qed

lemma cache_getattr_wf: "cache_wf bc \<Longrightarrow> cache_getattr e path st bc = Some (Inr (bc', st', res)) \<Longrightarrow> cache_wf bc'"
  using deref_wf(1) by (auto simp: cache_getattr_def split: if_splits sum.splits dest!: and_then_InrD)

lemma cache_readdir_wf: "cache_wf bc \<Longrightarrow> cache_readdir dir path bc = Some (Inr (bc', es)) \<Longrightarrow> cache_wf bc'"
  by (auto simp: cache_readdir_def dest!: and_then_InrD)

lemma cache_read_wf:
  assumes "cache_wf bc" "cache_read e path sz offset bc = Some (Inr (bc', buf, res))"
  shows "cache_wf bc'"
proof -
  obtain bc1 res1 where 1: "(if in_cache path bc = -1 then load_from_shdw e path bc else Some (Inr (bc, 0))) = Some (Inr (bc1, res1))"
    and r: "(case deref_path path bc1 of Inl err \<Rightarrow> Some (Inl err) | Inr (bc2, ident, i) \<Rightarrow>
           (case inode_read (bc_heap bc2) i sz offset of Inl err \<Rightarrow> Some (Inl err)
            | Inr (buf, n) \<Rightarrow> Some (Inr (bc2, buf, sint n)))) = Some (Inr (bc', buf, res))"
    using and_then_InrD [OF assms(2) [unfolded cache_read_def]] by auto
  have "cache_wf bc1" using 1 assms(1) load_from_disk_wf [OF assms(1)] by (auto simp: load_from_shdw_def split: if_splits)
  from deref_wf(1) [OF this] r show ?thesis by (auto split: sum.splits)
qed

text \<open>The cache while \<open>write\<close> runs: the inode it holds is the one the cache has under the id.\<close>

lemma write_block_wf:
  assumes "cache_wf bc" "inode_wf (bc_heap bc) ident i" "write_block e ident buf k bid cur bs amt i bc = Inr (i', bc')"
  shows "cache_wf bc'" "inode_wf (bc_heap bc') ident i'"
proof -
  have "cache_wf bc' \<and> inode_wf (bc_heap bc') ident i'"
  proof (cases "map_of (ino_blocks i) bid")
    case (Some p)
    let ?h = "(bc_heap bc)[p := fst (block_insert (bc_heap bc ! p) buf bs amt)]"
    let ?i = "i\<lparr>ino_ul_mtime := get_time (e_clk e (2 * k) 0)\<rparr>"
    have p: "p < length (bc_heap bc)" using assms(2) map_of_SomeD [OF Some] by (fastforce simp: inode_wf_def)
    have i: "inode_wf ?h ident ?i" using assms(2) by (auto simp: inode_wf_def)
    have "cache_wf (put_inode ident ?i (bc\<lparr>bc_heap := ?h\<rparr>))" using assms(1) i by (intro cache_wf_put cache_wf_heap) simp_all
    from cache_wf_dirty [OF this, of p] p i show ?thesis
      using assms(3) Some by (auto simp: write_block_def has_block_def get_block_def put_inode_def)
  next
    case None
    let ?h0 = "bc_heap bc @ [block_of (drop (unat cur) buf) bs]" and ?p = "length (bc_heap bc)"
    obtain h i1 where add: "add_block (e_clk e (2 * k)) bid ?p ?h0 i = (h, i1)" by fastforce
    have "inode_wf ?h0 ident i" using assms(2) by (rule inode_wf_mono) simp
    from inode_wf_add_block [OF this, of ?p "e_clk e (2 * k)" bid] length_add_block [of "e_clk e (2 * k)" bid ?p ?h0 i]
    have i: "inode_wf h ident i1" "length h = Suc ?p" by (simp_all add: add)
    have "cache_wf (put_inode ident i1 (bc\<lparr>bc_heap := h\<rparr>))" using assms(1) i by (intro cache_wf_put cache_wf_heap) simp_all
    from cache_wf_dirty [OF this, of ?p] i show ?thesis
      using assms(3) None add by (auto simp: write_block_def has_block_def put_inode_def Let_def)
  qed
  then show "cache_wf bc'" "inode_wf (bc_heap bc') ident i'" by simp_all
qed

lemma write_loop_wf:
  assumes "write_loop e ident buf sz offset nb k idx cur bs i bc = Some y"
  shows "cache_wf bc \<and> inode_wf (bc_heap bc) ident i \<longrightarrow> (\<forall>bc' c b. y = Inr (bc', c, b) \<longrightarrow> cache_wf bc')"
proof (rule write_loop.raw_induct [OF _ assms])
  fix f e ident buf sz offset nb k idx cur bs i bc and y :: "(block_cache \<times> u64 \<times> u64) result"
  assume IH: "\<And>e ident buf sz offset nb k idx cur bs i bc y. f e ident buf sz offset nb k idx cur bs i bc = Some y \<Longrightarrow>
      cache_wf bc \<and> inode_wf (bc_heap bc) ident i \<longrightarrow> (\<forall>bc' c b. y = Inr (bc', c, b) \<longrightarrow> cache_wf bc')"
    and body: "(if ucast (idx :: u32) < nb then
        (let curr_idx1 = cur + bs;
             blk_size1 = next_size sz curr_idx1;
             offset_amt = (if k = 0 then (if offset < get_physical_size then offset else offset mod get_physical_size) else 0)
         in case write_block e ident buf k (ucast idx) curr_idx1 blk_size1 offset_amt i bc of
              Inl err \<Rightarrow> Some (Inl err)
            | Inr (i1, bc1) \<Rightarrow> f e ident buf sz offset nb (k + 1) (idx + 1) curr_idx1 blk_size1 i1 bc1)
      else Some (Inr (bc, cur, bs))) = Some y"
  show "cache_wf bc \<and> inode_wf (bc_heap bc) ident i \<longrightarrow> (\<forall>bc' c b. y = Inr (bc', c, b) \<longrightarrow> cache_wf bc')"
  proof (intro impI)
    assume wf: "cache_wf bc \<and> inode_wf (bc_heap bc) ident i"
    show "\<forall>bc' c b. y = Inr (bc', c, b) \<longrightarrow> cache_wf bc'"
    proof (cases "ucast idx < nb")
      case True
      let ?amt = "if k = 0 then (if offset < get_physical_size then offset else offset mod get_physical_size) else 0"
      let ?w = "write_block e ident buf k (ucast idx) (cur + bs) (next_size sz (cur + bs)) ?amt i bc"
      show ?thesis
      proof (cases ?w)
        case (Inl err)
        then show ?thesis using body True by (auto simp: Let_def)
      next
        case (Inr r)
        obtain i1 bc1 where r: "r = (i1, bc1)" by (cases r)
        have "f e ident buf sz offset nb (k + 1) (idx + 1) (cur + bs) (next_size sz (cur + bs)) i1 bc1 = Some y"
          using body True Inr r by (auto simp: Let_def)
        from IH [OF this] write_block_wf [OF _ _ Inr [unfolded r]] wf show ?thesis by blast
      qed
    qed (use body wf in auto)
  qed
qed

lemma cache_write_wf:
  assumes "cache_wf bc" "cache_write e path buf sz offset bc = Some (Inr (bc', res))"
  shows "cache_wf bc'"
proof -
  obtain bc1 res1 where 1: "(if in_cache path bc = -1 then load_from_shdw (sub_env 0 e) path bc
        else Some (map_sum id (\<lambda>bc1. (bc1, 0)) (on_inode path (remake_inode \<circ> inode_set_dirty) bc))) = Some (Inr (bc1, res1))"
    and r: "res1 = -1 \<and> bc' = bc1 \<or> (\<exists>bc2 ident i i1 y. deref_path path bc1 = Inr (bc2, ident, i)
        \<and> i1 = (if get_size i < sz + offset then set_size (e_clk e 1) (sz + offset) i else i)
        \<and> write_loop (sub_env 2 e) ident buf sz offset (ulong_ceil (sz + offset) get_physical_size) 0
             (ucast (offset div get_physical_size)) 0 0 i1 (put_inode ident i1 bc2) = Some (Inr y)
        \<and> bc' = fst y\<lparr>bc_has_changed := True\<rparr>)"
    using and_then_InrD [OF assms(2) [unfolded cache_write_def]]
    by (fastforce simp: Let_def split: if_splits sum.splits dest!: and_then_InrD)
  have wf1: "cache_wf bc1"
    using 1 assms(1) load_from_disk_wf [OF assms(1)] on_inode_wf [OF assms(1), of path "remake_inode \<circ> inode_set_dirty"]
    by (auto simp: load_from_shdw_def map_sum_def split: if_splits sum.splits)
  from r show ?thesis
  proof (elim disjE exE conjE)
    fix bc2 ident i i1 y
    assume d: "deref_path path bc1 = Inr (bc2, ident, i)"
      and i1: "i1 = (if get_size i < sz + offset then set_size (e_clk e 1) (sz + offset) i else i)"
      and w: "write_loop (sub_env 2 e) ident buf sz offset (ulong_ceil (sz + offset) get_physical_size) 0
             (ucast (offset div get_physical_size)) 0 0 i1 (put_inode ident i1 bc2) = Some (Inr y)"
      and bc': "bc' = fst y\<lparr>bc_has_changed := True\<rparr>"
    have "inode_wf (bc_heap bc2) ident i1" using deref_wf(2) [OF wf1 d] i1 by simp
    then show ?thesis
      using write_loop_wf [OF w] cache_wf_put [OF deref_wf(1) [OF wf1 d]] bc' by (cases y) simp
  qed (use wf1 in simp)
qed

lemma cache_wf_touch:
  assumes "cache_wf bc"
  shows "cache_wf (bc\<lparr>bc_dirty_block := touch ident (bc_dirty_block bc),
    bc_dirty_block_mtime := touch ident (bc_dirty_block_mtime bc)\<rparr>)"
  using assms by (auto simp: cache_wf_def touch_def omap_put_sorted omap_put_find dirty_wf_def split: option.splits)

lemma flush_inodes_wf: "cache_wf bc \<Longrightarrow> flush_inodes es bc fl = Some (Inr (bc', fl')) \<Longrightarrow> cache_wf bc'"
proof (induction es bc fl rule: flush_inodes.induct)
  case (2 path ident rest bc fl)
  obtain bc1 ident1 i where d: "deref_path path bc = Inr (bc1, ident1, i)"
    using 2(3) by (auto split: sum.splits)
  let ?bc2 = "bc1\<lparr>bc_dirty_block := touch ident (bc_dirty_block bc1), bc_dirty_block_mtime := touch ident (bc_dirty_block_mtime bc1)\<rparr>"
  have "cache_wf ?bc2" using cache_wf_touch [OF deref_wf(1) [OF 2(2) d]] .
  moreover obtain fl1 where "flush_inodes rest ?bc2 fl1 = Some (Inr (bc', fl'))"
    using 2(3) d by (auto simp: Let_def dest!: and_then_InrD)
  ultimately show ?case using 2(1) [OF d refl refl refl] by blast
qed simp

lemma flush_to_disk_wf:
  assumes "cache_wf bc" "flush_to_disk e bc = Some (Inr (bc', f, res))"
  shows "cache_wf bc'"
proof (cases "bc_has_changed bc")
  case True
  then obtain bc1 fl where "flush_inodes (bc_inode_idx bc) bc (BPLUSIndex (e_os e) (e_rand e) (int (length (bc_inode_idx bc)))
             (uint (dirty_size bc)) (uint (dirty_count bc)) (uint (path_size bc))) = Some (Inr (bc1, fl))"
      "bc' = bc1\<lparr>bc_inode_idx := [], bc_inode_ptrs := [], bc_dirty_block := [], bc_size := 0\<rparr>"
    using assms(2) by (auto simp: flush_to_disk_def dest!: and_then_InrD)
  then show ?thesis using flush_inodes_wf [OF assms(1)] by (auto simp: cache_wf_def)
qed (use assms in \<open>simp add: flush_to_disk_def\<close>)

section \<open>Reachable states\<close>

text \<open>One operation, whatever the environment and the directory on disk are at that time.\<close>

inductive cache_step :: "block_cache \<Rightarrow> block_cache \<Rightarrow> bool" where
  step_make_file: "cache_step bc (fst (make_file e path mode dirty bc))"
| step_remove: "cache_remove e path bc = Inr (bc', res) \<Longrightarrow> cache_step bc bc'"
| step_rmdir: "cache_rmdir e path bc = Inr (bc', res) \<Longrightarrow> cache_step bc bc'"
| step_rename: "cache_rename e from' to bc = Some (Inr (bc', res)) \<Longrightarrow> cache_step bc bc'"
| step_symlink: "cache_step bc (fst (cache_symlink e from' to bc))"
| step_readlink: "cache_readlink path sz bc = Inr (bc', buf, res) \<Longrightarrow> cache_step bc bc'"
| step_getattr: "cache_getattr e path st bc = Some (Inr (bc', st', res)) \<Longrightarrow> cache_step bc bc'"
| step_readdir: "cache_readdir dir path bc = Some (Inr (bc', es)) \<Longrightarrow> cache_step bc bc'"
| step_write: "cache_write e path buf sz offset bc = Some (Inr (bc', res)) \<Longrightarrow> cache_step bc bc'"
| step_read: "cache_read e path sz offset bc = Some (Inr (bc', buf, res)) \<Longrightarrow> cache_step bc bc'"
| step_truncate: "cache_truncate e path sz bc = Inr (bc', res) \<Longrightarrow> cache_step bc bc'"
| step_open: "cache_open e path bc = Some (Inr (bc', res)) \<Longrightarrow> cache_step bc bc'"
| step_get_refs: "cache_get_refs path bc = Inr (bc', refs) \<Longrightarrow> cache_step bc bc'"
| step_flush: "flush_to_shdw e on_close bc = Some (Inr (bc', f, res)) \<Longrightarrow> cache_step bc bc'"

inductive cache_reachable :: "block_cache \<Rightarrow> bool" where
  reach_new: "cache_reachable (BlockCache size0 junk dir path)"
| reach_step: "cache_reachable bc \<Longrightarrow> cache_step bc bc' \<Longrightarrow> cache_reachable bc'"

lemmas cache_op_wf = make_file_wf cache_remove_wf cache_rmdir_wf cache_rename_wf cache_symlink_wf cache_readlink_wf
  cache_getattr_wf cache_readdir_wf cache_write_wf cache_read_wf cache_truncate_wf cache_open_wf cache_get_refs_wf
  flush_to_disk_wf

lemma cache_step_wf: "cache_step bc bc' \<Longrightarrow> cache_wf bc \<Longrightarrow> cache_wf bc'"
  by (induction rule: cache_step.induct) (auto simp: flush_to_shdw_def split: if_splits intro: cache_op_wf)

lemma reachable_wf: "cache_reachable bc \<Longrightarrow> cache_wf bc"
proof (induction rule: cache_reachable.induct)
  case (reach_new size0 junk dir path)
  show ?case by (simp add: BlockCache_def Let_def cache_wf_def)
qed (rule cache_step_wf)

text \<open>A reachable cache that has a file, for the witnesses.\<close>

definition sample_env :: env where
  "sample_env = \<lparr>e_hash = (\<lambda>_. [1]), e_clk = (\<lambda>_ _. \<lparr>tv_sec = 5, tv_nsec = 0\<rparr>), e_mode0 = 0, e_os = (\<lambda>_. 0), e_rand = []\<rparr>"

definition sample_cache :: block_cache where
  "sample_cache = fst (make_file sample_env ''/f'' 0x81A4 True (BlockCache 0 undefined [] ''d/''))"

lemma sample_cache_reachable: "cache_reachable sample_cache"
  unfolding sample_cache_def by (rule reach_step [OF reach_new step_make_file])

lemma sample_cache_fields:
  "bc_inode_idx sample_cache = [(''/f'', ''01'')]"
  "bc_inode_ptrs sample_cache = [(''01'', Some (inode_set_dirty (set_mode (e_clk sample_env 1) 0x81A4
     (inode_new (e_hash sample_env) (e_clk sample_env 0) 0 ''/f''))))]"
  "bc_has_changed sample_cache" "bc_dirty_block sample_cache = []" "bc_dirty_block_mtime sample_cache = []"
  "bc_heap sample_cache = []"
proof -
  have "get_id (inode_set_dirty (set_mode (e_clk sample_env 1) 0x81A4 (inode_new (e_hash sample_env) (e_clk sample_env 0) 0 ''/f''))) = ''01''"
    by (simp add: get_id_def inode_set_dirty_def set_mode_def Let_def inode_new_def sample_env_def sample_hash)
  then show "bc_inode_idx sample_cache = [(''/f'', ''01'')]"
    "bc_inode_ptrs sample_cache = [(''01'', Some (inode_set_dirty (set_mode (e_clk sample_env 1) 0x81A4
     (inode_new (e_hash sample_env) (e_clk sample_env 0) 0 ''/f''))))]"
    "bc_has_changed sample_cache" "bc_dirty_block sample_cache = []" "bc_dirty_block_mtime sample_cache = []"
    "bc_heap sample_cache = []"
    by (simp_all add: sample_cache_def make_file_def BlockCache_def Let_def sample_env_def)
qed

lemma dec_links_total: "\<forall>(ident, p) \<in> set ptrs. p \<noteq> None \<Longrightarrow> \<exists>ptrs'. dec_links path ptrs = Inr ptrs'"
  by (induction path ptrs rule: dec_links.induct) auto

lemma on_inode_cached:
  assumes "map_of (bc_inode_idx bc) path = Some ident" "map_of (bc_inode_ptrs bc) ident = Some (Some i)"
  shows "on_inode path f bc = Inr (put_inode ident (f i) bc)"
  using assms by (simp add: on_inode_def deref_path_def get_inode_by_path_def)

lemma delete_dec_link: "delete_inode clk (dec_link path i) = delete_inode clk i"
  by (simp add: delete_inode_def update_mtime_def dec_link_def Let_def)

lemma remove_cached:
  assumes "cache_wf bc" "map_of (bc_inode_idx bc) path = Some ident" "map_of (bc_inode_ptrs bc) ident = Some (Some i)"
  shows "\<exists>bc'. cache_remove e path bc = Inr (bc', 0) \<and> bc_inode_idx bc' = bc_inode_idx bc
    \<and> map_of (bc_inode_ptrs bc') ident = Some (Some (delete_inode (e_clk e 0) i))"
proof -
  have "q \<noteq> None" if q: "(id', q) \<in> set (bc_inode_ptrs bc)" for id' q
  proof -
    have "distinct (map fst (bc_inode_ptrs bc))" using assms(1) by (simp add: cache_wf_def strict_sorted_iff)
    then have "map_of (bc_inode_ptrs bc) id' = Some q" using q by (rule map_of_is_SomeI)
    then show ?thesis using assms(1) unfolding cache_wf_def by blast
  qed
  then have "\<forall>(ident, p) \<in> set (bc_inode_ptrs bc). p \<noteq> None" by blast
  then obtain ptrs where ptrs: "dec_links path (bc_inode_ptrs bc) = Inr ptrs" using dec_links_total by blast
  let ?i = "if path \<in> set (get_refs i) then dec_link path i else i"
  have "map_of ptrs ident = Some (Some ?i)" using dec_links_map [OF ptrs, of ident] assms(3) by simp
  then have "on_inode path (delete_inode (e_clk e 0)) (bc\<lparr>bc_inode_ptrs := ptrs\<rparr>)
      = Inr (put_inode ident (delete_inode (e_clk e 0) i) (bc\<lparr>bc_inode_ptrs := ptrs\<rparr>))"
    using on_inode_cached [of "bc\<lparr>bc_inode_ptrs := ptrs\<rparr>" path ident ?i] assms(2) delete_dec_link by auto
  then show ?thesis
    using ptrs assms(2) by (simp add: cache_remove_def in_cache_def put_inode_def omap_put_find)
qed

lemma getattr_cached:
  assumes "map_of (bc_inode_idx bc) path = Some ident" "map_of (bc_inode_ptrs bc) ident = Some (Some i)"
  shows "cache_getattr e path st bc = Some (Inr (bc, inode_stat i, 0))"
  using assms by (simp add: cache_getattr_def in_cache_def deref_path_def get_inode_by_path_def)

text \<open>What \<open>readdir\<close> keeps of the entries it is given: of every path the newest.\<close>

definition newest_entries :: "index_entry list \<Rightarrow> (string \<times> index_entry) list \<Rightarrow> bool" where
  "newest_entries es m \<longleftrightarrow> keys_sorted m \<and> fst ` set m = ie_path ` set es
     \<and> (\<forall>(k, x) \<in> set m. ie_path x = k \<and> x \<in> set es \<and> (\<forall>y \<in> set es. ie_path y = k \<longrightarrow> ie_mtime y \<le> ie_mtime x))"

lemma newest_entries_put:
  assumes "newest_entries es m" "\<forall>y \<in> set es. ie_path y = ie_path x \<longrightarrow> ie_mtime y \<le> ie_mtime x"
  shows "newest_entries (es @ [x]) (omap_put (ie_path x) x m)"
proof -
  have m: "keys_sorted m" "fst ` set m = ie_path ` set es" using assms(1) by (simp_all add: newest_entries_def)
  have "ie_path z = k \<and> z \<in> set (es @ [x]) \<and> (\<forall>y \<in> set (es @ [x]). ie_path y = k \<longrightarrow> ie_mtime y \<le> ie_mtime z)"
    if kz: "(k, z) \<in> set (omap_put (ie_path x) x m)" for k z
  proof (cases "k = ie_path x")
    case True
    then have "z = x" using kz omap.set_put [OF m(1), of "ie_path x" x] by auto
    then show ?thesis using True assms(2) by auto
  next
    case False
    then have "(k, z) \<in> set m" using kz omap.set_put [OF m(1), of "ie_path x" x] by auto
    then show ?thesis using False assms(1) by (auto simp: newest_entries_def)
  qed
  moreover have "fst ` set (omap_put (ie_path x) x m) = ie_path ` set (es @ [x])" using m(2) by (simp add: omap.dom_put)
  moreover have "keys_sorted (omap_put (ie_path x) x m)" using m(1) by (rule omap_put_sorted)
  ultimately show ?thesis unfolding newest_entries_def by blast
qed

lemma newest_entries_step:
  assumes "newest_entries es m"
  shows "newest_entries (es @ [x]) (newer_entry x m)"
proof (cases "map_of m (ie_path x)")
  case None
  then have "ie_path x \<notin> ie_path ` set es" using assms by (simp add: map_of_eq_None_iff newest_entries_def)
  then have "\<forall>y \<in> set es. ie_path y = ie_path x \<longrightarrow> ie_mtime y \<le> ie_mtime x" by (metis imageI)
  from newest_entries_put [OF assms this] show ?thesis using None by (simp add: newer_entry_def)
next
  case (Some old)
  then have old: "(ie_path x, old) \<in> set m" by (rule map_of_SomeD)
  have le: "\<forall>y \<in> set es. ie_path y = ie_path x \<longrightarrow> ie_mtime y \<le> ie_mtime old" using assms old by (auto simp: newest_entries_def)
  show ?thesis
  proof (cases "ie_mtime x < ie_mtime old")
    case True
    have "keys_sorted m" using assms by (simp add: newest_entries_def)
    then have "distinct (map fst m)" by (rule omap.ok_distinct)
    then have uniq: "z = old" if "(ie_path x, z) \<in> set m" for z using that Some by simp
    have "fst ` set m = ie_path ` set es" using assms by (simp add: newest_entries_def)
    then have "ie_path x \<in> ie_path ` set es" using imageI [OF old, of fst] by simp
    then have "ie_path ` set (es @ [x]) = ie_path ` set es" by auto
    then have keys: "fst ` set m = ie_path ` set (es @ [x])" using \<open>fst ` set m = ie_path ` set es\<close> by simp
    have "ie_mtime x \<le> ie_mtime old" using True by simp
    then have "ie_path z = k \<and> z \<in> set (es @ [x]) \<and> (\<forall>y \<in> set (es @ [x]). ie_path y = k \<longrightarrow> ie_mtime y \<le> ie_mtime z)"
      if kz: "(k, z) \<in> set m" for k z
    proof -
      have "ie_path z = k" "z \<in> set es" "\<forall>y \<in> set es. ie_path y = k \<longrightarrow> ie_mtime y \<le> ie_mtime z"
        using assms kz by (auto simp: newest_entries_def)
      moreover have "ie_path x = k \<longrightarrow> ie_mtime x \<le> ie_mtime z" using uniq kz \<open>ie_mtime x \<le> ie_mtime old\<close> by auto
      ultimately show ?thesis by simp
    qed
    then have "\<forall>(k, z) \<in> set m. ie_path z = k \<and> z \<in> set (es @ [x])
        \<and> (\<forall>y \<in> set (es @ [x]). ie_path y = k \<longrightarrow> ie_mtime y \<le> ie_mtime z)" by blast
    then have "newest_entries (es @ [x]) m"
      unfolding newest_entries_def using \<open>keys_sorted m\<close> keys by (intro conjI)
    then show ?thesis using True Some by (simp add: newer_entry_def)
  next
    case False
    then have "\<forall>y \<in> set es. ie_path y = ie_path x \<longrightarrow> ie_mtime y \<le> ie_mtime x" using le by (meson linorder_not_less order_trans)
    from newest_entries_put [OF assms this] show ?thesis using False Some by (simp add: newer_entry_def)
  qed
qed

lemma newest_entries_fold: "newest_entries es m \<Longrightarrow> newest_entries (es @ es') (fold newer_entry es' m)"
proof (induction es' arbitrary: es m)
  case (Cons x es')
  then show ?case using Cons.IH [OF newest_entries_step] by simp
qed simp

section \<open>Properties\<close>

text \<open>
  (C8) The structural invariant of the cache holds in every state that any sequence of its
  operations reaches from a new cache: the maps are in key order without duplicates, every
  path leads to an inode that is there, the id of an inode is its key, and every block an
  inode or the dirty map refers to exists.
\<close>

theorem cache_invariant:
  assumes "cache_reachable bc"
  shows "cache_wf bc"
  using assms by (rule reachable_wf)

theorem cache_invariant_witness: "cache_wf sample_cache \<and> bc_inode_idx sample_cache = [(''/f'', ''01'')]"
  using cache_invariant [OF sample_cache_reachable] sample_cache_fields(1) by simp



text \<open>
  A removed file stays visible: after \<open>remove\<close> or \<open>rmdir\<close> of a path in the cache,
  \<open>getattr\<close> still succeeds with a link count of 0 instead of \<open>-ENOENT\<close>, since neither
  \<open>in_cache\<close> nor \<open>getattr\<close> looks at the deletion mark.
\<close>

theorem removed_still_visible:
  assumes "cache_reachable bc" "map_of (bc_inode_idx bc) path = Some ident"
  shows "\<exists>bc' st'. cache_remove e path bc = Inr (bc', 0) \<and> in_cache path bc' = 0
    \<and> cache_getattr e' path st bc' = Some (Inr (bc', st', 0)) \<and> st_nlink st' = 0 \<and> st_blocks st' = 0"
proof -
  note wf = reachable_wf [OF assms(1)]
  obtain i where i: "map_of (bc_inode_ptrs bc) ident = Some (Some i)" using deref_cached [OF wf assms(2)] by blast
  obtain bc' where bc': "cache_remove e path bc = Inr (bc', 0)" "bc_inode_idx bc' = bc_inode_idx bc"
      "map_of (bc_inode_ptrs bc') ident = Some (Some (delete_inode (e_clk e 0) i))"
    using remove_cached [OF wf assms(2) i] by blast
  have "cache_getattr e' path st bc' = Some (Inr (bc', inode_stat (delete_inode (e_clk e 0) i), 0))"
    using getattr_cached [of bc' path ident] bc'(2,3) assms(2) by simp
  then show ?thesis using bc'(1,2) assms(2)
    by (auto simp: in_cache_def inode_stat_def delete_inode_def update_mtime_def)
qed

theorem removed_still_visible_witness:
  "\<exists>bc' st'. cache_remove sample_env ''/f'' sample_cache = Inr (bc', 0)
    \<and> cache_getattr sample_env ''/f'' (inode_stat (sample_inode [])) bc' = Some (Inr (bc', st', 0)) \<and> st_nlink st' = 0"
  using removed_still_visible [OF sample_cache_reachable, of "''/f''" "''01''" sample_env sample_env "inode_stat (sample_inode [])"] sample_cache_fields(1) by auto

text \<open>
  (C29) A symbolic link destroys the file it points to: \<open>symlink from to\<close> makes an inode with
  the id of \<open>from\<close> and puts it under that id. When \<open>from\<close> is a file in the cache (under its
  own id), its inode is replaced: both paths now lead to a link without blocks and of size 0.
\<close>

theorem symlink_destroys_target:
  assumes "map_of (bc_inode_idx bc) from' = Some (crypto_hash (e_hash e) from')"
  shows "\<exists>bc' l. cache_symlink e from' to bc = (bc', 0)
    \<and> cache_getattr e' from' st bc' = Some (Inr (bc', inode_stat l, 0)) \<and> cache_getattr e' to st bc' = Some (Inr (bc', inode_stat l, 0))
    \<and> get_mode l = LINK_MODE \<and> get_size l = 0 \<and> ino_blocks l = [] \<and> get_path l = from'"
proof -
  let ?l = "set_mode (e_clk e 1) LINK_MODE (inode_new (e_hash e) (e_clk e 0) (e_mode0 e) from')"
  let ?bc' = "fst (cache_symlink e from' to bc)"
  have l: "get_id ?l = crypto_hash (e_hash e) from'" by (simp add: get_id_def set_mode_def Let_def inode_new_def)
  have "map_of (bc_inode_idx ?bc') from' = Some (get_id ?l)" "map_of (bc_inode_idx ?bc') to = Some (get_id ?l)"
      "map_of (bc_inode_ptrs ?bc') (get_id ?l) = Some (Some ?l)"
    using assms l by (simp_all add: cache_symlink_def Let_def omap_put_find)
  then show ?thesis
    using getattr_cached [of ?bc' from' "get_id ?l"] getattr_cached [of ?bc' to "get_id ?l"]
    by (intro exI [of _ ?bc'] exI [of _ ?l])
      (simp add: cache_symlink_def Let_def set_mode_def inode_new_def get_mode_def get_size_def get_path_def)
qed

theorem symlink_destroys_target_witness:
  "\<exists>bc' l. cache_symlink sample_env ''/f'' ''/l'' sample_cache = (bc', 0)
    \<and> cache_getattr sample_env ''/f'' (inode_stat (sample_inode [])) bc' = Some (Inr (bc', inode_stat l, 0)) \<and> get_mode l = LINK_MODE"
  using symlink_destroys_target [of sample_cache "''/f''" sample_env "''/l''" sample_env "inode_stat (sample_inode [])"] sample_cache_fields(1)
  by (auto simp: sample_env_def sample_hash)

text \<open>
  (C23) A new cache cannot read the trees on disk: the constructor copies a temporary loader
  whose destructor unmaps every file. With at least one tree file, \<open>getattr\<close>, \<open>open\<close>, \<open>read\<close>
  and \<open>write\<close> of any path but the root access unmapped memory, until a \<open>readdir\<close> has
  mapped the files again.
\<close>

theorem mounted_trees_unmapped:
  assumes "(ent, img) \<in> set dir" "take 5 ent = ''TREE-''" "path \<noteq> []" "path \<noteq> ''/''" "bc = BlockCache size0 junk dir p"
  shows "cache_getattr e path st bc = Some (Inl Unmapped) \<and> cache_open e path bc = Some (Inl Unmapped)
    \<and> cache_read e path sz off' bc = Some (Inl Unmapped) \<and> cache_write e path buf sz off' bc = Some (Inl Unmapped)"
proof -
  let ?q = "p @ ''root/''"
  let ?kvs = "map (\<lambda>(ent, img). (?q @ ent, Some img)) (tree_files dir)"
  have "(ent, img) \<in> set (tree_files dir)" using assms(1,2) by (simp add: tree_files_def)
  then have "(?q @ ent, Some img) \<in> set ?kvs" by force
  then have "fst (?q @ ent, Some img) \<in> fst ` set (rev ?kvs)" unfolding set_rev by (rule imageI)
  then have "?q @ ent \<in> fst ` set (rev ?kvs)" by (simp only: fst_conv)
  then have hit: "map_of (rev ?kvs) (?q @ ent) \<noteq> None" using map_of_eq_None_iff [of "rev ?kvs" "?q @ ent"] by blast
  have "ld_mem (BPLUSIndexLoader junk dir ?q) = fold (\<lambda>(k, v). AList.update k v) ?kvs []"
    by (simp add: BPLUSIndexLoader_def load_trees_fold)
  then have all: "map_of (ld_mem (BPLUSIndexLoader junk dir ?q)) = map_of (rev ?kvs)"
    by (simp only: umap.find_put_all map_of.simps(1) empty_map_add)
  have "map_of (ld_mem (BPLUSIndexLoader junk dir ?q)) (?q @ ent) \<noteq> None" unfolding all by (rule hit)
  then have "ld_mem (BPLUSIndexLoader junk dir ?q) \<noteq> []" by auto
  then obtain f m rest where mem: "ld_mem (BPLUSIndexLoader junk dir (p @ ''root/'')) = (f, m) # rest"
    by (cases "ld_mem (BPLUSIndexLoader junk dir (p @ ''root/''))") auto
  then have "find_latest_inode gh (bc_loader bc) path w = Some (Inl Unmapped)" for gh w
    using assms(3,5) by (simp add: find_latest_inode_def BlockCache_def Let_def)
  moreover have "in_cache path bc = -1" using assms(4,5) by (simp add: in_cache_def BlockCache_def Let_def)
  ultimately show ?thesis
    by (simp add: cache_getattr_def cache_open_def cache_read_def cache_write_def load_from_shdw_def load_from_disk_def
        get_latest_inode_def)
qed

theorem mounted_trees_unmapped_witness:
  "cache_getattr sample_env ''/f'' (inode_stat (sample_inode [])) (BlockCache 0 undefined [(''TREE-1'', zero_image)] ''d/'') = Some (Inl Unmapped)"
  using mounted_trees_unmapped [of "''TREE-1''" zero_image "[(''TREE-1'', zero_image)]" "''/f''"] by simp

text \<open>
  \<open>readdir\<close> of the cache lists every child of the directory that any tree file has, once,
  in path order, in its newest version.
\<close>

lemma readdir_newest:
  assumes "no_stale dir (bc_loader bc)" "\<forall>(ent, img) \<in> set (tree_files dir). tree_readable img (J ent)"
    "E = (\<Union>(ent, img) \<in> set (tree_files dir). index_entry_of ` set (filter (child_of path) (J ent)))"
  shows "\<exists>es. cache_readdir dir path bc = Some (Inr (bc\<lparr>bc_loader := load_trees dir (bc_loader bc)\<rparr>, es))
    \<and> sorted_wrt (<) (map ie_path es) \<and> ie_path ` set es = ie_path ` E
    \<and> (\<forall>x \<in> set es. x \<in> E \<and> (\<forall>y \<in> E. ie_path y = ie_path x \<longrightarrow> ie_mtime y \<le> ie_mtime x))"
proof -
  obtain names where n: "get_children dir (bc_loader bc) path = Some (Inr (load_trees dir (bc_loader bc), names))" "set names = E"
    using get_children_set [OF assms(1,2), of path, folded assms(3)] by (elim exE conjE) (rule that)
  let ?m = "fold newer_entry names []"
  have new: "newest_entries names ?m" using newest_entries_fold [of "[]" "[]" names] by (simp add: newest_entries_def)
  have paths: "map ie_path (map snd ?m) = map fst ?m" using new by (auto simp: newest_entries_def)
  have "cache_readdir dir path bc = Some (Inr (bc\<lparr>bc_loader := load_trees dir (bc_loader bc)\<rparr>, map snd ?m))"
    using n(1) by (simp add: cache_readdir_def)
  moreover have "sorted_wrt (<) (map ie_path (map snd ?m))" unfolding paths using new by (simp add: newest_entries_def)
  moreover have "ie_path ` set (map snd ?m) = ie_path ` E"
    using new n(2) unfolding newest_entries_def by (metis list.set_map paths)
  moreover have "\<forall>x \<in> set (map snd ?m). x \<in> E \<and> (\<forall>y \<in> E. ie_path y = ie_path x \<longrightarrow> ie_mtime y \<le> ie_mtime x)"
    using new n(2) by (auto simp: newest_entries_def)
  ultimately show ?thesis by blast
qed


text \<open>
  The block count \<open>getattr\<close> computes for a file on disk is never the number of blocks of
  the file: the remainder is compared with \<open>==\<close> instead of \<open>!=\<close>, so the count is one too high
  when the size is a multiple of the block size and one too low otherwise.
\<close>

lemma getattr_block_count:
  assumes "in_cache path bc = -1" "get_latest_inode e path False bc = Some (Inr di)" "i_mtime di \<noteq> 0"
  shows "\<exists>st'. cache_getattr e path st bc = Some (Inr (bc, st', 0)) \<and> st_size st' = i_size di
    \<and> (if SIZE dvd unat (i_size di) then st_blocks st' = unat (ulong_ceil (i_size di) get_physical_size) + 1
       else st_blocks st' + 1 = unat (ulong_ceil (i_size di) get_physical_size))"
proof -
  let ?s = "i_size di"
  have SZ: "unat get_physical_size = SIZE" "(get_physical_size :: u64) \<noteq> 0" by (simp_all add: get_physical_size_def)
  have mod0: "?s mod get_physical_size = 0 \<longleftrightarrow> SIZE dvd unat ?s"
    by (metis SZ(1) mod_eq_0_iff_dvd unat_eq_zero unat_mod_distrib)
  have dv: "unat (?s div get_physical_size) = unat ?s div SIZE" by (simp add: unat_div_distrib SZ(1))
  have "unat ?s < 2 ^ 64" using unsigned_less [of ?s] by simp
  then have "unat (?s div get_physical_size + 1) = unat ?s div SIZE + 1"
    using dv by (subst unat_add_small) auto
  moreover have "unat (ulong_ceil ?s get_physical_size) = (unat ?s + SIZE - 1) div SIZE"
    using unat_ulong_ceil [OF SZ(2), of ?s] SZ(1) by simp
  moreover have "(unat ?s + SIZE - 1) div SIZE = (if SIZE dvd unat ?s then unat ?s div SIZE else unat ?s div SIZE + 1)"
    using ceil_div_nat [of SIZE "unat ?s"] by (simp add: dvd_eq_mod_eq_0)
  ultimately show ?thesis using assms mod0 dv by (auto simp: cache_getattr_def)
qed


end
