(* ===== verification/Cache_Write.thy ===== *)
theory Cache_Write
  imports Cache_Inv
begin

text \<open>
  The loop of \<open>BlockCache::write\<close>: it is a fold over its rounds, ends for files below 16 TiB
  and not beyond, appends correctly at a block boundary, overwrites correctly inside one block,
  and repeats the first block of the buffer when it overwrites several.
\<close>

section \<open>The loop as a fold\<close>

lemma write_block_total: "\<exists>i' bc'. write_block e ident buf k bid cur bs amt i bc = Inr (i', bc')"
  by (auto simp: write_block_def has_block_def get_block_def Let_def split: option.split prod.split)

definition first_amt :: "u64 \<Rightarrow> nat \<Rightarrow> u64" where
  "first_amt offset k = (if k = 0 then (if offset < get_physical_size then offset else offset mod get_physical_size) else 0)"

text \<open>Round \<open>k\<close> of a write of \<open>n\<close> bytes whose first block has the number \<open>b0\<close>.\<close>

definition write_round :: "env \<Rightarrow> string \<Rightarrow> u8 list \<Rightarrow> nat \<Rightarrow> u64 \<Rightarrow> nat \<Rightarrow> nat \<Rightarrow> inode \<times> block_cache \<Rightarrow> inode \<times> block_cache" where
  "write_round e ident buf n offset b0 k = (\<lambda>(i, bc).
     projr (write_block e ident buf k (of_nat (b0 + k)) (of_nat (min (k * SIZE) n))
       (of_nat (min ((k + 1) * SIZE) n - min (k * SIZE) n)) (first_amt offset k) i bc))"

lemma next_size_min:
  assumes "n < 2 ^ 60" "k * SIZE < 2 ^ 60"
  shows "next_size (of_nat n) (of_nat (min (k * SIZE) n)) = of_nat (min ((k + 1) * SIZE) n - min (k * SIZE) n)"
proof -
  let ?c = "min (k * SIZE) n"
  have u: "unat (of_nat n :: u64) = n" "unat (of_nat ?c :: u64) = ?c" using assms by (simp_all add: unat_of_nat take_bit_nat_eq_self min_def)
  have "unat ((of_nat ?c :: u64) + get_physical_size) = ?c + SIZE"
    using u(2) assms by (subst unat_add_small) (simp_all add: get_physical_size_def)
  then have lt: "(of_nat n :: u64) < of_nat ?c + get_physical_size \<longleftrightarrow> n < ?c + SIZE" using u(1) by (simp add: word_less_nat_alt)
  show ?thesis
  proof (cases "n < ?c + SIZE")
    case True
    then have "min ((k + 1) * SIZE) n - ?c = n - ?c" by (auto simp: min_def)
    moreover have "(of_nat n :: u64) - of_nat ?c = of_nat (n - ?c)" by (simp add: of_nat_diff)
    ultimately show ?thesis using True lt by (simp add: next_size_def)
  next
    case False
    then have "k * SIZE \<le> n" by (cases "k * SIZE \<le> n") (simp_all add: min_def)
    then have "min ((k + 1) * SIZE) n - ?c = SIZE" using False by (simp add: min_def)
    moreover have "\<not> (of_nat n :: u64) < of_nat ?c + get_physical_size" using lt False by blast
    moreover have "(of_nat SIZE :: u64) = get_physical_size" by (simp add: get_physical_size_def)
    ultimately show ?thesis by (simp only: next_size_def if_False)
  qed
qed

lemma write_loop_fold:
  assumes "b0 + k + m = nb" "nb < 2 ^ 32" "n < 2 ^ 60" "cur + bs = of_nat (min (k * SIZE) n)"
  shows "\<exists>cur' bs'. write_loop e ident buf (of_nat n) offset (of_nat nb) k (of_nat (b0 + k)) cur bs i bc
      = Some (Inr (snd (fold (write_round e ident buf n offset b0) [k..<k + m] (i, bc)), cur', bs'))
    \<and> cur' + bs' = of_nat (min ((k + m) * SIZE) n)"
  using assms(1,4)
proof (induction m arbitrary: k cur bs i bc)
  case 0
  have "(ucast (of_nat nb :: u32) :: u64) = of_nat nb"
    by (rule word_unat_eq_iff [THEN iffD2]) (use assms(2) in \<open>simp add: unat_of_nat take_bit_nat_eq_self\<close>)
  then show ?case using 0 by (subst write_loop.simps) simp
next
  case (Suc m)
  have small: "b0 + k < 2 ^ 32" "nb < 2 ^ 64" using Suc.prems(1) assms(2) by simp_all
  have idx: "(ucast (of_nat (b0 + k) :: u32) :: u64) = of_nat (b0 + k)"
    by (rule word_unat_eq_iff [THEN iffD2]) (use small in \<open>simp add: unat_of_nat take_bit_nat_eq_self del: of_nat_add\<close>)
  have "unat (of_nat (b0 + k) :: u64) = b0 + k" "unat (of_nat nb :: u64) = nb"
    using small by (simp_all add: unat_of_nat take_bit_nat_eq_self del: of_nat_add)
  then have lt: "(of_nat (b0 + k) :: u64) < of_nat nb" using Suc.prems(1) by (simp add: word_less_nat_alt del: of_nat_add)
  have kS: "k * SIZE < 2 ^ 60" using small(1) by simp
  note nx = next_size_min [OF assms(3) kS]
  let ?c = "min (k * SIZE) n" and ?c' = "min ((k + 1) * SIZE) n"
  obtain i1 bc1 where w: "write_block e ident buf k (of_nat (b0 + k)) (of_nat ?c) (of_nat (?c' - ?c)) (first_amt offset k) i bc = Inr (i1, bc1)"
    using write_block_total by blast
  have round: "write_round e ident buf n offset b0 k (i, bc) = (i1, bc1)" by (simp only: write_round_def case_prod_conv w sum.sel)
  have "?c \<le> ?c'" by (auto simp: min_def)
  then have sum: "of_nat ?c + of_nat (?c' - ?c) = (of_nat ?c' :: u64)" by (simp only: of_nat_add [symmetric]) simp
  have next_idx: "of_nat (b0 + k) + 1 = (of_nat (b0 + (k + 1)) :: u32)" by simp
  obtain cur' bs' where r: "write_loop e ident buf (of_nat n) offset (of_nat nb) (k + 1) (of_nat (b0 + (k + 1))) (of_nat ?c) (of_nat (?c' - ?c)) i1 bc1
      = Some (Inr (snd (fold (write_round e ident buf n offset b0) [k + 1..<k + 1 + m] (i1, bc1)), cur', bs'))"
      "cur' + bs' = of_nat (min ((k + 1 + m) * SIZE) n)"
    using Suc.IH [of "k + 1" "of_nat ?c" "of_nat (?c' - ?c)" i1 bc1, OF _ sum] Suc.prems(1) by auto
  have "write_loop e ident buf (of_nat n) offset (of_nat nb) k (of_nat (b0 + k)) cur bs i bc
      = write_loop e ident buf (of_nat n) offset (of_nat nb) (k + 1) (of_nat (b0 + (k + 1))) (of_nat ?c) (of_nat (?c' - ?c)) i1 bc1"
    by (subst write_loop.simps) (simp only: idx lt if_True Let_def Suc.prems(2) nx first_amt_def [symmetric] w sum.case case_prod_conv next_idx)
  moreover have "[k..<k + Suc m] = k # [k + 1..<k + 1 + m]" by (simp add: upt_conv_Cons)
  ultimately show ?case using r round by (intro exI [of _ cur'] exI [of _ bs']) simp
qed

text \<open>How many rounds there are, and that the assertion after the loop holds.\<close>

lemma write_loop_run:
  assumes "unat sz + unat offset < 2 ^ 44 - SIZE"
  shows "\<exists>cur bs. write_loop e ident buf sz offset (ulong_ceil (sz + offset) get_physical_size) 0 (ucast (offset div get_physical_size)) 0 0 i bc
      = Some (Inr (snd (fold (write_round e ident buf (unat sz) offset (unat offset div SIZE))
          [0..<(unat sz + unat offset + SIZE - 1) div SIZE - unat offset div SIZE] (i, bc)), cur, bs)) \<and> cur + bs = sz"
proof -
  let ?b0 = "unat offset div SIZE" and ?nb = "(unat sz + unat offset + SIZE - 1) div SIZE"
  have sum: "unat (sz + offset) = unat sz + unat offset" using assms by (intro unat_add_small) simp
  have nb: "?nb < 2 ^ 32" "?b0 \<le> ?nb" using assms by (auto simp: div_less_iff_less_mult intro: div_le_mono)
  have "unat (ulong_ceil (sz + offset) get_physical_size) = ?nb"
    using unat_ulong_ceil [of get_physical_size "sz + offset"] sum by (simp add: get_physical_size_def)
  then have ceil: "ulong_ceil (sz + offset) get_physical_size = of_nat ?nb"
    using nb(1) by (intro word_unat_eq_iff [THEN iffD2]) (simp add: unat_of_nat take_bit_nat_eq_self)
  have idx: "(ucast (offset div get_physical_size) :: u32) = of_nat (?b0 + 0)"
  proof (rule word_unat_eq_iff [THEN iffD2])
    have "?b0 < 2 ^ 32" using nb by linarith
    then show "unat (ucast (offset div get_physical_size) :: u32) = unat (of_nat (?b0 + 0) :: u32)"
      by (simp add: get_physical_size_def unat_div_distrib unat_of_nat take_bit_nat_eq_self)
  qed
  have n: "unat sz < 2 ^ 60" using assms by simp
  obtain cur bs where loop: "write_loop e ident buf (of_nat (unat sz)) offset (of_nat ?nb) 0 (of_nat (?b0 + 0)) 0 0 i bc
      = Some (Inr (snd (fold (write_round e ident buf (unat sz) offset ?b0) [0..<0 + (?nb - ?b0)] (i, bc)), cur, bs))"
      "cur + bs = of_nat (min ((0 + (?nb - ?b0)) * SIZE) (unat sz))"
    using write_loop_fold [of ?b0 0 "?nb - ?b0" ?nb "unat sz" 0 0 e ident buf offset i bc, OF _ nb(1) n] nb(2) by auto
  have "unat sz \<le> (?nb - ?b0) * SIZE"
  proof -
    have "unat sz + unat offset \<le> ?nb * SIZE" using ceil_div_nat [of SIZE "unat sz + unat offset"] by (simp add: div_mult_mod_eq [symmetric])
    moreover have "?b0 * SIZE \<le> unat offset" by simp
    ultimately have "unat sz + ?b0 * SIZE \<le> ?nb * SIZE" by linarith
    then show ?thesis by (simp add: diff_mult_distrib)
  qed
  then have "min ((0 + (?nb - ?b0)) * SIZE) (unat sz) = unat sz" by simp
  with loop show ?thesis unfolding ceil idx by (intro exI [of _ cur] exI [of _ bs]) simp
qed

text \<open>
  \<open>write\<close> on a path in the cache: the inode is marked, its size grows, and the loop runs.
\<close>

definition grown :: "env \<Rightarrow> u64 \<Rightarrow> inode \<Rightarrow> inode" where
  "grown e endpos i = (let i0 = remake_inode (inode_set_dirty i) in if get_size i0 < endpos then set_size (e_clk e 1) endpos i0 else i0)"

definition write_state :: "env \<Rightarrow> string \<Rightarrow> u8 list \<Rightarrow> u64 \<Rightarrow> u64 \<Rightarrow> inode \<Rightarrow> block_cache \<Rightarrow> inode \<times> block_cache" where
  "write_state e ident buf sz offset i bc =
     (let i1 = grown e (sz + offset) i
      in fold (write_round (sub_env 2 e) ident buf (unat sz) offset (unat offset div SIZE))
           [0..<(unat sz + unat offset + SIZE - 1) div SIZE - unat offset div SIZE]
           (i1, put_inode ident i1 (put_inode ident (remake_inode (inode_set_dirty i)) bc)))"

lemma deref_put:
  assumes "map_of (bc_inode_idx bc) path = Some ident"
  shows "deref_path path (put_inode ident i bc) = Inr (put_inode ident i bc, ident, i)"
  using assms by (simp add: deref_path_def get_inode_by_path_def put_inode_def omap_put_find)

lemma cache_write_cached:
  assumes "map_of (bc_inode_idx bc) path = Some ident" "map_of (bc_inode_ptrs bc) ident = Some (Some i)"
    "unat sz + unat offset < 2 ^ 44 - SIZE"
  shows "cache_write e path buf sz offset bc
    = Some (Inr ((snd (write_state e ident buf sz offset i bc))\<lparr>bc_has_changed := True\<rparr>, sint (ucast sz :: u32)))"
proof -
  let ?i0 = "remake_inode (inode_set_dirty i)" and ?i1 = "grown e (sz + offset) i"
  have start: "on_inode path (remake_inode \<circ> inode_set_dirty) bc = Inr (put_inode ident ?i0 bc)"
    using on_inode_cached [OF assms(1,2)] by simp
  have "in_cache path bc = 0" using assms(1) by (simp add: in_cache_def)
  moreover obtain cur bs where loop: "write_loop (sub_env 2 e) ident buf sz offset (ulong_ceil (sz + offset) get_physical_size) 0
      (ucast (offset div get_physical_size)) 0 0 ?i1 (put_inode ident ?i1 (put_inode ident ?i0 bc))
      = Some (Inr (snd (write_state e ident buf sz offset i bc), cur, bs))" "cur + bs = sz"
    using write_loop_run [OF assms(3)] unfolding write_state_def Let_def by blast
  ultimately show ?thesis
    using start deref_put [OF assms(1)] loop by (simp add: cache_write_def map_sum_def grown_def Let_def)
qed

definition same_rest :: "block_cache \<Rightarrow> block_cache \<Rightarrow> bool" where
  "same_rest bc bc' \<longleftrightarrow> bc_inode_idx bc' = bc_inode_idx bc \<and> bc_size bc' = bc_size bc \<and> bc_loader bc' = bc_loader bc
     \<and> bc_path_to_disk bc' = bc_path_to_disk bc"

lemma write_block_rest: "write_block e ident buf k bid cur bs amt i bc = Inr (i', bc') \<Longrightarrow> same_rest bc bc'"
  by (auto simp: same_rest_def write_block_def has_block_def get_block_def Let_def split: if_splits option.splits prod.splits)

lemma write_round_block:
  "\<exists>i' bc'. write_round e ident buf n offset b0 k (i, bc) = (i', bc')
    \<and> write_block e ident buf k (of_nat (b0 + k)) (of_nat (min (k * SIZE) n)) (of_nat (min ((k + 1) * SIZE) n - min (k * SIZE) n))
        (first_amt offset k) i bc = Inr (i', bc')"
proof -
  obtain i' bc' where w: "write_block e ident buf k (of_nat (b0 + k)) (of_nat (min (k * SIZE) n))
      (of_nat (min ((k + 1) * SIZE) n - min (k * SIZE) n)) (first_amt offset k) i bc = Inr (i', bc')"
    using write_block_total by blast
  then show ?thesis by (intro exI [of _ i'] exI [of _ bc']) (simp only: write_round_def case_prod_conv sum.sel)
qed

lemma write_state_rest: "same_rest bc (snd (write_state e ident buf sz offset i bc))"
proof -
  have "same_rest (snd s) (snd (fold (write_round e ident buf n offset b0) ks s))" for e n b0 ks s
  proof (induction ks arbitrary: s)
    case (Cons k ks)
    obtain i0 bc0 where s: "s = (i0, bc0)" by (cases s)
    obtain i' bc' where w: "write_round e ident buf n offset b0 k (i0, bc0) = (i', bc')" "same_rest bc0 bc'"
      using write_round_block write_block_rest by metis
    then show ?case using Cons.IH [of "(i', bc')"] s by (simp add: same_rest_def)
  qed (simp add: same_rest_def)
  from this [where s = "(j, put_inode ident j (put_inode ident k bc))" for j k]
  have "same_rest bc (snd (fold (write_round e ident buf n offset b0) ks (j, put_inode ident j (put_inode ident k bc))))" for e n b0 ks j k
    by (simp add: same_rest_def put_inode_def)
  then show ?thesis by (simp add: write_state_def Let_def)
qed

lemma write_state_idx: "bc_inode_idx (snd (write_state e ident buf sz offset i bc)) = bc_inode_idx bc"
  using write_state_rest by (simp add: same_rest_def)

section \<open>Appending\<close>

definition all_full :: "heap \<Rightarrow> inode \<Rightarrow> bool" where
  "all_full h i \<longleftrightarrow> (\<forall>k < length (ino_blocks i). unat (blk_actual_size (nth_block h i k)) = SIZE)"

lemma of_nat_eq_small: "a < 2 ^ 64 \<Longrightarrow> b < 2 ^ 64 \<Longrightarrow> (of_nat a :: u64) = of_nat b \<longleftrightarrow> a = b"
  by (simp add: word_unat_eq_iff unat_of_nat take_bit_nat_eq_self)

lemma dense_keys:
  assumes "dense h i"
  shows "fst ` set (ino_blocks i) = of_nat ` {..<length (ino_blocks i)}"
proof -
  let ?n = "length (ino_blocks i)"
  have n: "?n \<le> 2 ^ 32" using assms by (simp add: dense_def)
  have sub: "of_nat ` {..<?n} \<subseteq> fst ` set (ino_blocks i)"
    using assms by (fastforce simp: dense_def map_of_eq_None_iff)
  have "inj_on (of_nat :: nat \<Rightarrow> u64) {..<?n}" using n by (intro inj_onI) (simp add: of_nat_eq_small)
  then have "card (of_nat ` {..<?n} :: u64 set) = ?n" by (simp add: card_image)
  moreover have "card (fst ` set (ino_blocks i)) \<le> ?n" by (metis card_length length_map list.set_map)
  ultimately show ?thesis using card_seteq [OF _ sub] by simp
qed

lemma dense_no_block:
  assumes "dense h i" "length (ino_blocks i) \<le> k" "k < 2 ^ 64"
  shows "map_of (ino_blocks i) (of_nat k) = None"
proof -
  have "length (ino_blocks i) \<le> 2 ^ 32" using assms(1) by (simp add: dense_def)
  then have "of_nat k \<notin> (of_nat ` {..<length (ino_blocks i)} :: u64 set)" using assms(2,3) by (auto simp: of_nat_eq_small)
  then show ?thesis using dense_keys [OF assms(1)] by (simp add: map_of_eq_None_iff)
qed

lemma update_new: "map_of m k = None \<Longrightarrow> AList.update k v m = m @ [(k, v)]"
  by (induction m) (auto split: if_splits)

lemma dense_extend:
  assumes "dense h i" "all_full h i" "block_inv b" "n = length (ino_blocks i)" "n < 2 ^ 32"
    "ino_blocks i' = AList.update (of_nat n) (length h) (ino_blocks i)" "ino_links i' = ino_links i"
  shows "dense (h @ [b]) i'" "contents (h @ [b]) i' = contents h i @ block_bytes b" "length (ino_blocks i') = Suc n"
    "unat (blk_actual_size b) = SIZE \<Longrightarrow> all_full (h @ [b]) i'"
proof -
  let ?h = "h @ [b]"
  have none: "map_of (ino_blocks i) (of_nat n) = None" using dense_no_block [OF assms(1), of n] assms(4,5) by simp
  have bl: "ino_blocks i' = ino_blocks i @ [(of_nat n, length h)]" using assms(6) update_new [OF none] by simp
  show len: "length (ino_blocks i') = Suc n" using bl assms(4) by simp
  have old: "map_of (ino_blocks i') (of_nat k) = map_of (ino_blocks i) (of_nat k) \<and> nth_block ?h i' k = nth_block h i k \<and> map_of (ino_blocks i) (of_nat k) \<noteq> None"
    if kn: "k < n" for k
  proof -
    obtain p where p: "map_of (ino_blocks i) (of_nat k) = Some p" using dense_nth [OF assms(1)] kn assms(4) by blast
    then have "p < length h" using assms(1) map_of_SomeD [OF p] by (auto simp: dense_def inode_inv_def)
    then show ?thesis using p bl by (simp add: nth_block_def nth_append map_of_append)
  qed
  have new: "map_of (ino_blocks i') (of_nat n) = Some (length h)" "nth_block ?h i' n = b"
    using none bl by (simp_all add: nth_block_def map_of_append map_add_def)
  have "inode_inv ?h i'"
  proof -
    have "distinct (map fst (ino_blocks i'))" using assms(1,6) by (simp add: dense_def inode_inv_def distinct_update)
    moreover have "\<forall>(indx, p) \<in> set (ino_blocks i'). p < length ?h \<and> block_inv (?h ! p)"
      using assms(1,3) bl by (fastforce simp: dense_def inode_inv_def nth_append)
    ultimately show ?thesis using assms(1,7) by (simp add: dense_def inode_inv_def)
  qed
  moreover have "\<forall>k < Suc n. map_of (ino_blocks i') (of_nat k) \<noteq> None" using old new(1) by (metis less_Suc_eq option.distinct(1))
  moreover have full: "unat (blk_actual_size (nth_block ?h i' k)) = SIZE" if "k < n" for k
    using old [OF that] assms(2,4) that by (simp add: all_full_def)
  ultimately show "dense ?h i'" using len assms(5) by (simp add: dense_def)
  have "map (\<lambda>k. block_bytes (nth_block ?h i' k)) [0..<n] = map (\<lambda>k. block_bytes (nth_block h i k)) [0..<n]" using old by simp
  then have "concat (map (\<lambda>k. block_bytes (nth_block ?h i' k)) [0..<n]) = contents h i"
    unfolding contents_def assms(4) [symmetric] by (rule arg_cong)
  then show "contents ?h i' = contents h i @ block_bytes b" unfolding contents_def [of ?h] len using new(2) by simp
  show "all_full ?h i'" if "unat (blk_actual_size b) = SIZE"
    using full new(2) that len by (auto simp: all_full_def less_Suc_eq)
qed

text \<open>What \<open>write\<close> does not touch of an inode.\<close>

definition same_meta :: "inode \<Rightarrow> inode \<Rightarrow> bool" where
  "same_meta i j \<longleftrightarrow> ino_path i = ino_path j \<and> ino_mode i = ino_mode j \<and> ino_nlink i = ino_nlink j \<and> ino_size i = ino_size j
     \<and> ino_ul_ctime i = ino_ul_ctime j \<and> ino_deleted i = ino_deleted j \<and> ino_id i = ino_id j \<and> ino_links i = ino_links j"

text \<open>
  The state after \<open>k\<close> rounds of an append to the file \<open>old\<close> of \<open>b0\<close> full blocks: the new
  blocks are in the inode and in the dirty row of the inode.
\<close>

definition appended :: "string \<Rightarrow> u8 list \<Rightarrow> u8 list \<Rightarrow> nat \<Rightarrow> inode \<Rightarrow> block_cache \<Rightarrow> nat \<Rightarrow> inode \<times> block_cache \<Rightarrow> bool" where
  "appended ident old new b0 i0 bc0 k = (\<lambda>(i, bc).
     dense (bc_heap bc) i \<and> length (ino_blocks i) = b0 + k \<and> (k * SIZE \<le> length new \<longrightarrow> all_full (bc_heap bc) i)
     \<and> contents (bc_heap bc) i = old @ take (k * SIZE) new \<and> same_meta i i0
     \<and> map_of (bc_inode_ptrs bc) ident = Some (Some i) \<and> (\<forall>id'. id' \<noteq> ident \<longrightarrow> map_of (bc_inode_ptrs bc) id' = map_of (bc_inode_ptrs bc0) id')
     \<and> bc_inode_idx bc = bc_inode_idx bc0 \<and> (\<exists>hs. bc_heap bc = bc_heap bc0 @ hs)
     \<and> (\<forall>id'. id' \<noteq> ident \<longrightarrow> row id' (bc_dirty_block bc) = row id' (bc_dirty_block bc0))
     \<and> (\<forall>bid. map_of (row ident (bc_dirty_block bc)) bid
           = (if bid \<in> of_nat ` {b0..<b0 + k} then map_of (ino_blocks i) bid else map_of (row ident (bc_dirty_block bc0)) bid)))"

lemma row_put_row: "row k' (put_row k x v m) = (if k' = k then omap_put x v (row k m) else row k' m)"
  by (simp add: row_def put_row_def omap_put_find)

lemma append_round:
  assumes "appended ident old (take n buf) b0 i0 bc0 k (i, bc)" "k * SIZE < n" "n \<le> length buf" "b0 + k < 2 ^ 32"
  shows "appended ident old (take n buf) b0 i0 bc0 (Suc k) (write_round e ident buf n offset b0 k (i, bc))"
proof -
  let ?bid = "of_nat (b0 + k) :: u64" and ?p = "length (bc_heap bc)" and ?sz = "min ((k + 1) * SIZE) n - k * SIZE"
  let ?b = "block_of (drop (unat (of_nat (k * SIZE) :: u64)) buf) (of_nat ?sz)"
  have a: "dense (bc_heap bc) i" "length (ino_blocks i) = b0 + k" "all_full (bc_heap bc) i"
      "contents (bc_heap bc) i = old @ take (k * SIZE) (take n buf)" "same_meta i i0"
    using assms(1-3) by (auto simp: appended_def)
  have none: "map_of (ino_blocks i) ?bid = None" using dense_no_block [OF a(1), of "b0 + k"] a(2) assms(4) by (simp del: of_nat_add)
  define i' where "i' = (update_mtime (e_clk e (2 * k)) i)\<lparr>ino_blocks := AList.update ?bid ?p (ino_blocks i)\<rparr>"
  have add: "add_block (e_clk e (2 * k)) ?bid ?p (bc_heap bc @ [?b]) i = (bc_heap bc @ [?b], i')"
    using none by (simp add: add_block_def Let_def i'_def update_mtime_def del: of_nat_add)
  have mn: "min (k * SIZE) n = k * SIZE" using assms(2) by simp
  define bc' where "bc' = bc\<lparr>bc_heap := bc_heap bc @ [?b], bc_inode_ptrs := omap_put ident (Some i') (bc_inode_ptrs bc),
      bc_dirty_block := put_row ident ?bid ?p (bc_dirty_block bc),
      bc_dirty_block_mtime := put_row ident ?bid (get_ull_mtime i') (bc_dirty_block_mtime bc)\<rparr>"
  have round: "write_round e ident buf n offset b0 k (i, bc) = (i', bc')"
    unfolding write_round_def case_prod_conv mn write_block_def has_block_def none add Let_def bc'_def by simp
  have pos: "unat (of_nat (k * SIZE) :: u64) = k * SIZE" using assms(4) by (simp add: unat_of_nat take_bit_nat_eq_self del: of_nat_mult)
  have szb: "?sz \<le> SIZE" by simp
  then have usz: "unat (of_nat ?sz :: u64) = ?sz" 
    using of_nat_inverse [of ?sz, where 'a = 64] by simp
  have room: "unat (of_nat ?sz :: u64) \<le> SIZE" "unat (of_nat ?sz :: u64) \<le> length (drop (unat (of_nat (k * SIZE) :: u64)) buf)"
    unfolding usz pos using assms(2,3) by auto
  note b = block_of_bytes [OF room]
  have bytes: "block_bytes ?b = take ?sz (drop (k * SIZE) buf)" 
  proof -
    have "(Inr (block_bytes ?b) :: u8 list result) = Inr (take (unat (of_nat ?sz :: u64)) (drop (unat (of_nat (k * SIZE) :: u64)) buf))"
      using get_data_inv [OF conjunct1 [OF b]] conjunct1 [OF conjunct2 [OF b]] by (rule trans [OF sym])
    then show ?thesis unfolding usz pos by (rule sum.inject(2) [THEN iffD1])
  qed
  have i'f: "ino_blocks i' = AList.update (of_nat (b0 + k)) (length (bc_heap bc)) (ino_blocks i)" "ino_links i' = ino_links i" "same_meta i' i0"
    using a(5) by (simp_all add: i'_def update_mtime_def same_meta_def)
  note ext = dense_extend [OF a(1,3) conjunct1 [OF b] a(2) [symmetric] assms(4) i'f(1,2)]
  have "take (k * SIZE) (take n buf) @ take ?sz (drop (k * SIZE) buf) = take (Suc k * SIZE) (take n buf)"
  proof -
    have "k * SIZE + ?sz = min (Suc k * SIZE) n" using assms(2) by (simp add: min_def)
    then have "take (min (Suc k * SIZE) n) buf = take (k * SIZE) buf @ take ?sz (drop (k * SIZE) buf)" by (metis take_add)
    moreover have "take (k * SIZE) (take n buf) = take (k * SIZE) buf" using assms(2) by simp
    ultimately show ?thesis by simp
  qed
  then have cont: "contents (bc_heap bc') i' = old @ take (Suc k * SIZE) (take n buf)"
    using ext(2) a(4) bytes by (simp add: bc'_def)
  have full: "all_full (bc_heap bc') i'" if "Suc k * SIZE \<le> length (take n buf)"
  proof -
    have "?sz = SIZE" using that assms(3) by (simp add: min_def split: if_splits)
    then show ?thesis using ext(4) b usz by (simp add: bc'_def)
  qed
  have old: "map_of (bc_inode_ptrs bc) ident = Some (Some i)" "bc_inode_idx bc = bc_inode_idx bc0"
      "\<forall>id'. id' \<noteq> ident \<longrightarrow> map_of (bc_inode_ptrs bc) id' = map_of (bc_inode_ptrs bc0) id'"
      "\<exists>hs. bc_heap bc = bc_heap bc0 @ hs"
      "\<forall>id'. id' \<noteq> ident \<longrightarrow> row id' (bc_dirty_block bc) = row id' (bc_dirty_block bc0)"
      "\<And>bid. map_of (row ident (bc_dirty_block bc)) bid
           = (if bid \<in> of_nat ` {b0..<b0 + k} then map_of (ino_blocks i) bid else map_of (row ident (bc_dirty_block bc0)) bid)"
    using assms(1) by (simp_all add: appended_def)
  have "(of_nat ` {b0..<b0 + Suc k} :: u64 set) = insert ?bid (of_nat ` {b0..<b0 + k})"
    by (simp only: atLeastLessThanSuc add_Suc_right image_insert le_add1 if_True)
  then have row: "map_of (row ident (bc_dirty_block bc')) bid
      = (if bid \<in> of_nat ` {b0..<b0 + Suc k} then map_of (ino_blocks i') bid else map_of (row ident (bc_dirty_block bc0)) bid)" for bid
    using old(6) [of bid] by (cases "bid = ?bid") (simp_all add: bc'_def row_put_row omap_put_find i'f(1) update_conv' del: of_nat_add)
  have heap: "\<exists>hs. bc_heap bc' = bc_heap bc0 @ hs" using old(4) by (auto simp: bc'_def)
  show ?thesis
    unfolding round appended_def case_prod_conv
    using ext(1,3) full cont i'f(3) old(2,3,5) row heap
    by (auto simp: bc'_def omap_put_find row_put_row)
qed

lemma append_rounds:
  assumes "appended ident old (take n buf) b0 i0 bc0 0 s" "m * SIZE < n + SIZE" "n \<le> length buf" "b0 + m \<le> 2 ^ 32"
  shows "appended ident old (take n buf) b0 i0 bc0 m (fold (write_round e ident buf n offset b0) [0..<m] s)"
  using assms(2,4)
proof (induction m)
  case (Suc m)
  obtain i bc where s: "fold (write_round e ident buf n offset b0) [0..<m] s = (i, bc)" by fastforce
  have "appended ident old (take n buf) b0 i0 bc0 m (i, bc)" using Suc s by simp
  from append_round [OF this, of e offset] Suc.prems assms(3) s show ?case by simp
qed (use assms(1) in simp)

lemma dense_same_blocks:
  assumes "ino_blocks j = ino_blocks i" "ino_links j = ino_links i"
  shows "dense h j = dense h i" "contents h j = contents h i" "all_full h j = all_full h i"
  using assms by (simp_all add: dense_def inode_inv_def contents_def all_full_def nth_block_def)

lemma grown_blocks:
  "ino_blocks (grown e endpos i) = ino_blocks i" "ino_links (grown e endpos i) = ino_links i"
  "ino_size (grown e endpos i) = max (ino_size i) endpos"
  "ino_deleted (grown e endpos i) = 0" "ino_path (grown e endpos i) = ino_path i" "ino_mode (grown e endpos i) = ino_mode i"
  "ino_nlink (grown e endpos i) = ino_nlink i" "ino_id (grown e endpos i) = ino_id i" "ino_ul_ctime (grown e endpos i) = ino_ul_ctime i"
  by (simp_all add: grown_def Let_def set_size_def update_mtime_def remake_inode_def inode_set_dirty_def get_size_def
      max_def not_less order_less_imp_le)

lemma put_inode_twice: "put_inode ident i (put_inode ident j bc) = put_inode ident i bc"
proof -
  have "omap_put k v (omap_put k w m) = omap_put k v m" for k :: string and v w :: "inode option" and m
    by (induction k w m rule: omap_put.induct) auto
  then show ?thesis by (simp add: put_inode_def)
qed

text \<open>The state after an append of \<open>take sz buf\<close> at the end of a file of full blocks.\<close>

lemma append_state:
  assumes "map_of (bc_inode_ptrs bc) ident = Some (Some i)" "dense (bc_heap bc) i" "all_full (bc_heap bc) i"
    "unat offset = length (ino_blocks i) * SIZE" "unat sz \<le> length buf" "unat sz + unat offset < 2 ^ 44 - SIZE"
  shows "\<exists>m. unat sz \<le> m * SIZE \<and> m * SIZE < unat sz + SIZE \<and> appended ident (contents (bc_heap bc) i) (take (unat sz) buf) (length (ino_blocks i))
      (grown e (sz + offset) i) bc m (write_state e ident buf sz offset i bc)"
proof -
  let ?b0 = "length (ino_blocks i)" and ?n = "unat sz"
  let ?m = "(?n + unat offset + SIZE - 1) div SIZE - unat offset div SIZE"
  have b0: "unat offset div SIZE = ?b0" using assms(4) by simp
  have "(?n + unat offset + SIZE - 1) div SIZE = (?n + SIZE - 1 + ?b0 * SIZE) div SIZE" using assms(4) by (simp add: ac_simps)
  also have "\<dots> = (?n + SIZE - 1) div SIZE + ?b0" using div_mult_self1 [of SIZE "?n + SIZE - 1" ?b0] by simp
  finally have m: "?m = (?n + SIZE - 1) div SIZE" "?b0 + ?m = (?n + unat offset + SIZE - 1) div SIZE" using b0 by simp_all
  have le: "?b0 + ?m \<le> 2 ^ 32" using assms(6) 
    unfolding m(2) by (intro order_less_imp_le) (simp add: div_less_iff_less_mult)
  have fit: "?m * SIZE < ?n + SIZE" "?n \<le> ?m * SIZE"
    using div_mult_mod_eq [of "?n + SIZE - 1" SIZE] mod_less_divisor [of SIZE "?n + SIZE - 1"] unfolding m(1) by linarith+
  let ?i1 = "grown e (sz + offset) i"
  have blocks: "dense (bc_heap bc) ?i1" "contents (bc_heap bc) ?i1 = contents (bc_heap bc) i" "all_full (bc_heap bc) ?i1"
      "length (ino_blocks ?i1) = ?b0"
    using dense_same_blocks [of ?i1 i] grown_blocks(1,2) assms(2,3) by auto
  have "appended ident (contents (bc_heap bc) i) (take ?n buf) ?b0 ?i1 bc 0 (?i1, put_inode ident ?i1 bc)"
    using blocks by (simp add: appended_def put_inode_def omap_put_find same_meta_def)
  from append_rounds [OF this fit(1) assms(5) le, of "sub_env 2 e" offset]
  have "appended ident (contents (bc_heap bc) i) (take ?n buf) ?b0 ?i1 bc ?m (write_state e ident buf sz offset i bc)"
    unfolding write_state_def Let_def put_inode_twice b0 by simp
  with fit show ?thesis by blast
qed

lemma read_cached_dense:
  assumes "map_of (bc_inode_idx bc) path = Some ident" "map_of (bc_inode_ptrs bc) ident = Some (Some i)" "dense (bc_heap bc) i"
    "unat offset < 2 ^ 44"
  shows "cache_read e path sz offset bc
    = Some (Inr (bc, take (unat sz) (drop (unat offset) (contents (bc_heap bc) i)), sint (ucast sz :: u32)))"
  using assms inode_read_dense [OF assms(3,4), of sz]
  by (simp add: cache_read_def in_cache_def deref_path_def get_inode_by_path_def)

section \<open>Overwriting\<close>

definition block_list :: "heap \<Rightarrow> inode \<Rightarrow> u8 list list" where
  "block_list h i = map (\<lambda>k. block_bytes (nth_block h i k)) [0..<length (ino_blocks i)]"

lemma contents_block_list: "contents h i = concat (block_list h i)"
  by (simp add: contents_def block_list_def)

text \<open>An inode whose blocks do not share memory.\<close>

definition unshared :: "inode \<Rightarrow> bool" where
  "unshared i \<longleftrightarrow> distinct (map snd (ino_blocks i))"

lemma unshared_ptr:
  assumes "unshared i" "dense h i" "a < length (ino_blocks i)" "b < length (ino_blocks i)" "a \<noteq> b"
  shows "the (map_of (ino_blocks i) (of_nat a)) \<noteq> the (map_of (ino_blocks i) (of_nat b))"
proof
  obtain p q where p: "map_of (ino_blocks i) (of_nat a) = Some p" and q: "map_of (ino_blocks i) (of_nat b) = Some q"
    using dense_nth [OF assms(2,3)] dense_nth [OF assms(2,4)] by blast
  assume "the (map_of (ino_blocks i) (of_nat a)) = the (map_of (ino_blocks i) (of_nat b))"
  then have "p = q" using p q by simp
  then have "(of_nat a, p) \<in> set (ino_blocks i)" "(of_nat b, p) \<in> set (ino_blocks i)" using p q map_of_SomeD by fastforce+
  then have "(of_nat a :: u64) = of_nat b"
    using assms(1) unfolding unshared_def by (metis (mono_tags, lifting) distinct_map inj_onD prod.inject snd_conv)
  moreover have "length (ino_blocks i) \<le> 2 ^ 32" using assms(2) by (simp add: dense_def)
  ultimately show False using assms(3-5) by (simp add: of_nat_eq_small)
qed

lemma take_past: "length a = n \<Longrightarrow> take (n + r) (a @ b) = a @ take r b"
  by simp

lemma insert_data_block_bytes:
  assumes "block_inv b" "unat amt + w \<le> SIZE" "w \<le> length buf" "unat amt \<le> length (block_bytes b)" "w = unat sz"
  shows "block_bytes (insert_data b buf sz amt) = take (unat amt) (block_bytes b) @ take w buf @ drop (unat amt + w) (block_bytes b)"
    "unat (blk_actual_size (insert_data b buf sz amt)) = max (unat (blk_actual_size b)) (unat amt + w)"
proof -
  let ?u = "unat (blk_actual_size b)" and ?d = "blk_data b"
  have inv: "length ?d = SIZE" "?u \<le> SIZE" using assms(1) by (simp_all add: block_inv_def)
  have u: "unat amt \<le> ?u" using assms(4) length_block_bytes [OF assms(1)] by simp
  have sum: "unat (sz + amt) = unat amt + w" using assms(2,5) by (subst unat_add_small) simp_all
  have size: "unat (blk_actual_size (insert_data b buf sz amt)) = max ?u (unat amt + w)"
    using sum by (simp add: insert_data_size max_def word_le_nat_alt)
  have data: "blk_data (insert_data b buf sz amt) = take (unat amt) ?d @ take w buf @ drop (unat amt + w) ?d"
    using insert_data_bytes [OF assms(1), of amt sz buf] assms(2,3,5) by simp
  show "unat (blk_actual_size (insert_data b buf sz amt)) = max ?u (unat amt + w)" by (rule size)
  have "take (max ?u (unat amt + w)) (take (unat amt) ?d @ take w buf @ drop (unat amt + w) ?d)
      = take (unat amt) ?d @ take w buf @ take (?u - (unat amt + w)) (drop (unat amt + w) ?d)"
  proof -
    have "length (take (unat amt) ?d @ take w buf) = unat amt + w" using inv u assms(3) by simp
    moreover have "max ?u (unat amt + w) = unat amt + w + (?u - (unat amt + w))" by simp
    ultimately show ?thesis using take_past [of "take (unat amt) ?d @ take w buf"] by (metis append_assoc)
  qed
  also have "take (?u - (unat amt + w)) (drop (unat amt + w) ?d) = drop (unat amt + w) (take ?u ?d)" by (simp only: drop_take)
  finally show "block_bytes (insert_data b buf sz amt) = take (unat amt) (block_bytes b) @ take w buf @ drop (unat amt + w) (block_bytes b)"
    using u by (simp add: block_bytes_def size data min_def)
qed

text \<open>Changing the memory of one block.\<close>

lemma dense_change:
  assumes "dense h i" "unshared i" "j < length (ino_blocks i)" "p = the (map_of (ino_blocks i) (of_nat j))"
    "block_inv b" "unat (blk_actual_size (nth_block h i j)) \<le> unat (blk_actual_size b)"
    "ino_blocks i' = ino_blocks i" "ino_links i' = ino_links i"
  shows "dense (h[p := b]) i'" "block_list (h[p := b]) i' = (block_list h i)[j := block_bytes b]"
    "all_full h i \<Longrightarrow> all_full (h[p := b]) i'"
proof -
  let ?h = "h[p := b]"
  obtain p' where p': "map_of (ino_blocks i) (of_nat j) = Some p'" using dense_nth [OF assms(1,3)] by blast
  then have pl: "p < length h" using assms(1,4) map_of_SomeD [OF p'] by (auto simp: dense_def inode_inv_def)
  have nth: "nth_block ?h i' k = (if k = j then b else nth_block h i k)" if "k < length (ino_blocks i)" for k
    using unshared_ptr [OF assms(2,1) that assms(3)] assms(4,7) pl
    by (cases "k = j") (auto simp: nth_block_def nth_list_update)
  have "q < length ?h \<and> block_inv (?h ! q)" if "(indx, q) \<in> set (ino_blocks i)" for indx q
  proof -
    have "q < length h" "block_inv (h ! q)" using assms(1) that by (auto simp: dense_def inode_inv_def)
    then show ?thesis using assms(5) by (cases "q = p") simp_all
  qed
  then have "inode_inv ?h i'" using assms(1,7,8) by (auto simp: dense_def inode_inv_def)
  moreover have full: "unat (blk_actual_size (nth_block ?h i' k)) = SIZE"
    if "k < length (ino_blocks i)" "unat (blk_actual_size (nth_block h i k)) = SIZE" for k
    using nth [OF that(1)] that(2) assms(5,6) by (auto simp: block_inv_def)
  ultimately show "dense ?h i'" using assms(1,7) by (simp add: dense_def)
  show "all_full ?h i'" if "all_full h i" using full that assms(7) by (simp add: all_full_def)
  show "block_list ?h i' = (block_list h i)[j := block_bytes b]"
    using nth assms(7) by (intro nth_equalityI) (auto simp: block_list_def nth_list_update)
qed

text \<open>One round on a block that exists: \<open>w\<close> bytes from the front of the buffer go into it at \<open>amt\<close>.\<close>

lemma overwrite_round:
  assumes "dense (bc_heap bc) i" "unshared i" "b0 + k < length (ino_blocks i)"
    "w = min ((k + 1) * SIZE) n - min (k * SIZE) n" "unat (first_amt offset k) + w \<le> SIZE" "w \<le> length buf"
    "unat (first_amt offset k) \<le> length (block_list (bc_heap bc) i ! (b0 + k))"
    "write_round e ident buf n offset b0 k (i, bc) = (i', bc')"
  shows "dense (bc_heap bc') i'" "ino_blocks i' = ino_blocks i" "same_meta i' i"
    "block_list (bc_heap bc') i' = (block_list (bc_heap bc) i)[b0 + k :=
       (let old = block_list (bc_heap bc) i ! (b0 + k); amt = unat (first_amt offset k)
        in take amt old @ take w buf @ drop (amt + w) old)]"
    "all_full (bc_heap bc) i \<Longrightarrow> all_full (bc_heap bc') i'"
    "map_of (bc_inode_ptrs bc') ident = Some (Some i')" "bc_inode_idx bc' = bc_inode_idx bc"
proof -
  let ?j = "b0 + k" and ?h = "bc_heap bc" and ?amt = "first_amt offset k"
  obtain p where p: "map_of (ino_blocks i) (of_nat ?j) = Some p" "nth_block ?h i ?j = ?h ! p" "block_inv (?h ! p)"
    using dense_nth [OF assms(1,3)] by blast
  have "w \<le> SIZE" using assms(5) by simp
  then have uw: "unat (of_nat w :: u64) = w" using of_nat_inverse [of w, where 'a = 64] by simp
  let ?b = "insert_data (?h ! p) buf (of_nat w) ?amt"
  have old: "block_list ?h i ! ?j = block_bytes (?h ! p)" using assms(3) p(2) by (simp add: block_list_def)
  have w: "w = unat (of_nat w :: u64)" using uw by simp
  note ins = insert_data_block_bytes [OF p(3) assms(5,6) _ w, unfolded old [symmetric], OF assms(7)]
  have inv: "block_inv ?b" using insert_data_inv [OF p(3)] assms(5) uw by simp
  define i1 where "i1 = i\<lparr>ino_ul_mtime := get_time (e_clk e (2 * k) 0)\<rparr>"
  have st: "i' = i1" "bc_heap bc' = ?h[p := ?b]" "bc_inode_ptrs bc' = omap_put ident (Some i1) (bc_inode_ptrs bc)"
      "bc_inode_idx bc' = bc_inode_idx bc"
    using assms(8) p(1) unfolding write_round_def case_prod_conv assms(4) [symmetric] write_block_def has_block_def get_block_def
      block_insert_def i1_def by auto
  have i1: "ino_blocks i1 = ino_blocks i" "ino_links i1 = ino_links i" by (simp_all add: i1_def)
  have "unat (blk_actual_size (nth_block ?h i ?j)) \<le> unat (blk_actual_size ?b)" using ins(2) p(2) by simp
  note ch = dense_change [OF assms(1-3) _ inv this i1, of p]
  have pp: "p = the (map_of (ino_blocks i) (of_nat ?j))" using p(1) by simp
  show "dense (bc_heap bc') i'" "all_full ?h i \<Longrightarrow> all_full (bc_heap bc') i'" using ch(1,3) [OF pp] st by auto
  show "block_list (bc_heap bc') i' = (block_list ?h i)[?j := (let old = block_list ?h i ! ?j; amt = unat ?amt
        in take amt old @ take w buf @ drop (amt + w) old)]"
    using ch(2) [OF pp] ins(1) st by (simp add: Let_def)
  show "ino_blocks i' = ino_blocks i" "same_meta i' i" using st i1 by (simp_all add: i1_def same_meta_def)
  show "map_of (bc_inode_ptrs bc') ident = Some (Some i')" "bc_inode_idx bc' = bc_inode_idx bc" using st by (simp_all add: omap_put_find)
qed

lemma first_amt_mod: "unat (first_amt offset 0) = unat offset mod SIZE" "first_amt offset (Suc k) = 0"
  by (auto simp: first_amt_def get_physical_size_def unat_mod_distrib word_less_nat_alt)

lemma length_block_list [simp]: "length (block_list h i) = length (ino_blocks i)"
  by (simp add: block_list_def)

lemma block_list_lengths:
  assumes "dense h i" "k < length (ino_blocks i)"
  shows "length (block_list h i ! k) \<le> SIZE" "Suc k < length (ino_blocks i) \<Longrightarrow> length (block_list h i ! k) = SIZE"
    "all_full h i \<Longrightarrow> length (block_list h i ! k) = SIZE"
proof -
  have "block_inv (nth_block h i k)" using dense_nth [OF assms] by auto
  then have "length (block_list h i ! k) = unat (blk_actual_size (nth_block h i k))" "unat (blk_actual_size (nth_block h i k)) \<le> SIZE"
    using assms(2) by (simp_all add: block_list_def length_block_bytes block_inv_def)
  then show "length (block_list h i ! k) \<le> SIZE" "Suc k < length (ino_blocks i) \<Longrightarrow> length (block_list h i ! k) = SIZE"
      "all_full h i \<Longrightarrow> length (block_list h i ! k) = SIZE"
    using assms by (simp_all add: dense_def all_full_def)
qed

lemma concat_overlay:
  assumes "j < length bl" "\<forall>k < j. length (bl ! k) = S" "r \<le> length (bl ! j)" "Suc j = length bl \<or> r + length x \<le> length (bl ! j)"
  shows "concat (bl[j := take r (bl ! j) @ x @ drop (r + length x) (bl ! j)])
    = take (j * S + r) (concat bl) @ x @ drop (j * S + r + length x) (concat bl)"
proof -
  let ?a = "concat (take j bl)" and ?b = "bl ! j" and ?c = "concat (drop (Suc j) bl)"
  have "length ?a = sum_list (map length (take j bl))" by (simp add: length_concat)
  also have "map length (take j bl) = replicate j S" using assms(1,2) by (intro nth_equalityI) auto
  finally have a: "length ?a = j * S" by (simp add: sum_list_replicate)
  have bl: "concat bl = ?a @ ?b @ ?c" by (metis assms(1) concat.simps(2) concat_append id_take_nth_drop)
  have "drop (r + length x) (?b @ ?c) = drop (r + length x) ?b @ ?c" using assms(4) by auto
  moreover have "drop (j * S + r + length x) (?a @ ?b @ ?c) = drop (r + length x) (?b @ ?c)" using a by (simp add: add.assoc)
  ultimately have "drop (j * S + r + length x) (concat bl) = drop (r + length x) ?b @ ?c" unfolding bl by simp
  moreover have "take (j * S + r) (concat bl) = ?a @ take r ?b" unfolding bl using a assms(3) by simp
  ultimately show ?thesis by (simp add: upd_conv_take_nth_drop [OF assms(1)])
qed

text \<open>Aligned overwriting of \<open>m\<close> full blocks.\<close>

definition overwritten :: "u8 list \<Rightarrow> nat \<Rightarrow> inode \<Rightarrow> block_cache \<Rightarrow> u8 list list \<Rightarrow> nat \<Rightarrow> inode \<times> block_cache \<Rightarrow> bool" where
  "overwritten buf b0 i0 bc0 bl k = (\<lambda>(i, bc). dense (bc_heap bc) i \<and> all_full (bc_heap bc) i \<and> ino_blocks i = ino_blocks i0
     \<and> same_meta i i0 \<and> bc_inode_idx bc = bc_inode_idx bc0
     \<and> block_list (bc_heap bc) i = take b0 bl @ replicate k (take SIZE buf) @ drop (b0 + k) bl)"

lemma overwrite_rounds:
  assumes "overwritten buf b0 i0 bc0 bl 0 s" "unshared i0" "b0 + m \<le> length (ino_blocks i0)" "m * SIZE \<le> length buf"
    "unat offset mod SIZE = 0" "length bl = length (ino_blocks i0)"
  shows "overwritten buf b0 i0 bc0 bl m (fold (write_round e ident buf (m * SIZE) offset b0) [0..<m] s)
    \<and> (0 < m \<longrightarrow> (case fold (write_round e ident buf (m * SIZE) offset b0) [0..<m] s of
         (i, bc) \<Rightarrow> map_of (bc_inode_ptrs bc) ident = Some (Some i)))"
proof -
  have "overwritten buf b0 i0 bc0 bl k (fold (write_round e ident buf (m * SIZE) offset b0) [0..<k] s)
      \<and> (0 < k \<longrightarrow> (case fold (write_round e ident buf (m * SIZE) offset b0) [0..<k] s of
         (i, bc) \<Rightarrow> map_of (bc_inode_ptrs bc) ident = Some (Some i)))" if "k \<le> m" for k
    using that
  proof (induction k)
    case (Suc k)
    obtain i bc where s: "fold (write_round e ident buf (m * SIZE) offset b0) [0..<k] s = (i, bc)" by fastforce
    obtain i' bc' where s': "write_round e ident buf (m * SIZE) offset b0 k (i, bc) = (i', bc')" by fastforce
    have st: "dense (bc_heap bc) i" "all_full (bc_heap bc) i" "ino_blocks i = ino_blocks i0" "same_meta i i0"
        "bc_inode_idx bc = bc_inode_idx bc0" "block_list (bc_heap bc) i = take b0 bl @ replicate k (take SIZE buf) @ drop (b0 + k) bl"
      using Suc s by (simp_all add: overwritten_def)
    have amt: "unat (first_amt offset k) = 0" using assms(5) first_amt_mod by (cases k) auto
    have "(k + 1) * SIZE \<le> m * SIZE" using Suc.prems by (intro mult_right_mono) auto
    then have w: "SIZE = min ((k + 1) * SIZE) (m * SIZE) - min (k * SIZE) (m * SIZE)" by (simp add: min_def)
    have j: "b0 + k < length (ino_blocks i)" using Suc.prems assms(3) st(3) by simp
    have "SIZE \<le> (k + 1) * SIZE" by simp
    then have buf: "SIZE \<le> length buf" using \<open>(k + 1) * SIZE \<le> m * SIZE\<close> assms(4) by (meson order_trans)
    have un: "unshared i" using assms(2) st(3) by (simp add: unshared_def)
    have room: "unat (first_amt offset k) + SIZE \<le> SIZE" "unat (first_amt offset k) \<le> length (block_list (bc_heap bc) i ! (b0 + k))"
      by (simp_all add: amt)
    note o = overwrite_round [OF st(1) un j w room(1) buf room(2) s']
    have len: "length (block_list (bc_heap bc) i ! (b0 + k)) = SIZE" using block_list_lengths(3) [OF st(1) j st(2)] .
    have "block_list (bc_heap bc') i' = (block_list (bc_heap bc) i)[b0 + k := take SIZE buf]"
      using o(4) len by (simp add: amt Let_def)
    also have "\<dots> = take b0 bl @ (replicate k (take SIZE buf) @ drop (b0 + k) bl)[k := take SIZE buf]"
      unfolding st(6) using j st(3) assms(6) by (simp add: list_update_append)
    also have "\<dots> = take b0 bl @ replicate (Suc k) (take SIZE buf) @ drop (b0 + Suc k) bl"
      using j st(3) assms(6) by (simp add: list_update_append replicate_append_same [symmetric] Cons_nth_drop_Suc [symmetric] del: replicate_append_same)
    finally have "overwritten buf b0 i0 bc0 bl (Suc k) (i', bc')"
      using o(1,2,3,5,7) st by (simp add: overwritten_def same_meta_def)
    then show ?case using s s' o(6) by simp
  qed (use assms(1) in simp)
  from this [of m] show ?thesis by simp
qed

text \<open>The contents of the file around the blocks that are written.\<close>

lemma concat_parts:
  assumes "\<forall>b \<in> set bl. length b = S"
  shows "concat (take k bl) = take (k * S) (concat bl)" "concat (drop k bl) = drop (k * S) (concat bl)"
  using assms by (induction bl arbitrary: k) (auto simp: take_Cons drop_Cons split: nat.splits)

lemma offset_in_block:
  assumes "dense h i" "n div SIZE < length (ino_blocks i)" "n \<le> length (contents h i)"
  shows "n mod SIZE \<le> length (block_list h i ! (n div SIZE))"
proof (cases "Suc (n div SIZE) < length (ino_blocks i)")
  case True
  then show ?thesis using block_list_lengths(2) [OF assms(1,2)] by simp
next
  case False
  let ?j = "n div SIZE"
  have len: "length (ino_blocks i) = Suc ?j" using False assms(2) by simp
  have "length (contents h i) = SIZE * ?j + length (block_list h i ! ?j)"
  proof -
    have "[0..<length (ino_blocks i)] = [0..<?j] @ [?j]" using len by simp
    then have "contents h i = concat (map (\<lambda>k. block_bytes (nth_block h i k)) [0..<?j]) @ block_bytes (nth_block h i ?j)"
      unfolding contents_def by (simp only: map_append concat_append list.map concat.simps append_Nil2)
    moreover have "block_list h i ! ?j = block_bytes (nth_block h i ?j)" using assms(2) by (simp add: block_list_def)
    ultimately show ?thesis using contents_prefix [OF assms(1,2)] by simp
  qed
  moreover have "n = SIZE * ?j + n mod SIZE" by simp
  ultimately show ?thesis using assms(3) by linarith
qed

text \<open>\<open>write\<close> with its \<open>m\<close> rounds made explicit.\<close>

lemma write_state_rounds:
  assumes "(unat sz + unat offset + SIZE - 1) div SIZE - unat offset div SIZE = m"
  shows "write_state e ident buf sz offset i bc
    = fold (write_round (sub_env 2 e) ident buf (unat sz) offset (unat offset div SIZE)) [0..<m]
        (grown e (sz + offset) i, put_inode ident (grown e (sz + offset) i) bc)"
  using assms by (simp add: write_state_def Let_def put_inode_twice)

lemma rounds_at:
  fixes off :: nat
  shows "(n + off + SIZE - 1) div SIZE - off div SIZE = (n + off mod SIZE + SIZE - 1) div SIZE"
proof -
  have "n + off + SIZE - 1 = (n + off mod SIZE + SIZE - 1) + off div SIZE * SIZE" using div_mult_mod_eq [of off SIZE] by linarith
  then have "(n + off + SIZE - 1) div SIZE = off div SIZE + (n + off mod SIZE + SIZE - 1) div SIZE"
    by (simp only: div_mult_self1)
  then show ?thesis by simp
qed

lemma write_in_block_state:
  assumes "dense (bc_heap bc) i" "unshared i" "unat offset div SIZE < length (ino_blocks i)" "unat offset \<le> length (contents (bc_heap bc) i)"
    "0 < unat sz" "unat offset mod SIZE + unat sz \<le> SIZE" "unat sz \<le> length buf"
    "write_state e ident buf sz offset i bc = (i', bc')"
  shows "dense (bc_heap bc') i'" "map_of (bc_inode_ptrs bc') ident = Some (Some i')" "bc_inode_idx bc' = bc_inode_idx bc"
    "same_meta i' (grown e (sz + offset) i)"
    "contents (bc_heap bc') i' = take (unat offset) (contents (bc_heap bc) i) @ take (unat sz) buf
       @ drop (unat offset + unat sz) (contents (bc_heap bc) i)"
    "ino_blocks i' = ino_blocks i"
proof -
  let ?n = "unat sz" and ?j = "unat offset div SIZE" and ?r = "unat offset mod SIZE" and ?i1 = "grown e (sz + offset) i"
  let ?bl = "block_list (bc_heap bc) i"
  have off: "unat offset = ?j * SIZE + ?r" by simp
  have "(?n + ?r + SIZE - 1) div SIZE = 1" using assms(5,6) by (intro div_nat_eqI) auto
  then have "(?n + unat offset + SIZE - 1) div SIZE - ?j = 1" by (simp only: rounds_at)
  from write_state_rounds [OF this] assms(8)
  have round: "write_round (sub_env 2 e) ident buf ?n offset ?j 0 (?i1, put_inode ident ?i1 bc) = (i', bc')" by simp
  let ?bc1 = "put_inode ident ?i1 bc"
  have blocks: "dense (bc_heap ?bc1) ?i1" "ino_blocks ?i1 = ino_blocks i" "block_list (bc_heap ?bc1) ?i1 = ?bl" "unshared ?i1"
    using dense_same_blocks [of ?i1 i] grown_blocks(1,2) [of e "sz + offset" i] assms(1,2)
    by (auto simp: block_list_def nth_block_def unshared_def)
  have w: "?n = min ((0 + 1) * SIZE) ?n - min (0 * SIZE) ?n" using assms(6) by simp
  have r: "?r \<le> length (?bl ! ?j)" using offset_in_block [OF assms(1,3,4)] .
  have j: "?j + 0 < length (ino_blocks ?i1)" using assms(3) blocks(2) by simp
  have room: "unat (first_amt offset 0) + ?n \<le> SIZE" "unat (first_amt offset 0) \<le> length (block_list (bc_heap ?bc1) ?i1 ! (?j + 0))"
    using assms(6) r blocks(3) by (simp_all add: first_amt_mod)
  note o = overwrite_round [OF blocks(1,4) j w room(1) assms(7) room(2) round]
  show "dense (bc_heap bc') i'" "map_of (bc_inode_ptrs bc') ident = Some (Some i')" "bc_inode_idx bc' = bc_inode_idx bc"
      "same_meta i' ?i1" "ino_blocks i' = ino_blocks i"
    using o(1,2,3,6,7) blocks(2) by (simp_all add: put_inode_def)
  have x: "length (take ?n buf) = ?n" using assms(7) by simp
  have "block_list (bc_heap bc') i' = ?bl[?j := take ?r (?bl ! ?j) @ take ?n buf @ drop (?r + length (take ?n buf)) (?bl ! ?j)]"
    using o(4) by (simp only: blocks(3) first_amt_mod add_0_right Let_def x)
  moreover have "Suc ?j = length ?bl \<or> ?r + length (take ?n buf) \<le> length (?bl ! ?j)"
    using block_list_lengths(2) [OF assms(1,3)] assms(3,6) x by (cases "Suc ?j = length ?bl") auto
  moreover have "\<forall>k < ?j. length (?bl ! k) = SIZE" using block_list_lengths(2) [OF assms(1)] assms(3) by simp
  ultimately have "concat (block_list (bc_heap bc') i') = take (?j * SIZE + ?r) (concat ?bl) @ take ?n buf
      @ drop (?j * SIZE + ?r + length (take ?n buf)) (concat ?bl)"
    using concat_overlay [of ?j ?bl SIZE ?r "take ?n buf"] assms(3) r by (simp only: length_block_list)
  then show "contents (bc_heap bc') i' = take (unat offset) (contents (bc_heap bc) i) @ take ?n buf @ drop (unat offset + ?n) (contents (bc_heap bc) i)"
    unfolding contents_block_list x off [symmetric] .
qed

lemma overwrite_state:
  assumes "dense (bc_heap bc) i" "all_full (bc_heap bc) i" "unshared i" "unat offset = b0 * SIZE" "unat sz = m * SIZE" "0 < m"
    "b0 + m \<le> length (ino_blocks i)" "m * SIZE \<le> length buf" "write_state e ident buf sz offset i bc = (i', bc')"
  shows "dense (bc_heap bc') i'" "map_of (bc_inode_ptrs bc') ident = Some (Some i')" "bc_inode_idx bc' = bc_inode_idx bc"
    "contents (bc_heap bc') i' = take (unat offset) (contents (bc_heap bc) i) @ concat (replicate m (take SIZE buf))
       @ drop (unat offset + unat sz) (contents (bc_heap bc) i)"
proof -
  let ?i1 = "grown e (sz + offset) i" and ?bl = "block_list (bc_heap bc) i"
  let ?bc1 = "put_inode ident ?i1 bc"
  have b0: "unat offset div SIZE = b0" "unat offset mod SIZE = 0" using assms(4) by simp_all
  have "(m * SIZE + 0 + SIZE - 1) div SIZE = m" by (intro div_nat_eqI) auto
  then have "(unat sz + unat offset + SIZE - 1) div SIZE - unat offset div SIZE = m" by (simp only: rounds_at b0(2) assms(5))
  from write_state_rounds [OF this] assms(9)
  have fold: "fold (write_round (sub_env 2 e) ident buf (m * SIZE) offset b0) [0..<m] (?i1, ?bc1) = (i', bc')"
    by (simp only: b0(1) assms(5))
  have blocks: "dense (bc_heap ?bc1) ?i1" "all_full (bc_heap ?bc1) ?i1" "ino_blocks ?i1 = ino_blocks i"
      "block_list (bc_heap ?bc1) ?i1 = ?bl" "unshared ?i1"
    using dense_same_blocks [of ?i1 i] grown_blocks(1,2) [of e "sz + offset" i] assms(1-3)
    by (auto simp: block_list_def nth_block_def unshared_def)
  then have start: "overwritten buf b0 ?i1 ?bc1 ?bl 0 (?i1, ?bc1)" by (simp add: overwritten_def same_meta_def)
  have len: "b0 + m \<le> length (ino_blocks ?i1)" "length ?bl = length (ino_blocks ?i1)" using assms(7) blocks(3) by simp_all
  note o = overwrite_rounds [OF start blocks(5) len(1) assms(8) b0(2) len(2), of "sub_env 2 e" ident, unfolded fold]
  show "dense (bc_heap bc') i'" "map_of (bc_inode_ptrs bc') ident = Some (Some i')" "bc_inode_idx bc' = bc_inode_idx bc"
    using o assms(6) by (simp_all add: overwritten_def put_inode_def)
  have full: "\<forall>b \<in> set ?bl. length b = SIZE"
    using block_list_lengths(3) [OF assms(1) _ assms(2)] by (auto simp: in_set_conv_nth)
  have "block_list (bc_heap bc') i' = take b0 ?bl @ replicate m (take SIZE buf) @ drop (b0 + m) ?bl"
    using o by (simp add: overwritten_def)
  then have "contents (bc_heap bc') i' = concat (take b0 ?bl) @ concat (replicate m (take SIZE buf)) @ concat (drop (b0 + m) ?bl)"
    by (simp only: contents_block_list concat_append)
  moreover have "(b0 + m) * SIZE = unat offset + unat sz" using assms(4,5) by (simp add: algebra_simps)
  ultimately show "contents (bc_heap bc') i' = take (unat offset) (contents (bc_heap bc) i) @ concat (replicate m (take SIZE buf))
       @ drop (unat offset + unat sz) (contents (bc_heap bc) i)"
    by (simp only: contents_block_list concat_parts [OF full] assms(4))
qed

section \<open>A write that does not end\<close>

lemma write_loop_bound:
  assumes "write_loop e ident buf sz offset nb k idx cur bs i bc = Some y"
  shows "unat nb < 2 ^ 32"
proof (rule write_loop.raw_induct [OF _ assms])
  fix f e ident buf sz offset k idx cur bs i bc and nb :: u64 and y :: "(block_cache \<times> u64 \<times> u64) result"
  assume IH: "\<And>e ident buf sz offset (nb :: u64) k idx cur bs i bc y. f e ident buf sz offset nb k idx cur bs i bc = Some y \<Longrightarrow> unat nb < 2 ^ 32"
    and body: "(if ucast (idx :: u32) < nb then
        (let curr_idx1 = cur + bs;
             blk_size1 = next_size sz curr_idx1;
             offset_amt = (if k = 0 then (if offset < get_physical_size then offset else offset mod get_physical_size) else 0)
         in case write_block e ident buf k (ucast idx) curr_idx1 blk_size1 offset_amt i bc of
              Inl err \<Rightarrow> Some (Inl err)
            | Inr (i1, bc1) \<Rightarrow> f e ident buf sz offset nb (k + 1) (idx + 1) curr_idx1 blk_size1 i1 bc1)
      else Some (Inr (bc, cur, bs))) = Some y"
  show "unat nb < 2 ^ 32"
  proof (cases "ucast idx < nb")
    case True
    let ?amt = "if k = 0 then (if offset < get_physical_size then offset else offset mod get_physical_size) else 0"
    obtain i1 bc1 where "write_block e ident buf k (ucast idx) (cur + bs) (next_size sz (cur + bs)) ?amt i bc = Inr (i1, bc1)"
      using write_block_total by blast
    then have "f e ident buf sz offset nb (k + 1) (idx + 1) (cur + bs) (next_size sz (cur + bs)) i1 bc1 = Some y"
      using body True by (simp add: Let_def)
    then show ?thesis by (rule IH)
  next
    case False
    then have "unat nb \<le> unat idx" by (simp add: word_less_nat_alt)
    also have "unat idx < 2 ^ 32" using unsigned_less [of idx] by simp
    finally show ?thesis .
  qed
qed

section \<open>Properties\<close>



text \<open>
  (C17) The block counter of \<open>write\<close> has 32 bits: a write that ends in the last block below
  16 TiB or beyond never ends.
\<close>

theorem write_diverges:
  assumes "map_of (bc_inode_idx bc) path = Some ident" "map_of (bc_inode_ptrs bc) ident = Some (Some i)"
    "2 ^ 44 - SIZE < unat sz + unat offset" "unat sz + unat offset < 2 ^ 64"
  shows "cache_write e path buf sz offset bc = None"
proof -
  let ?nb = "ulong_ceil (sz + offset) get_physical_size"
  have "unat (sz + offset) = unat sz + unat offset" using assms(4) by (intro unat_add_small) simp
  then have "unat ?nb = (unat sz + unat offset + SIZE - 1) div SIZE"
    using unat_ulong_ceil [of get_physical_size "sz + offset"] by (simp add: get_physical_size_def)
  then have "\<not> unat ?nb < 2 ^ 32" using assms(3) by (simp add: div_less_iff_less_mult)
  then have none: "write_loop e' ident' buf sz offset ?nb k idx cur bs i' bc' = None" for e' ident' k idx cur bs i' bc'
    using write_loop_bound by fastforce
  have "on_inode path (remake_inode \<circ> inode_set_dirty) bc = Inr (put_inode ident (remake_inode (inode_set_dirty i)) bc)"
    using on_inode_cached [OF assms(1,2)] by simp
  moreover have "in_cache path bc = 0" using assms(1) by (simp add: in_cache_def)
  ultimately show ?thesis using deref_put [OF assms(1)] none by (simp add: cache_write_def map_sum_def Let_def)
qed

theorem write_diverges_witness: "cache_write sample_env ''/f'' [7] 1 (2 ^ 44) sample_cache = None"
  using sample_cache_fields(1,2) by (intro write_diverges [where ident = "''01''"]) auto

text \<open>
  (C11) Appending at a block boundary works for buffers of any length, over as many blocks as
  they need: on a file in the cache whose blocks are all full, a \<open>write\<close> at its end returns the
  size, the file then has its old contents followed by the buffer, its size covers the write,
  and a \<open>read\<close> of any range of it gives the bytes of this range.
\<close>

theorem write_appends:
  assumes "map_of (bc_inode_idx bc) path = Some ident" "map_of (bc_inode_ptrs bc) ident = Some (Some i)"
    "dense (bc_heap bc) i" "all_full (bc_heap bc) i" "unat offset = length (ino_blocks i) * SIZE"
    "unat sz \<le> length buf" "unat sz + unat offset < 2 ^ 44 - SIZE"
  shows "\<exists>bc' i'. cache_write e path buf sz offset bc = Some (Inr (bc', sint (ucast sz :: u32)))
    \<and> map_of (bc_inode_ptrs bc') ident = Some (Some i') \<and> dense (bc_heap bc') i'
    \<and> contents (bc_heap bc') i' = contents (bc_heap bc) i @ take (unat sz) buf
    \<and> ino_size i' = max (ino_size i) (sz + offset) \<and> ino_deleted i' = 0
    \<and> (\<forall>n2 off2. unat off2 < 2 ^ 44 \<longrightarrow> cache_read e path n2 off2 bc'
         = Some (Inr (bc', take (unat n2) (drop (unat off2) (contents (bc_heap bc) i @ take (unat sz) buf)), sint (ucast n2 :: u32))))"
proof -
  obtain i' bc1 where st: "write_state e ident buf sz offset i bc = (i', bc1)" by fastforce
  let ?bc' = "bc1\<lparr>bc_has_changed := True\<rparr>"
  obtain m where m: "unat sz \<le> m * SIZE" "appended ident (contents (bc_heap bc) i) (take (unat sz) buf) (length (ino_blocks i))
      (grown e (sz + offset) i) bc m (i', bc1)"
    using append_state [OF assms(2-7), of e] st by auto
  have "cache_write e path buf sz offset bc = Some (Inr (?bc', sint (ucast sz :: u32)))"
    using cache_write_cached [OF assms(1,2,7)] st by simp
  moreover have a: "dense (bc_heap ?bc') i'" "contents (bc_heap ?bc') i' = contents (bc_heap bc) i @ take (unat sz) buf"
      "map_of (bc_inode_ptrs ?bc') ident = Some (Some i')" "map_of (bc_inode_idx ?bc') path = Some ident"
      "same_meta i' (grown e (sz + offset) i)"
    using m assms(1) by (auto simp: appended_def)
  moreover have "ino_size i' = max (ino_size i) (sz + offset)" "ino_deleted i' = 0"
    using a(5) grown_blocks(3,4) by (simp_all add: same_meta_def)
  ultimately show ?thesis using read_cached_dense [OF a(4,3,1)] a(2) by (intro exI [of _ ?bc'] exI [of _ i']) simp
qed

theorem write_appends_witness:
  "\<exists>bc'. cache_write sample_env ''/f'' [1, 2, 3] 3 0 sample_cache = Some (Inr (bc', 3))
    \<and> cache_read sample_env ''/f'' 2 1 bc' = Some (Inr (bc', [2, 3], 2))"
proof -
  let ?i = "inode_set_dirty (set_mode (e_clk sample_env 1) 0x81A4 (inode_new (e_hash sample_env) (e_clk sample_env 0) 0 ''/f''))"
  have bl: "ino_blocks ?i = []" "ino_links ?i = [''/f'']" by (simp_all add: inode_set_dirty_def set_mode_def Let_def inode_new_def)
  then have "dense [] ?i" "all_full [] ?i" "contents [] ?i = []" by (simp_all add: dense_def inode_inv_def all_full_def contents_def)
  with bl write_appends [of sample_cache "''/f''" "''01''" ?i 0 3 "[1, 2, 3]" sample_env] sample_cache_fields
  obtain bc' where "cache_write sample_env ''/f'' [1, 2, 3] 3 0 sample_cache = Some (Inr (bc', sint (ucast (3::u64) :: u32)))"
      "\<forall>n2 off2. unat off2 < 2 ^ 44 \<longrightarrow> cache_read sample_env ''/f'' n2 off2 bc'
         = Some (Inr (bc', take (unat n2) (drop (unat off2) [1, 2, 3]), sint (ucast n2 :: u32)))"
    by auto
  from this(1) this(2) [rule_format, of 1 2] show ?thesis by auto
qed

text \<open>
  A \<open>write\<close> that stays inside one block that exists changes exactly its range: the file
  has its old bytes before the offset, then the buffer, then its old bytes after it, for every
  offset inside the file, aligned or not.
\<close>

theorem write_in_block:
  assumes "map_of (bc_inode_idx bc) path = Some ident" "map_of (bc_inode_ptrs bc) ident = Some (Some i)"
    "dense (bc_heap bc) i" "unshared i" "unat offset div SIZE < length (ino_blocks i)" "unat offset \<le> length (contents (bc_heap bc) i)"
    "0 < unat sz" "unat offset mod SIZE + unat sz \<le> SIZE" "unat sz \<le> length buf" "unat sz + unat offset < 2 ^ 44 - SIZE"
  shows "\<exists>bc' i'. cache_write e path buf sz offset bc = Some (Inr (bc', sint (ucast sz :: u32)))
    \<and> map_of (bc_inode_ptrs bc') ident = Some (Some i') \<and> dense (bc_heap bc') i'
    \<and> contents (bc_heap bc') i' = take (unat offset) (contents (bc_heap bc) i) @ take (unat sz) buf
        @ drop (unat offset + unat sz) (contents (bc_heap bc) i)
    \<and> ino_size i' = max (ino_size i) (sz + offset)"
proof -
  obtain i' bc1 where st: "write_state e ident buf sz offset i bc = (i', bc1)" by fastforce
  note w = write_in_block_state [OF assms(3-9) st]
  have "ino_size i' = max (ino_size i) (sz + offset)" using w(4) grown_blocks(3) by (simp add: same_meta_def)
  then show ?thesis using cache_write_cached [OF assms(1,2,10)] st w by (intro exI [of _ "bc1\<lparr>bc_has_changed := True\<rparr>"] exI [of _ i']) simp
qed

text \<open>
  (C15) A \<open>write\<close> over several blocks that exist does not store the buffer: \<open>insert\<close> gets the
  start of the buffer in every round, so each of the \<open>m\<close> blocks gets the first block of the
  buffer, and the rest of the buffer is lost.
\<close>

theorem overwrite_repeats_first_block:
  assumes "map_of (bc_inode_idx bc) path = Some ident" "map_of (bc_inode_ptrs bc) ident = Some (Some i)"
    "dense (bc_heap bc) i" "all_full (bc_heap bc) i" "unshared i" "unat offset = b0 * SIZE" "unat sz = m * SIZE" "0 < m"
    "b0 + m \<le> length (ino_blocks i)" "m * SIZE \<le> length buf" "unat sz + unat offset < 2 ^ 44 - SIZE"
  shows "\<exists>bc' i'. cache_write e path buf sz offset bc = Some (Inr (bc', sint (ucast sz :: u32)))
    \<and> map_of (bc_inode_ptrs bc') ident = Some (Some i') \<and> dense (bc_heap bc') i'
    \<and> contents (bc_heap bc') i' = take (unat offset) (contents (bc_heap bc) i) @ concat (replicate m (take SIZE buf))
        @ drop (unat offset + unat sz) (contents (bc_heap bc) i)"
proof -
  obtain i' bc1 where st: "write_state e ident buf sz offset i bc = (i', bc1)" by fastforce
  note w = overwrite_state [OF assms(3-10) st]
  show ?thesis using cache_write_cached [OF assms(1,2,11)] st w by (intro exI [of _ "bc1\<lparr>bc_has_changed := True\<rparr>"] exI [of _ i']) simp
qed

text \<open>A file of two full blocks, in a cache with nothing else.\<close>

definition two_blocks :: block_cache where
  "two_blocks = sample_cache\<lparr>bc_heap := [block_of (replicate SIZE 1) 4096, block_of (replicate SIZE 2) 4096],
     bc_inode_ptrs := [(''01'', Some ((inode_new (\<lambda>_. [1]) (\<lambda>_. \<lparr>tv_sec = 5, tv_nsec = 0\<rparr>) 0 ''/f'')\<lparr>ino_blocks := [(0, 0), (1, 1)]\<rparr>))]\<rparr>"

definition two_inode :: inode where
  "two_inode = (inode_new (\<lambda>_. [1]) (\<lambda>_. \<lparr>tv_sec = 5, tv_nsec = 0\<rparr>) 0 ''/f'')\<lparr>ino_blocks := [(0, 0), (1, 1)]\<rparr>"

lemma two_blocks_fields:
  "map_of (bc_inode_idx two_blocks) ''/f'' = Some ''01''" "map_of (bc_inode_ptrs two_blocks) ''01'' = Some (Some two_inode)"
  "length (ino_blocks two_inode) = 2" "unshared two_inode"
  by (simp_all add: two_blocks_def two_inode_def sample_cache_fields unshared_def)

lemma two_blocks_bytes:
  "block_inv (block_of (replicate SIZE v) 4096)" "block_bytes (block_of (replicate SIZE v) 4096) = replicate SIZE v"
  "unat (blk_actual_size (block_of (replicate SIZE v) 4096)) = SIZE"
proof -
  have u: "unat (4096 :: u64) = SIZE" by simp
  note b = block_of_bytes [of 4096 "replicate SIZE v", unfolded u length_replicate, OF order_refl order_refl]
  show inv: "block_inv (block_of (replicate SIZE v) 4096)" "unat (blk_actual_size (block_of (replicate SIZE v) 4096)) = SIZE"
    using b by simp_all
  show "block_bytes (block_of (replicate SIZE v) 4096) = replicate SIZE v"
    using b get_data_inv [OF inv(1)] by (simp add: take_all)
qed

lemma two_blocks_dense:
  "dense (bc_heap two_blocks) two_inode" "all_full (bc_heap two_blocks) two_inode"
  "contents (bc_heap two_blocks) two_inode = replicate SIZE 1 @ replicate SIZE 2"
proof -
  note b = two_blocks_bytes
  have nth: "nth_block (bc_heap two_blocks) two_inode 0 = block_of (replicate SIZE 1) 4096"
      "nth_block (bc_heap two_blocks) two_inode 1 = block_of (replicate SIZE 2) 4096"
    by (simp_all add: nth_block_def two_blocks_def two_inode_def)
  have k: "k = 0 \<or> k = 1" if "k < 2" for k :: nat using that by auto
  have full: "unat (blk_actual_size (nth_block (bc_heap two_blocks) two_inode k)) = SIZE" if "k < 2" for k
    using k [OF that] nth b(3) by auto
  then show "all_full (bc_heap two_blocks) two_inode" using two_blocks_fields(3) by (simp add: all_full_def)
  have "inode_inv (bc_heap two_blocks) two_inode"
    using b(1) by (simp add: inode_inv_def two_blocks_def two_inode_def inode_new_def)
  moreover have "map_of (ino_blocks two_inode) (of_nat k) \<noteq> None" if "k < 2" for k
    using k [OF that] by (auto simp: two_inode_def)
  ultimately show "dense (bc_heap two_blocks) two_inode"
    using full two_blocks_fields(3) by (simp add: dense_def)
  have "[0..<2] = [0, 1 :: nat]" by (simp add: upt_rec)
  then show "contents (bc_heap two_blocks) two_inode = replicate SIZE 1 @ replicate SIZE 2"
    using nth b(2) two_blocks_fields(3) by (simp add: contents_def)
qed

theorem write_in_block_witness:
  "\<exists>bc' i'. cache_write sample_env ''/f'' [7, 8] 2 4097 two_blocks = Some (Inr (bc', 2))
    \<and> contents (bc_heap bc') i' = replicate SIZE 1 @ [2, 7, 8] @ replicate 4093 2"
proof -
  have u: "unat (4097 :: u64) = SIZE + 1" "unat (2 :: u64) = 2" "unat (4097 :: u64) mod SIZE = 1" "unat (4097 :: u64) div SIZE = 1" by simp_all
  have len: "SIZE + 1 \<le> length (contents (bc_heap two_blocks) two_inode)" by (simp add: two_blocks_dense(3))
  have parts: "take (SIZE + 1) (replicate SIZE (1 :: u8) @ replicate SIZE 2) = replicate SIZE 1 @ [2]"
      "drop (SIZE + 1 + 2) (replicate SIZE (1 :: u8) @ replicate SIZE 2) = replicate 4093 2"
    by simp_all
  note w = write_in_block [OF two_blocks_fields(1,2) two_blocks_dense(1) two_blocks_fields(4), of 4097 2 "[7, 8]" sample_env,
      unfolded u two_blocks_fields(3) two_blocks_dense(3) parts]
  show ?thesis using w len by (auto simp: two_blocks_dense(3))
qed

theorem overwrite_repeats_first_block_witness:
  "\<exists>bc' i'. cache_write sample_env ''/f'' (replicate SIZE 3 @ replicate SIZE 4) 8192 0 two_blocks = Some (Inr (bc', 8192))
    \<and> contents (bc_heap bc') i' = replicate SIZE 3 @ replicate SIZE 3"
proof -
  have u: "unat (0 :: u64) = 0 * SIZE" "unat (8192 :: u64) = 2 * SIZE" by simp_all
  have parts: "concat (replicate 2 (take SIZE (replicate SIZE (3 :: u8) @ replicate SIZE 4))) = replicate SIZE 3 @ replicate SIZE 3"
    by (simp add: numeral_2_eq_2)
  note w = overwrite_repeats_first_block [OF two_blocks_fields(1,2) two_blocks_dense(1,2) two_blocks_fields(4) u, of
      "replicate SIZE 3 @ replicate SIZE 4" sample_env, unfolded u two_blocks_fields(3) two_blocks_dense(3) parts]
  show ?thesis using w by auto
qed

end
