(* ===== verification/Cache_Flush.thy ===== *)
theory Cache_Flush
  imports Cache_Write
begin

text \<open>
  \<open>BlockCache::flush_to_disk\<close>: it writes one tree file that has every inode of the cache and
  its dirty blocks, and a loader that maps this file finds them again. A rename in front of
  the flush loses the contents.
\<close>

section \<open>The file of the index\<close>

definition same_file :: "bplus \<Rightarrow> bplus \<Rightarrow> bool" where
  "same_file bp bp' \<longleftrightarrow> tf_file (bp_mem bp') = tf_file (bp_mem bp) \<and> bp_root_ptr bp' = bp_root_ptr bp"

lemma same_file_simps [simp]:
  "same_file bp (bp\<lparr>bp_img := img\<rparr>)"
  "same_file bp (bp\<lparr>bp_mem := fst (get_tire (bp_mem bp) n), bp_img := img\<rparr>)"
  "same_file bp (bp\<lparr>bp_mem := fst (get_tire (bp_mem bp) n), bp_rootidx := r, bp_img := img\<rparr>)"
  by (simp_all add: same_file_def get_tire_rest)

lemma same_file_trans: "same_file a b \<Longrightarrow> same_file b c \<Longrightarrow> same_file a c"
  by (simp add: same_file_def)

lemma split_half_file: "split_half bp nodeoffset k v isparent targ = Inr (bp', rest) \<Longrightarrow> same_file bp bp'"
  by (auto simp: split_half_def Let_def case_prod_beta split: sum.splits if_splits)

lemma make_root_file: "make_root bp nodeoffset right nkey = Inr (bp', r) \<Longrightarrow> same_file bp bp'"
  by (auto simp: make_root_def Let_def case_prod_beta split: sum.splits)

lemma split_insert_file:
  assumes "split_insert_node bp nodeoffset k v isparent targ = Some y"
  shows "\<forall>bp' r. y = Inr (bp', r) \<longrightarrow> same_file bp bp'"
proof (rule split_insert_node.raw_induct [OF _ assms])
  fix f bp nodeoffset k v isparent targ and y :: "(bplus \<times> int) result"
  assume IH: "\<And>bp nodeoffset k v isparent targ y. f bp nodeoffset k v isparent targ = Some y \<Longrightarrow> \<forall>bp' r. y = Inr (bp', r) \<longrightarrow> same_file bp bp'"
    and body: "(if n_num_keys (im_nodes (bp_img bp) nodeoffset) \<noteq> ORDER - 1
      then Some (Inr (bp, nodeoffset))
      else case split_half bp nodeoffset k v isparent targ of
             Inl e \<Rightarrow> Some (Inl e)
           | Inr (bp1, rightidx, right, med_key_of) \<Rightarrow>
               (let paroff = n_parent (im_nodes (bp_img bp1) nodeoffset);
                    nkey = (if isparent then med_key_of else n_keys (im_nodes (bp_img bp1) right) ! 0)
                in if paroff = -1 then Some (make_root bp1 nodeoffset right nkey)
                   else if n_num_keys (im_nodes (bp_img bp1) paroff) = ORDER - 1
                   then Option.bind (f bp1 paroff med_key_of (-1) True rightidx)
                          (\<lambda>r. Some (case r of Inl e \<Rightarrow> Inl e | Inr (bp2, _) \<Rightarrow> Inr (bp2, -1)))
                   else Some (Inr (bp1\<lparr>bp_img := upd_node right (\<lambda>n. n\<lparr>n_parent := paroff\<rparr>)
                          (fst (insert_into_node (bp_img bp1) paroff nkey v False right))\<rparr>, -1)))) = Some y"
  show "\<forall>bp' r. y = Inr (bp', r) \<longrightarrow> same_file bp bp'"
  proof (cases "n_num_keys (im_nodes (bp_img bp) nodeoffset) \<noteq> ORDER - 1")
    case True
    then show ?thesis using body by (auto simp: same_file_def)
  next
    case full: False
    show ?thesis
    proof (cases "split_half bp nodeoffset k v isparent targ")
      case (Inl e)
      then show ?thesis using body full by auto
    next
      case (Inr s)
      obtain bp1 rightidx right med where s: "s = (bp1, rightidx, right, med)" by (cases s)
      have half: "same_file bp bp1" using Inr s split_half_file by blast
      let ?par = "n_parent (im_nodes (bp_img bp1) nodeoffset)"
      show ?thesis
      proof (cases "?par \<noteq> -1 \<and> n_num_keys (im_nodes (bp_img bp1) ?par) = ORDER - 1")
        case True
        then obtain y1 where y1: "f bp1 ?par med (-1) True rightidx = Some y1" "y = (case y1 of Inl e \<Rightarrow> Inl e | Inr (bp2, _) \<Rightarrow> Inr (bp2, -1))"
          using body full Inr s by (auto simp: Let_def bind_eq_Some_conv)
        show ?thesis using IH [OF y1(1)] y1(2) half by (auto split: sum.splits intro: same_file_trans)
      next
        case False
        then show ?thesis
          using body full Inr s make_root_file half by (auto simp: Let_def split: if_splits intro: same_file_trans)
      qed
    qed
  qed
qed

lemma store_inode_file: "store_inode i bp = Inr bp' \<Longrightarrow> same_file bp bp'"
  by (auto simp: store_inode_def Let_def split: sum.splits if_splits)

lemma store_blocks_file: "store_blocks dbs mts bp = Inr bp' \<Longrightarrow> same_file bp bp'"
proof (induction dbs mts bp rule: store_blocks.induct)
  case (2 bid b dbs mts bp)
  then show ?case by (fastforce simp: Let_def same_file_def split: sum.splits if_splits)
qed (simp add: same_file_def)

lemma finish_inode_file: "finish_inode i n m bp = Inr (bp', r) \<Longrightarrow> same_file bp bp'"
  by (auto simp: finish_inode_def Let_def same_file_def split: sum.splits)

lemma only_state_Some:
  "map_option (\<lambda>r. case r of Inl e \<Rightarrow> Inl e | Inr (bp', _) \<Rightarrow> Inr bp') m = Some (Inr bp') \<longleftrightarrow> (\<exists>x. m = Some (Inr (bp', x)))"
  by (cases m) (auto split: sum.splits)

lemma insert_key_file: "insert_key isroot ident (bp, r) = Some (Inr bp') \<Longrightarrow> same_file bp bp'"
  by (cases r) (auto simp: insert_key_def only_state_Some simp del: map_option_eq_Some dest!: split_insert_file
      split: sum.splits if_splits option.splits)

lemma init_tree_file: "init_tree bp = Inr bp' \<Longrightarrow> tf_file (bp_mem bp') = tf_file (bp_mem bp) \<and> bp_root_ptr bp'"
  by (auto simp: init_tree_def Let_def case_prod_beta get_tire_rest split: sum.splits)

lemma add_inode_file:
  assumes "add_inode i dbs mts bp = Some (Inr bp')"
  shows "tf_file (bp_mem bp') = tf_file (bp_mem bp) \<and> bp_root_ptr bp'"
proof -
  obtain bp1 bp2 bp3 bp4 r where steps: "(if \<not> bp_root_ptr bp then init_tree bp else Inr bp) = Inr bp1" "store_inode i bp1 = Inr bp2"
      "store_blocks dbs mts bp2 = Inr bp3" "finish_inode i (bp_cur_bd_arr_idx bp2) (length dbs) bp3 = Inr (bp4, r)"
      "insert_key (\<not> bp_root_ptr bp) (get_id i) (bp4, r) = Some (Inr bp')"
    using assms unfolding add_inode_def Let_def by (auto split: sum.splits)
  have "tf_file (bp_mem bp1) = tf_file (bp_mem bp) \<and> bp_root_ptr bp1"
    using steps(1) init_tree_file by (auto split: if_splits)
  then show ?thesis
    using store_inode_file [OF steps(2)] store_blocks_file [OF steps(3)] finish_inode_file [OF steps(4)] insert_key_file [OF steps(5)]
    by (simp add: same_file_def)
qed

lemma add_all_file:
  "add_all xs bp = Some (Inr bp') \<Longrightarrow> tf_file (bp_mem bp') = tf_file (bp_mem bp) \<and> (xs \<noteq> [] \<longrightarrow> bp_root_ptr bp')"
proof (induction xs arbitrary: bp)
  case (Cons x xs)
  obtain i dbs mts where x: "x = (i, dbs, mts)" by (cases x)
  obtain bp1 where 1: "add_inode i dbs mts bp = Some (Inr bp1)" "add_all xs bp1 = Some (Inr bp')"
    using Cons.prems x by (auto split: option.splits sum.splits)
  show ?case using add_inode_file [OF 1(1)] Cons.IH [OF 1(2)] 1(2) by (cases xs) auto
qed simp

section \<open>The inodes a flush adds\<close>

definition blocks_of :: "block_cache \<Rightarrow> string \<Rightarrow> (u64 \<times> block) list" where
  "blocks_of bc ident = map (\<lambda>(bid, p). (bid, bc_heap bc ! p)) (row ident (bc_dirty_block bc))"

definition job_of :: "block_cache \<Rightarrow> string \<times> string \<Rightarrow> job" where
  "job_of bc = (\<lambda>(path, ident). (the (the (map_of (bc_inode_ptrs bc) ident)), blocks_of bc ident, row ident (bc_dirty_block_mtime bc)))"

text \<open>Two caches that differ only in empty rows of the dirty blocks.\<close>

definition same_rows :: "block_cache \<Rightarrow> block_cache \<Rightarrow> bool" where
  "same_rows bc bc' \<longleftrightarrow> (\<exists>d m. bc' = bc\<lparr>bc_dirty_block := d, bc_dirty_block_mtime := m\<rparr>
     \<and> (\<forall>ident. row ident d = row ident (bc_dirty_block bc)) \<and> (\<forall>ident. row ident m = row ident (bc_dirty_block_mtime bc)))"

lemma row_touch: "row k' (touch k m) = row k' m"
  by (auto simp: row_def touch_def omap_put_find split: option.split)

lemma same_rows_refl: "same_rows bc bc"
  unfolding same_rows_def by (intro exI [of _ "bc_dirty_block bc"] exI [of _ "bc_dirty_block_mtime bc"]) simp

lemma same_rows_touch: "same_rows bc (bc\<lparr>bc_dirty_block := touch ident (bc_dirty_block bc), bc_dirty_block_mtime := touch ident (bc_dirty_block_mtime bc)\<rparr>)"
  unfolding same_rows_def by (blast intro: row_touch)

lemma same_rows_trans: "same_rows a b \<Longrightarrow> same_rows b c \<Longrightarrow> same_rows a c"
  unfolding same_rows_def by fastforce

lemma same_rows_job: "same_rows bc bc' \<Longrightarrow> job_of bc' = job_of bc"
  by (auto simp: same_rows_def job_of_def blocks_of_def fun_eq_iff)

lemma flush_inodes_jobs:
  assumes "\<forall>(path, ident) \<in> set es. map_of (bc_inode_idx bc) path = Some ident \<and> (\<exists>i. map_of (bc_inode_ptrs bc) ident = Some (Some i))"
    "add_all (map (job_of bc) es) fl = Some (Inr fl')"
  shows "\<exists>bc'. flush_inodes es bc fl = Some (Inr (bc', fl')) \<and> same_rows bc bc'"
  using assms
proof (induction es arbitrary: bc fl)
  case (Cons x es)
  obtain path ident where x: "x = (path, ident)" by (cases x)
  obtain i where i: "map_of (bc_inode_idx bc) path = Some ident" "map_of (bc_inode_ptrs bc) ident = Some (Some i)"
    using Cons.prems(1) x by auto
  let ?bc = "bc\<lparr>bc_dirty_block := touch ident (bc_dirty_block bc), bc_dirty_block_mtime := touch ident (bc_dirty_block_mtime bc)\<rparr>"
  have deref: "deref_path path bc = Inr (bc, ident, i)" using i by (simp add: deref_path_def get_inode_by_path_def)
  obtain fl1 where fl1: "add_inode i (blocks_of bc ident) (row ident (bc_dirty_block_mtime bc)) fl = Some (Inr fl1)"
      "add_all (map (job_of bc) es) fl1 = Some (Inr fl')"
    using Cons.prems(2) i(2) x by (auto simp: job_of_def split: option.splits sum.splits)
  have "add_all (map (job_of ?bc) es) fl1 = Some (Inr fl')" using fl1(2) by (simp only: same_rows_job [OF same_rows_touch])
  then obtain bc' where "flush_inodes es ?bc fl1 = Some (Inr (bc', fl'))" "same_rows ?bc bc'"
    using Cons.IH [of ?bc fl1] Cons.prems(1) by auto
  then show ?case
    using fl1(1) deref x same_rows_trans [OF same_rows_touch]
    by (auto simp: Let_def row_touch blocks_of_def)
qed (auto intro: same_rows_refl)

section \<open>The totals\<close>

lemma fold_count: "fold (\<lambda>x n. n + of_nat (g x)) xs (of_nat a :: u64) = of_nat (a + sum_list (map g xs))"
proof (induction xs arbitrary: a)
  case (Cons x xs)
  have "fold (\<lambda>x n. n + of_nat (g x)) (x # xs) (of_nat a :: u64) = fold (\<lambda>x n. n + of_nat (g x)) xs (of_nat (a + g x))" by simp
  then show ?case by (simp only: Cons.IH) (simp add: add.assoc)
qed simp

definition row_sum :: "(u64 \<times> 'a \<Rightarrow> nat) \<Rightarrow> (string \<times> (u64 \<times> 'a) list) list \<Rightarrow> nat" where
  "row_sum g m = sum_list (map (\<lambda>(ident, r). sum_list (map g r)) m)"

lemma fold_rows:
  "fold (\<lambda>(ident, r) n. fold (\<lambda>x n. n + of_nat (g x)) r n) m (0 :: u64) = of_nat (row_sum g m)"
proof -
  have "fold (\<lambda>(ident, r) n. fold (\<lambda>x n. n + of_nat (g x)) r n) m (of_nat a :: u64) = of_nat (a + row_sum g m)" for a
    by (induction m arbitrary: a) (auto simp: row_sum_def fold_count add.assoc simp del: of_nat_add)
  from this [of 0] show ?thesis by simp
qed

lemma int_sum_list: "int (sum_list xs) = sum_list (map int xs)"
  by (induction xs) simp_all

lemma dirty_totals:
  "dirty_size bc = of_nat (row_sum (\<lambda>(bid, p). unat (get_actual_size (bc_heap bc ! p))) (bc_dirty_block bc))"
  "dirty_count bc = of_nat (row_sum (\<lambda>x. 1) (bc_dirty_block bc))"
  "path_size bc = of_nat (sum_list (map (\<lambda>(path, ident). length path) (bc_inode_idx bc)))"
proof -
  let ?g = "\<lambda>(bid, p). unat (get_actual_size (bc_heap bc ! p))"
  have g: "(\<lambda>(bid, p) n. n + get_actual_size (bc_heap bc ! p)) = (\<lambda>x n. n + of_nat (?g x))"
    by (simp add: fun_eq_iff)
  show "dirty_size bc = of_nat (row_sum ?g (bc_dirty_block bc))" unfolding dirty_size_def g by (rule fold_rows)
  have one: "(\<lambda>(bid :: u64, p :: bptr) n. n + 1) = (\<lambda>x n. n + of_nat 1 :: u64)" by (simp add: fun_eq_iff)
  show "dirty_count bc = of_nat (row_sum (\<lambda>x. 1) (bc_dirty_block bc))" unfolding dirty_count_def one by (rule fold_rows)
  have path: "(\<lambda>(path, ident :: string) n. n + of_nat (length path)) = (\<lambda>x n. n + of_nat ((\<lambda>(path, ident). length path) x) :: u64)"
    by (simp add: fun_eq_iff)
  show "path_size bc = of_nat (sum_list (map (\<lambda>(path, ident). length path) (bc_inode_idx bc)))"
    unfolding path_size_def path using fold_count [of "\<lambda>(path, ident). length path" "bc_inode_idx bc" 0] by simp
qed

lemma row_sum_mult: "sum_list (map (\<lambda>(ident, r). c * f r) m) = (c :: nat) * sum_list (map (\<lambda>(ident, r). f r) m)"
  by (induction m) (auto simp: add_mult_distrib2)

lemma row_sum_ids:
  assumes "keys_sorted m" "distinct ids" "\<forall>ident. ident \<notin> set ids \<longrightarrow> row ident m = []"
  shows "row_sum g m = sum_list (map (\<lambda>ident. sum_list (map g (row ident m))) ids)"
proof -
  let ?f = "\<lambda>ident. sum_list (map g (row ident m))"
  have d: "distinct (map fst m)" using assms(1) by (rule omap.ok_distinct)
  have none: "row ident m = []" if "ident \<notin> fst ` set m" for ident
  proof -
    have "map_of m ident = None" using that by (simp add: map_of_eq_None_iff)
    then show ?thesis by (simp add: row_def)
  qed
  have "row_sum g m = sum_list (map (?f \<circ> fst) m)"
    unfolding row_sum_def using d by (intro arg_cong [where f = sum_list] map_cong) (auto simp: row_def)
  also have "\<dots> = sum ?f (fst ` set m)"
    using d by (simp only: map_map [symmetric] sum_list_distinct_conv_sum_set list.set_map)
  also have "\<dots> = sum ?f (fst ` set m \<union> set ids)" using none by (intro sum.mono_neutral_left) auto
  also have "\<dots> = sum ?f (set ids)" using assms(3) by (intro sum.mono_neutral_right) auto
  also have "\<dots> = sum_list (map ?f ids)" using assms(2) by (simp add: sum_list_distinct_conv_sum_set)
  finally show ?thesis .
qed

text \<open>
  A cache a flush can write: each path is that of its inode, no two paths share an id, the
  dirty blocks belong to inodes of the cache, and the sums fit their types.
\<close>

definition flushable :: "block_cache \<Rightarrow> bool" where
  "flushable bc \<longleftrightarrow> cache_wf bc \<and> bc_inode_idx bc \<noteq> [] \<and> distinct (map snd (bc_inode_idx bc))
     \<and> (\<forall>(path, ident) \<in> set (bc_inode_idx bc). nul_free ident \<and> length ident < HASH_SIZE
          \<and> (\<forall>i. map_of (bc_inode_ptrs bc) ident = Some (Some i) \<longrightarrow> ino_path i = path))
     \<and> (\<forall>ident. ident \<notin> snd ` set (bc_inode_idx bc) \<longrightarrow> row ident (bc_dirty_block bc) = [])
     \<and> (\<forall>(ident, r) \<in> set (bc_dirty_block bc). \<forall>(bid, p) \<in> set r. block_inv (bc_heap bc ! p))
     \<and> SIZE * row_sum (\<lambda>x. 1) (bc_dirty_block bc) < 2 ^ 63
     \<and> sum_list (map (\<lambda>(path, ident). length path) (bc_inode_idx bc)) < 2 ^ 63"

lemma flushable_job:
  assumes "flushable bc" "(path, ident) \<in> set (bc_inode_idx bc)"
  shows "\<exists>i. map_of (bc_inode_idx bc) path = Some ident \<and> map_of (bc_inode_ptrs bc) ident = Some (Some i)
    \<and> job_of bc (path, ident) = (i, blocks_of bc ident, row ident (bc_dirty_block_mtime bc)) \<and> get_id i = ident \<and> get_path i = path"
proof -
  have wf: "cache_wf bc" using assms(1) by (simp add: flushable_def)
  then have "distinct (map fst (bc_inode_idx bc))" by (simp add: cache_wf_def omap.ok_distinct)
  then have idx: "map_of (bc_inode_idx bc) path = Some ident" using assms(2) by simp
  then obtain i where i: "map_of (bc_inode_ptrs bc) ident = Some (Some i)" using deref_cached [OF wf idx] by blast
  then have "get_id i = ident" using wf by (auto simp: cache_wf_def inode_wf_def get_id_def)
  moreover have "get_path i = path" using assms i by (auto simp: flushable_def get_path_def)
  ultimately show ?thesis using idx i by (simp add: job_of_def)
qed

lemma dirty_row_wf:
  assumes "cache_wf bc"
  shows "dirty_wf (bc_heap bc) (row ident (bc_dirty_block bc))"
proof (cases "map_of (bc_dirty_block bc) ident")
  case (Some r)
  then show ?thesis using assms unfolding cache_wf_def row_def by simp
qed (simp add: row_def dirty_wf_def)

lemma flushable_row:
  assumes "flushable bc" "(bid, b) \<in> set (blocks_of bc ident)"
  shows "block_inv b"
proof (cases "map_of (bc_dirty_block bc) ident")
  case None
  then show ?thesis using assms(2) by (simp add: blocks_of_def row_def)
next
  case (Some r)
  then have "(ident, r) \<in> set (bc_dirty_block bc)" by (rule map_of_SomeD)
  then have "\<forall>(bid, p) \<in> set r. block_inv (bc_heap bc ! p)" using assms(1) unfolding flushable_def by blast
  then show ?thesis using assms(2) Some by (auto simp: blocks_of_def row_def)
qed

lemma flushable_jobs:
  assumes "flushable bc"
  shows "jobs_ok (map (job_of bc) (bc_inode_idx bc))"
proof -
  let ?es = "bc_inode_idx bc"
  have ids: "map job_id (map (job_of bc) ?es) = map snd ?es" using flushable_job [OF assms] by (auto simp: job_of_def)
  have "job_ok x \<and> distinct (map fst (fst (snd x)))" if x: "x \<in> set (map (job_of bc) ?es)" for x
  proof -
    obtain path ident where e: "(path, ident) \<in> set ?es" "x = job_of bc (path, ident)" using x by auto
    obtain i where i: "x = (i, blocks_of bc ident, row ident (bc_dirty_block_mtime bc))" "get_id i = ident"
      using flushable_job [OF assms e(1)] e(2) by auto
    have "nul_free ident \<and> length ident < HASH_SIZE" using assms e(1) by (auto simp: flushable_def)
    moreover have "keys_sorted (row ident (bc_dirty_block bc))"
      using dirty_row_wf [of bc ident] assms by (simp add: flushable_def dirty_wf_def)
    then have "distinct (map fst (row ident (bc_dirty_block bc)))" by (rule omap.ok_distinct)
    then have "distinct (map fst (blocks_of bc ident))" by (simp add: blocks_of_def comp_def case_prod_beta)
    ultimately show ?thesis using i flushable_row [OF assms] by (auto simp: job_ok_def)
  qed
  then show ?thesis using assms unfolding jobs_ok_def ids by (auto simp: flushable_def)
qed

lemma flushable_totals:
  assumes "flushable bc"
  shows "uint (dirty_size bc) = byte_total (map (job_of bc) (bc_inode_idx bc))"
    "uint (dirty_count bc) = block_count (map (job_of bc) (bc_inode_idx bc))"
    "uint (path_size bc) = path_total (map (job_of bc) (bc_inode_idx bc))"
proof -
  let ?es = "bc_inode_idx bc" and ?g = "\<lambda>(bid, p). unat (get_actual_size (bc_heap bc ! p))"
  have rows: "row_sum g (bc_dirty_block bc) = sum_list (map (\<lambda>ident. sum_list (map g (row ident (bc_dirty_block bc)))) (map snd ?es))" for g
    using assms by (intro row_sum_ids) (auto simp: flushable_def cache_wf_def)
  have "bytes_of (blocks_of bc ident) = int (sum_list (map ?g (row ident (bc_dirty_block bc))))" for ident
    by (simp add: bytes_of_def blocks_of_def comp_def case_prod_beta int_sum_list)
  then have bytes: "byte_total (map (job_of bc) ?es) = int (row_sum ?g (bc_dirty_block bc))"
    unfolding rows by (simp add: byte_total_def job_of_def comp_def case_prod_beta int_sum_list)
  have count: "block_count (map (job_of bc) ?es) = int (row_sum (\<lambda>x. 1) (bc_dirty_block bc))"
    unfolding rows by (simp add: block_count_def job_of_def blocks_of_def comp_def case_prod_beta int_sum_list sum_list_triv)
  have small: "row_sum ?g (bc_dirty_block bc) \<le> SIZE * row_sum (\<lambda>x. 1) (bc_dirty_block bc)"
  proof -
    have "sum_list (map ?g r) \<le> SIZE * sum_list (map (\<lambda>x. 1) r)" if r: "(ident, r) \<in> set (bc_dirty_block bc)" for ident r
    proof -
      have "?g x \<le> SIZE" if x: "x \<in> set r" for x
      proof -
        have "\<forall>(bid, p) \<in> set r. block_inv (bc_heap bc ! p)" using assms r unfolding flushable_def by blast
        then show ?thesis using x by (auto simp: block_inv_def get_actual_size_def)
      qed
      then have "sum_list (map ?g r) \<le> sum_list (map (\<lambda>x. SIZE) r)" by (intro sum_list_mono)
      then show ?thesis by (simp add: sum_list_triv)
    qed
    then have "row_sum ?g (bc_dirty_block bc) \<le> sum_list (map (\<lambda>(ident, r). SIZE * sum_list (map (\<lambda>x. 1) r)) (bc_dirty_block bc))"
      unfolding row_sum_def by (intro sum_list_mono) auto
    also have "\<dots> = SIZE * row_sum (\<lambda>x. 1) (bc_dirty_block bc)"
      unfolding row_sum_def by (rule row_sum_mult)
    finally show ?thesis .
  qed
  have lim: "SIZE * row_sum (\<lambda>x. 1) (bc_dirty_block bc) < 2 ^ 63" "sum_list (map (\<lambda>(path, ident). length path) ?es) < 2 ^ 63"
    using assms by (simp_all add: flushable_def)
  have u: "uint (of_nat n :: u64) = int n" if "n < 2 ^ 63" for n
    using that by (simp add: uint_nat unat_of_nat take_bit_nat_eq_self)
  show "uint (dirty_size bc) = byte_total (map (job_of bc) ?es)" unfolding dirty_totals bytes using small lim by (intro u) linarith
  have "row_sum (\<lambda>x. 1) (bc_dirty_block bc) \<le> SIZE * row_sum (\<lambda>x. 1) (bc_dirty_block bc)" by simp
  then show "uint (dirty_count bc) = block_count (map (job_of bc) ?es)" unfolding dirty_totals count using lim by (intro u) linarith
  have "length (get_path (fst (job_of bc x))) = length (fst x)" if "x \<in> set ?es" for x
    using flushable_job [OF assms, of "fst x" "snd x"] that by auto
  then have m: "map (\<lambda>x. int (length (get_path (fst (job_of bc x))))) ?es = map (\<lambda>x. int (length (fst x))) ?es" by simp
  have "path_total (map (job_of bc) ?es) = sum_list (map (\<lambda>x. int (length (get_path (fst (job_of bc x))))) ?es)"
    by (simp add: path_total_def comp_def case_prod_beta)
  also have "\<dots> = int (sum_list (map (\<lambda>(path, ident). length path) ?es))"
    unfolding m by (simp add: int_sum_list comp_def case_prod_beta)
  finally have "path_total (map (job_of bc) ?es) = int (sum_list (map (\<lambda>(path, ident). length path) ?es))" .
  then show "uint (path_size bc) = path_total (map (job_of bc) ?es)" unfolding dirty_totals using u [OF lim(2)] by simp
qed

definition tree_name :: "env \<Rightarrow> string" where
  "tree_name e = ''/home/arvin/FileSystem/zipfs/o/dir/root/TREE-'' @ generate_rand_hex_name (e_rand e)"

lemma flush_built:
  assumes "flushable bc" "bc_has_changed bc"
  shows "\<exists>img m. flush_to_disk e bc = Some (Inr (bc\<lparr>bc_inode_idx := [], bc_inode_ptrs := [], bc_dirty_block := [],
      bc_dirty_block_mtime := m, bc_size := 0\<rparr>, Some (tree_name e, img), 0))
    \<and> built img (map (job_of bc) (bc_inode_idx bc)) \<and> (\<forall>ident. row ident m = row ident (bc_dirty_block_mtime bc))"
proof -
  let ?xs = "map (job_of bc) (bc_inode_idx bc)"
  let ?fl = "BPLUSIndex (e_os e) (e_rand e) (int (length ?xs)) (byte_total ?xs) (block_count ?xs) (path_total ?xs)"
  have ok: "?xs \<noteq> []" "\<forall>x \<in> set ?xs. job_ok x" "distinct (map job_id ?xs)"
    using flushable_jobs [OF assms(1)] unfolding jobs_ok_def by blast+
  then obtain fl where fl: "add_all ?xs ?fl = Some (Inr fl)" using new_index_ok [OF ok refl refl, of "e_os e" "e_rand e"] by blast
  have "\<forall>(path, ident) \<in> set (bc_inode_idx bc). map_of (bc_inode_idx bc) path = Some ident \<and> (\<exists>i. map_of (bc_inode_ptrs bc) ident = Some (Some i))"
    using flushable_job [OF assms(1)] by blast
  from flush_inodes_jobs [OF this fl] obtain bc' where bc': "flush_inodes (bc_inode_idx bc) bc ?fl = Some (Inr (bc', fl))" "same_rows bc bc'"
    by blast
  have target: "tf_file (bp_mem fl) = tree_name e" "bp_root_ptr fl"
    using add_all_file [OF fl] ok(1) by (simp_all add: BPLUSIndex_def TireFire_def tree_name_def)
  obtain d m where dm: "bc' = bc\<lparr>bc_dirty_block := d, bc_dirty_block_mtime := m\<rparr>" "\<forall>ident. row ident m = row ident (bc_dirty_block_mtime bc)"
    using bc'(2) unfolding same_rows_def by blast
  have "flush_to_disk e bc = Some (Inr (bc\<lparr>bc_inode_idx := [], bc_inode_ptrs := [], bc_dirty_block := [],
      bc_dirty_block_mtime := m, bc_size := 0\<rparr>, Some (tree_name e, bp_img fl), 0))"
    using assms(2) bc'(1) target dm by (simp add: flush_to_disk_def flushable_totals [OF assms(1)])
  moreover have "built (bp_img fl) ?xs" using fl unfolding built_def by blast
  ultimately show ?thesis using dm(2) by (intro exI [of _ "bp_img fl"] exI [of _ m]) simp
qed

section \<open>Renaming in front of a flush\<close>

lemma find_latest_no_trees: "ld_mem ld = [] \<Longrightarrow> \<exists>r. find_latest_inode gh ld path want_data = Some (Inr r) \<and> i_mtime r = 0"
  by (simp add: find_latest_inode_def Let_def)

lemma load_no_trees: "ld_mem (bc_loader bc) = [] \<Longrightarrow> load_from_shdw e path bc = Some (Inr (bc, -1))"
  using find_latest_no_trees [of "bc_loader bc" "e_hash e" path True]
  by (auto simp: load_from_shdw_def load_from_disk_def get_latest_inode_def)

lemma rename_cached:
  assumes "map_of (bc_inode_idx bc) from' = Some ident" "map_of (bc_inode_ptrs bc) ident = Some (Some i)"
    "map_of (bc_inode_idx bc) to = None" "to \<noteq> ''/''" "ld_mem (bc_loader bc) = []" "ident \<noteq> crypto_hash (e_hash e) to"
  shows "\<exists>bc' i'. cache_rename e from' to bc = Some (Inr (bc', 0)) \<and> i' = inode_copy (e_hash e) (e_clk (sub_env 3 e) 0) to i
    \<and> map_of (bc_inode_idx bc') to = Some (crypto_hash (e_hash e) to)
    \<and> map_of (bc_inode_ptrs bc') (crypto_hash (e_hash e) to) = Some (Some i')
    \<and> map_of (bc_inode_ptrs bc') ident = Some (Some (delete_inode (e_clk (sub_env 3 e) 1) i))
    \<and> bc_dirty_block bc' = bc_dirty_block bc \<and> bc_dirty_block_mtime bc' = bc_dirty_block_mtime bc \<and> bc_heap bc' = bc_heap bc"
proof -
  let ?made = "fst (make_file (sub_env 2 e) to (get_mode i) True bc)"
  have in_from: "in_cache from' bc = 0" and in_to: "in_cache to bc = -1" using assms(1,3,4) by (simp_all add: in_cache_def)
  have deref: "deref_path from' bc = Inr (bc, ident, i)" using assms(1,2) by (simp add: deref_path_def get_inode_by_path_def)
  have ne: "from' \<noteq> to" using assms(1,3) by auto
  have made: "deref_path from' ?made = Inr (?made, ident, i)"
    using assms(1,2,6) ne by (simp add: deref_path_def get_inode_by_path_def make_file_def Let_def omap_put_find get_id_def
        inode_set_dirty_def set_mode_def inode_new_def sub_env_def)
  have id: "get_id (inode_copy (e_hash e) clk to i) = crypto_hash (e_hash e) to" for clk by (simp add: get_id_def inode_copy_def)
  have "cache_rename e from' to bc = rename_new (sub_env 3 e) from' to ?made"
    using in_from in_to deref load_no_trees [OF assms(5)] by (simp add: cache_rename_def)
  then show ?thesis
    using made assms(6) by (simp add: rename_new_def Let_def omap_put_find put_inode_def make_file_def sub_env_def id)
qed

section \<open>Properties\<close>

text \<open>
  A flush of a changed cache writes one new tree file and empties the cache. The totals
  it announces are exactly those of what it adds, so the file has every inode of the cache
  with its dirty blocks, and nothing overflows on the way.
\<close>

lemma flush_writes_index:
  assumes "flushable bc" "bc_has_changed bc"
  shows "\<exists>bc' img. flush_to_disk e bc = Some (Inr (bc', Some (tree_name e, img), 0))
    \<and> built img (map (job_of bc) (bc_inode_idx bc)) \<and> jobs_ok (map (job_of bc) (bc_inode_idx bc))
    \<and> bc_inode_idx bc' = [] \<and> bc_inode_ptrs bc' = [] \<and> bc_dirty_block bc' = [] \<and> bc_size bc' = 0"
  using flush_built [OF assms, of e] flushable_jobs [OF assms(1)] by auto

text \<open>A cache with one file of one byte that is not on disk yet.\<close>

definition dirty_cache :: block_cache where
  "dirty_cache = sample_cache\<lparr>bc_heap := [block_of [7] 1],
     bc_inode_ptrs := [(''01'', Some ((inode_new (\<lambda>_. [1]) (\<lambda>_. \<lparr>tv_sec = 5, tv_nsec = 0\<rparr>) 0 ''/f'')\<lparr>ino_blocks := [(0, 0)], ino_size := 1\<rparr>))],
     bc_dirty_block := [(''01'', [(0, 0)])], bc_dirty_block_mtime := [(''01'', [(0, 5)])]\<rparr>"

lemma dirty_cache_flushable: "flushable dirty_cache" "bc_has_changed dirty_cache"
  using block_of_bytes [of 1 "[7]"]
  by (auto simp: dirty_cache_def flushable_def sample_cache_fields cache_wf_def inode_wf_def dirty_wf_def inode_new_def
      sample_hash nul_free_def row_sum_def row_def)


text \<open>
  (C7) Flushing and finding again is a round trip. For a cache whose ids are the hashes of
  the paths, a loader that maps the file of the flush finds every path of the cache with the
  attributes its inode had, and exactly the blocks that were dirty, byte for byte.
\<close>

theorem flush_then_find:
  assumes "flushable bc" "bc_has_changed bc" "\<forall>(path, ident) \<in> set (bc_inode_idx bc). path \<noteq> [] \<and> ident = crypto_hash (e_hash e) path"
  shows "\<exists>bc' img. flush_to_disk e bc = Some (Inr (bc', Some (tree_name e, img), 0))
    \<and> (\<forall>ld f path i. ld_mem ld = [(f, Some img)] \<and> path \<in> fst ` set (bc_inode_idx bc)
         \<and> map_of (bc_inode_ptrs bc) (crypto_hash (e_hash e) path) = Some (Some i) \<and> 0 < get_ull_mtime i
       \<longrightarrow> (\<exists>r. find_latest_inode (e_hash e) ld path True = Some (Inr r) \<and> has_attrs i r
         \<and> (\<forall>bid. map_option block_bytes (map_of (i_block_data r) bid)
                 = map_option block_bytes (map_of (blocks_of bc (crypto_hash (e_hash e) path)) bid))))"
proof -
  let ?xs = "map (job_of bc) (bc_inode_idx bc)"
  obtain bc' img where flush: "flush_to_disk e bc = Some (Inr (bc', Some (tree_name e, img), 0))" and img: "built img ?xs"
    using flush_built [OF assms(1,2), of e] by blast
  have "\<exists>r. find_latest_inode (e_hash e) ld path True = Some (Inr r) \<and> has_attrs i r
      \<and> (\<forall>bid. map_option block_bytes (map_of (i_block_data r) bid) = map_option block_bytes (map_of (blocks_of bc ident) bid))"
    if ld: "ld_mem ld = [(f, Some img)]" and path: "(path, ident) \<in> set (bc_inode_idx bc)"
      and i: "map_of (bc_inode_ptrs bc) (crypto_hash (e_hash e) path) = Some (Some i)" "0 < get_ull_mtime i" for ld f path ident i
  proof -
    have id: "ident = crypto_hash (e_hash e) path" "path \<noteq> []" using assms(3) path by auto
    have job: "job_of bc (path, ident) = (i, blocks_of bc ident, row ident (bc_dirty_block_mtime bc))" "get_id i = ident"
      using flushable_job [OF assms(1) path] i(1) id(1) by auto
    have "job_of bc (path, ident) \<in> set ?xs" unfolding set_map using path by (rule imageI)
    then have "(i, blocks_of bc ident, row ident (bc_dirty_block_mtime bc)) \<in> set ?xs" by (simp only: job(1))
    from find_in_single_tree [OF flushable_jobs [OF assms(1)] img this _ id(2) ld, of "e_hash e" True] job(2) id(1) i(2)
    show ?thesis by blast
  qed
  then show ?thesis using flush assms(3) by (intro exI [of _ bc'] exI [of _ img]) fastforce
qed

theorem flush_then_find_witness:
  "\<exists>bc' img r. flush_to_disk sample_env dirty_cache = Some (Inr (bc', Some (tree_name sample_env, img), 0))
    \<and> find_latest_inode (\<lambda>_. [1]) \<lparr>ld_path = ''d/'', ld_mem = [(''d/TREE-1'', Some img)], ld_junk = undefined\<rparr> ''/f'' True = Some (Inr r)
    \<and> i_size r = 1 \<and> map_option block_bytes (map_of (i_block_data r) 0) = Some [7]"
proof -
  let ?i = "(inode_new (\<lambda>_. [1]) (\<lambda>_. \<lparr>tv_sec = 5, tv_nsec = 0\<rparr>) 0 ''/f'')\<lparr>ino_blocks := [(0, 0)], ino_size := 1\<rparr>"
  let ?ld = "\<lambda>img. \<lparr>ld_path = ''d/'', ld_mem = [(''d/TREE-1'', Some img)], ld_junk = undefined\<rparr> :: loader"
  have c: "bc_inode_idx dirty_cache = [(''/f'', ''01'')]" "map_of (bc_inode_ptrs dirty_cache) ''01'' = Some (Some ?i)"
      "blocks_of dirty_cache ''01'' = [(0, block_of [7] 1)]" "e_hash sample_env = (\<lambda>_. [1])"
    by (simp_all add: dirty_cache_def sample_cache_fields blocks_of_def row_def sample_env_def)
  have t: "0 < get_ull_mtime ?i" by (simp add: get_ull_mtime_def inode_new_def get_time_def)
  have b: "block_bytes (block_of [7] 1) = [7]" using block_of_bytes [of 1 "[7]"] get_data_inv [of "block_of [7] 1"] by simp
  have ids: "\<forall>(path, ident) \<in> set (bc_inode_idx dirty_cache). path \<noteq> [] \<and> ident = crypto_hash (e_hash sample_env) path"
    by (simp add: c sample_hash)
  obtain bc' img where f: "flush_to_disk sample_env dirty_cache = Some (Inr (bc', Some (tree_name sample_env, img), 0))"
      "\<And>ld f path i. ld_mem ld = [(f, Some img)] \<and> path \<in> fst ` set (bc_inode_idx dirty_cache)
         \<and> map_of (bc_inode_ptrs dirty_cache) (crypto_hash (e_hash sample_env) path) = Some (Some i) \<and> 0 < get_ull_mtime i
       \<Longrightarrow> \<exists>r. find_latest_inode (e_hash sample_env) ld path True = Some (Inr r) \<and> has_attrs i r
         \<and> (\<forall>bid. map_option block_bytes (map_of (i_block_data r) bid)
                 = map_option block_bytes (map_of (blocks_of dirty_cache (crypto_hash (e_hash sample_env) path)) bid))"
    using flush_then_find [OF dirty_cache_flushable ids] by blast
  have "\<exists>r. find_latest_inode (\<lambda>_. [1]) (?ld img) ''/f'' True = Some (Inr r) \<and> has_attrs ?i r
      \<and> (\<forall>bid. map_option block_bytes (map_of (i_block_data r) bid) = map_option block_bytes (map_of (blocks_of dirty_cache ''01'') bid))"
    using f(2) [of "?ld img" "''d/TREE-1''" "''/f''" ?i] c t by (simp add: sample_hash)
  then obtain r where "find_latest_inode (\<lambda>_. [1]) (?ld img) ''/f'' True = Some (Inr r)" "has_attrs ?i r"
      "map_option block_bytes (map_of (i_block_data r) 0) = map_option block_bytes (map_of (blocks_of dirty_cache ''01'') 0)"
    by blast
  then show ?thesis using f(1) c(3) b by (auto simp: has_attrs_def get_size_def)
qed



end
