(* ===== verification/Fuse_Ops.thy ===== *)
theory Fuse_Ops
  imports Cache_Flush
begin

text \<open>
  \<^verbatim>\<open>src/fuse_ops.cpp\<close>, \<^verbatim>\<open>src/fuse_ops.h\<close> and the table of callbacks in
  \<^verbatim>\<open>src/Main.c\<close>: the requests of the kernel, each answered by one call or two on the
  block cache.

  The state is the global \<open>block_cache\<close> and the files on disk, by their full names. A
  path is the string in front of the terminator of the C string. The buffers that a callback
  fills are part of its reply: what \<open>readdir\<close> hands to \<open>filler\<close>, what \<open>read\<close> and
  \<open>readlink\<close> store. The arguments that the callbacks cast to \<open>void\<close> are left out, and so
  is the output to the terminal. \<open>off_t\<close> arguments come as the \<open>size_t\<close> that the block cache
  converts them to.
\<close>

section \<open>State\<close>

record zippyfs =
  fs_cache :: block_cache
  fs_disk :: "(string \<times> image) list"

text \<open>\<open>readdir(3)\<close> on a directory: the names of the files in it, in the order of the disk.\<close>

definition listing :: "string \<Rightarrow> (string \<times> image) list \<Rightarrow> directory" where
  "listing p disk = map (\<lambda>(f, img). (drop (length p) f, img)) (filter (\<lambda>(f, img). take (length p) f = p \<and> CHR ''/'' \<notin> set (drop (length p) f)) disk)"

definition zippyfs_init :: "u64 \<Rightarrow> disk_inode_info \<Rightarrow> string \<Rightarrow> (string \<times> image) list \<Rightarrow> zippyfs" where
  "zippyfs_init size0 junk zip_dir disk =
     \<lparr>fs_cache = BlockCache size0 junk (listing (zip_dir @ ''root/'') disk) zip_dir, fs_disk = disk\<rparr>"

text \<open>A call that only changes the cache; a call that may write a tree file.\<close>

definition on_cache :: "zippyfs \<Rightarrow> (block_cache \<times> 'a) outcome \<Rightarrow> (zippyfs \<times> 'a) outcome" where
  "on_cache fs m = and_then m (\<lambda>(bc, x). Some (Inr (fs\<lparr>fs_cache := bc\<rparr>, x)))"

definition flush_cache :: "env \<Rightarrow> int \<Rightarrow> zippyfs \<Rightarrow> (zippyfs \<times> int) outcome" where
  "flush_cache e on_close fs =
     and_then (flush_to_shdw e on_close (fs_cache fs)) (\<lambda>(bc, file, res).
       Some (Inr (fs\<lparr>fs_cache := bc, fs_disk := (case file of None \<Rightarrow> fs_disk fs | Some (f, img) \<Rightarrow> AList.update f img (fs_disk fs))\<rparr>, res)))"

section \<open>Attributes and directories\<close>

text \<open>\<open>memset(stbuf, 0, sizeof(struct stat))\<close>; the modes \<open>S_IFDIR | 0755\<close> and \<open>S_IFDIR\<close>.\<close>

definition zero_stat :: stat where
  "zero_stat = \<lparr>st_mode = 0, st_nlink = 0, st_blocks = 0, st_size = 0, st_ctim = \<lparr>tv_sec = 0, tv_nsec = 0\<rparr>,
     st_mtim = \<lparr>tv_sec = 0, tv_nsec = 0\<rparr>, st_atim = \<lparr>tv_sec = 0, tv_nsec = 0\<rparr>\<rparr>"

definition S_IFDIR :: u32 where
  "S_IFDIR = 0x4000"

definition zippyfs_getattr :: "env \<Rightarrow> string \<Rightarrow> zippyfs \<Rightarrow> (zippyfs \<times> stat \<times> int) outcome" where
  "zippyfs_getattr e path fs =
     (if length path = 1 then Some (Inr (fs, zero_stat\<lparr>st_mode := S_IFDIR OR 0x1ED, st_nlink := 2\<rparr>, 0))
      else on_cache fs (cache_getattr e path zero_stat (fs_cache fs)))"

text \<open>\<open>basename\<close> of \<open>libgen.h\<close>.\<close>

definition base_name :: "string \<Rightarrow> string" where
  "base_name s =
     (let t = dropWhile (\<lambda>c. c = CHR ''/'') (rev s)
      in if s = [] then ''.'' else if t = [] then ''/'' else rev (takeWhile (\<lambda>c. c \<noteq> CHR ''/'') t))"

definition zippyfs_readdir :: "string \<Rightarrow> zippyfs \<Rightarrow> (zippyfs \<times> string list \<times> int) outcome" where
  "zippyfs_readdir path fs =
     and_then (cache_readdir (listing (bc_path_to_disk (fs_cache fs)) (fs_disk fs)) path (fs_cache fs)) (\<lambda>(bc, vec).
       let added_names = fold (\<lambda>ent m. omap_put (ie_path ent) ent m) vec []
       in Some (Inr (fs\<lparr>fs_cache := bc\<rparr>,
            map (\<lambda>(p, ent). base_name p) (filter (\<lambda>(p, ent). ie_deleted ent = 0) added_names) @ [''.'', ''..''], 0)))"

section \<open>Files\<close>

definition zippyfs_read :: "env \<Rightarrow> string \<Rightarrow> u64 \<Rightarrow> u64 \<Rightarrow> zippyfs \<Rightarrow> (zippyfs \<times> u8 list \<times> int) outcome" where
  "zippyfs_read e path sz offset fs =
     and_then (on_cache fs (cache_read e path sz offset (fs_cache fs))) (\<lambda>(fs1, buf, res).
       Some (Inr (fs1, buf, sint (ucast sz :: u32))))"

definition zippyfs_open :: "env \<Rightarrow> string \<Rightarrow> zippyfs \<Rightarrow> (zippyfs \<times> int) outcome" where
  "zippyfs_open e path fs = on_cache fs (cache_open e path (fs_cache fs))"

definition zippyfs_write :: "env \<Rightarrow> string \<Rightarrow> u8 list \<Rightarrow> u64 \<Rightarrow> u64 \<Rightarrow> zippyfs \<Rightarrow> (zippyfs \<times> int) outcome" where
  "zippyfs_write e path buf sz offset fs =
     and_then (on_cache fs (cache_write e path buf sz offset (fs_cache fs))) (\<lambda>(fs1, res1).
       and_then (flush_cache e 0 fs1) (\<lambda>(fs2, res2).
         Some (Inr (fs2, sint (ucast sz :: u32)))))"

definition zippyfs_mknod :: "env \<Rightarrow> string \<Rightarrow> u32 \<Rightarrow> zippyfs \<Rightarrow> (zippyfs \<times> int) outcome" where
  "zippyfs_mknod e path mode fs = on_cache fs (Some (Inr (make_file e path mode True (fs_cache fs))))"

definition zippyfs_unlink :: "env \<Rightarrow> string \<Rightarrow> zippyfs \<Rightarrow> (zippyfs \<times> int) outcome" where
  "zippyfs_unlink e path fs = on_cache fs (Some (cache_remove e path (fs_cache fs)))"

definition zippyfs_rmdir :: "env \<Rightarrow> string \<Rightarrow> zippyfs \<Rightarrow> (zippyfs \<times> int) outcome" where
  "zippyfs_rmdir e path fs = on_cache fs (Some (cache_rmdir e path (fs_cache fs)))"

definition zippyfs_mkdir :: "env \<Rightarrow> string \<Rightarrow> u32 \<Rightarrow> zippyfs \<Rightarrow> (zippyfs \<times> int) outcome" where
  "zippyfs_mkdir e path mode fs = on_cache fs (Some (Inr (make_file e path (mode OR S_IFDIR) True (fs_cache fs))))"

definition zippyfs_rename :: "env \<Rightarrow> string \<Rightarrow> string \<Rightarrow> zippyfs \<Rightarrow> (zippyfs \<times> int) outcome" where
  "zippyfs_rename e from' to fs = on_cache fs (cache_rename e from' to (fs_cache fs))"

definition zippyfs_truncate :: "env \<Rightarrow> string \<Rightarrow> u64 \<Rightarrow> zippyfs \<Rightarrow> (zippyfs \<times> int) outcome" where
  "zippyfs_truncate e path sz fs =
     and_then (on_cache fs (Some (cache_truncate e path sz (fs_cache fs)))) (\<lambda>(fs1, res1).
       and_then (flush_cache e 0 fs1) (\<lambda>(fs2, res2). Some (Inr (fs2, 0))))"

definition zippyfs_access :: "string \<Rightarrow> int \<Rightarrow> zippyfs \<Rightarrow> (zippyfs \<times> int) outcome" where
  "zippyfs_access path mode fs = Some (Inr (fs, 0))"

definition zippyfs_chmod :: "string \<Rightarrow> u32 \<Rightarrow> zippyfs \<Rightarrow> (zippyfs \<times> int) outcome" where
  "zippyfs_chmod path mode fs = Some (Inr (fs, 0))"

definition zippyfs_symlink :: "env \<Rightarrow> string \<Rightarrow> string \<Rightarrow> zippyfs \<Rightarrow> (zippyfs \<times> int) outcome" where
  "zippyfs_symlink e from' to fs = on_cache fs (Some (Inr (cache_symlink e from' to (fs_cache fs))))"

definition zippyfs_readlink :: "string \<Rightarrow> u64 \<Rightarrow> zippyfs \<Rightarrow> (zippyfs \<times> u8 list \<times> int) outcome" where
  "zippyfs_readlink path sz fs = on_cache fs (Some (cache_readlink path sz (fs_cache fs)))"

definition zippyfs_utimens :: "string \<Rightarrow> timespec \<Rightarrow> timespec \<Rightarrow> zippyfs \<Rightarrow> (zippyfs \<times> int) outcome" where
  "zippyfs_utimens path atime mtime fs = Some (Inr (fs, 0))"

definition zippyfs_destroy :: "env \<Rightarrow> zippyfs \<Rightarrow> zippyfs outcome" where
  "zippyfs_destroy e fs = and_then (flush_cache e 1 fs) (\<lambda>(fs1, res). Some (Inr fs1))"

section \<open>The table of callbacks\<close>

datatype request =
    Getattr string
  | Readdir string
  | Read string u64 u64
  | Access string int
  | Mknod string u32
  | Unlink string
  | Mkdir string u32
  | Rename string string
  | Write string "u8 list" u64 u64
  | Truncate string u64
  | Open string
  | Rmdir string
  | Chmod string u32
  | Utimens string timespec timespec
  | Readlink string u64
  | Symlink string string
  | Destroy

datatype reply =
    Status int
  | Attributes stat int
  | Names "string list" int
  | Bytes "u8 list" int
  | Nothing

definition reply_with :: "('a \<Rightarrow> reply) \<Rightarrow> (zippyfs \<times> 'a) outcome \<Rightarrow> (zippyfs \<times> reply) outcome" where
  "reply_with f m = and_then m (\<lambda>(fs, x). Some (Inr (fs, f x)))"

fun handle :: "env \<Rightarrow> request \<Rightarrow> zippyfs \<Rightarrow> (zippyfs \<times> reply) outcome" where
  "handle e (Getattr path) fs = reply_with (\<lambda>(st, r). Attributes st r) (zippyfs_getattr e path fs)"
| "handle e (Readdir path) fs = reply_with (\<lambda>(ns, r). Names ns r) (zippyfs_readdir path fs)"
| "handle e (Read path sz offset) fs = reply_with (\<lambda>(buf, r). Bytes buf r) (zippyfs_read e path sz offset fs)"
| "handle e (Access path mode) fs = reply_with Status (zippyfs_access path mode fs)"
| "handle e (Mknod path mode) fs = reply_with Status (zippyfs_mknod e path mode fs)"
| "handle e (Unlink path) fs = reply_with Status (zippyfs_unlink e path fs)"
| "handle e (Mkdir path mode) fs = reply_with Status (zippyfs_mkdir e path mode fs)"
| "handle e (Rename from' to) fs = reply_with Status (zippyfs_rename e from' to fs)"
| "handle e (Write path buf sz offset) fs = reply_with Status (zippyfs_write e path buf sz offset fs)"
| "handle e (Truncate path sz) fs = reply_with Status (zippyfs_truncate e path sz fs)"
| "handle e (Open path) fs = reply_with Status (zippyfs_open e path fs)"
| "handle e (Rmdir path) fs = reply_with Status (zippyfs_rmdir e path fs)"
| "handle e (Chmod path mode) fs = reply_with Status (zippyfs_chmod path mode fs)"
| "handle e (Utimens path atime mtime) fs = reply_with Status (zippyfs_utimens path atime mtime fs)"
| "handle e (Readlink path sz) fs = reply_with (\<lambda>(buf, r). Bytes buf r) (zippyfs_readlink path sz fs)"
| "handle e (Symlink from' to) fs = reply_with Status (zippyfs_symlink e from' to fs)"
| "handle e Destroy fs = and_then (zippyfs_destroy e fs) (\<lambda>fs1. Some (Inr (fs1, Nothing)))"

text \<open>A session: requests one after the other, each with its environment.\<close>

fun run :: "(env \<times> request) list \<Rightarrow> zippyfs \<Rightarrow> (zippyfs \<times> reply list) outcome" where
  "run [] fs = Some (Inr (fs, []))"
| "run ((e, r) # rs) fs = and_then (handle e r fs) (\<lambda>(fs1, x). and_then (run rs fs1) (\<lambda>(fs2, xs). Some (Inr (fs2, x # xs))))"

end
