(* ===== verification/Session.thy ===== *)
theory Session
  imports Fuse_Ops
begin

text \<open>
  What the kernel sees of the file system: requests keep the invariant of the cache, a listing
  has the newest children on disk, and a file that is written, flushed at unmount and read
  after the next mount has its bytes.
\<close>

section \<open>Sessions of requests\<close>

lemma on_cache_InrD: "on_cache fs m = Some (Inr (fs', x)) \<Longrightarrow> \<exists>bc. m = Some (Inr (bc, x)) \<and> fs' = fs\<lparr>fs_cache := bc\<rparr>"
  by (auto simp: on_cache_def dest!: and_then_InrD)

lemma flush_cache_InrD:
  "flush_cache e on_close fs = Some (Inr (fs', res)) \<Longrightarrow> \<exists>bc file. flush_to_shdw e on_close (fs_cache fs) = Some (Inr (bc, file, res)) \<and> fs_cache fs' = bc"
  by (auto simp: flush_cache_def dest!: and_then_InrD)

lemma reply_with_InrD: "reply_with f m = Some (Inr (fs', x)) \<Longrightarrow> \<exists>y. m = Some (Inr (fs', y)) \<and> x = f y"
  by (auto simp: reply_with_def dest!: and_then_InrD)

lemma flush_cache_reachable: "flush_cache e on_close fs = Some (Inr (fs', res)) \<Longrightarrow> cache_reachable (fs_cache fs) \<Longrightarrow> cache_reachable (fs_cache fs')"
  using flush_cache_InrD step_flush reach_step by metis

lemma on_cache_reachable:
  assumes "on_cache fs m = Some (Inr (fs', x))" "cache_reachable (fs_cache fs)"
    "\<And>bc y. m = Some (Inr (bc, y)) \<Longrightarrow> cache_step (fs_cache fs) bc"
  shows "cache_reachable (fs_cache fs')"
  using on_cache_InrD [OF assms(1)] reach_step [OF assms(2) assms(3)] by auto

lemma make_file_step: "Some (Inr (make_file e path mode dirty bc)) = Some (Inr (bc', y)) \<Longrightarrow> cache_step bc bc'"
  using step_make_file [of bc e path mode dirty] by simp

lemma symlink_step: "Some (Inr (cache_symlink e from' to bc)) = Some (Inr (bc', y)) \<Longrightarrow> cache_step bc bc'"
  using step_symlink [of bc e from' to] by simp

lemma callback_reachable:
  assumes "cache_reachable (fs_cache fs)"
  shows "zippyfs_getattr e path fs = Some (Inr (fs', y1)) \<Longrightarrow> cache_reachable (fs_cache fs')"
    "zippyfs_readdir path fs = Some (Inr (fs', y2)) \<Longrightarrow> cache_reachable (fs_cache fs')"
    "zippyfs_read e path sz offset fs = Some (Inr (fs', y3)) \<Longrightarrow> cache_reachable (fs_cache fs')"
    "zippyfs_open e path fs = Some (Inr (fs', r)) \<Longrightarrow> cache_reachable (fs_cache fs')"
    "zippyfs_write e path buf sz offset fs = Some (Inr (fs', r)) \<Longrightarrow> cache_reachable (fs_cache fs')"
    "zippyfs_mknod e path mode fs = Some (Inr (fs', r)) \<Longrightarrow> cache_reachable (fs_cache fs')"
    "zippyfs_unlink e path fs = Some (Inr (fs', r)) \<Longrightarrow> cache_reachable (fs_cache fs')"
    "zippyfs_rmdir e path fs = Some (Inr (fs', r)) \<Longrightarrow> cache_reachable (fs_cache fs')"
    "zippyfs_mkdir e path mode fs = Some (Inr (fs', r)) \<Longrightarrow> cache_reachable (fs_cache fs')"
    "zippyfs_rename e path to fs = Some (Inr (fs', r)) \<Longrightarrow> cache_reachable (fs_cache fs')"
    "zippyfs_truncate e path sz fs = Some (Inr (fs', r)) \<Longrightarrow> cache_reachable (fs_cache fs')"
    "zippyfs_symlink e path to fs = Some (Inr (fs', r)) \<Longrightarrow> cache_reachable (fs_cache fs')"
    "zippyfs_readlink path sz fs = Some (Inr (fs', y4)) \<Longrightarrow> cache_reachable (fs_cache fs')"
    "zippyfs_destroy e fs = Some (Inr fs') \<Longrightarrow> cache_reachable (fs_cache fs')"
proof -
  note on = on_cache_reachable [OF _ assms]
  show "zippyfs_getattr e path fs = Some (Inr (fs', y1)) \<Longrightarrow> cache_reachable (fs_cache fs')"
  proof -
    have "cache_getattr e path zero_stat bc = Some (Inr (bc', y)) \<Longrightarrow> cache_step bc bc'" for bc bc' y
      by (cases y) (auto intro: step_getattr)
    from on [OF _ this] show "zippyfs_getattr e path fs = Some (Inr (fs', y1)) \<Longrightarrow> cache_reachable (fs_cache fs')"
      using assms by (auto simp: zippyfs_getattr_def split: if_splits)
  qed
  show "zippyfs_readdir path fs = Some (Inr (fs', y2)) \<Longrightarrow> cache_reachable (fs_cache fs')"
    using reach_step [OF assms step_readdir] by (auto simp: zippyfs_readdir_def Let_def dest!: and_then_InrD)
  show "zippyfs_read e path sz offset fs = Some (Inr (fs', y3)) \<Longrightarrow> cache_reachable (fs_cache fs')"
  proof -
    have "cache_read e path sz offset bc = Some (Inr (bc', y)) \<Longrightarrow> cache_step bc bc'" for bc bc' y
      by (cases y) (auto intro: step_read)
    from on [OF _ this] show "zippyfs_read e path sz offset fs = Some (Inr (fs', y3)) \<Longrightarrow> cache_reachable (fs_cache fs')"
      by (auto simp: zippyfs_read_def dest!: and_then_InrD)
  qed
  show "zippyfs_open e path fs = Some (Inr (fs', r)) \<Longrightarrow> cache_reachable (fs_cache fs')"
    unfolding zippyfs_open_def by (erule on) (auto intro: step_open)
  show "zippyfs_mknod e path mode fs = Some (Inr (fs', r)) \<Longrightarrow> cache_reachable (fs_cache fs')"
    unfolding zippyfs_mknod_def by (erule on) (rule make_file_step)
  show "zippyfs_mkdir e path mode fs = Some (Inr (fs', r)) \<Longrightarrow> cache_reachable (fs_cache fs')"
    unfolding zippyfs_mkdir_def by (erule on) (rule make_file_step)
  show "zippyfs_symlink e path to fs = Some (Inr (fs', r)) \<Longrightarrow> cache_reachable (fs_cache fs')"
    unfolding zippyfs_symlink_def by (erule on) (rule symlink_step)
  show "zippyfs_unlink e path fs = Some (Inr (fs', r)) \<Longrightarrow> cache_reachable (fs_cache fs')"
    unfolding zippyfs_unlink_def by (erule on) (auto intro: step_remove)
  show "zippyfs_rmdir e path fs = Some (Inr (fs', r)) \<Longrightarrow> cache_reachable (fs_cache fs')"
    unfolding zippyfs_rmdir_def by (erule on) (auto intro: step_rmdir)
  show "zippyfs_rename e path to fs = Some (Inr (fs', r)) \<Longrightarrow> cache_reachable (fs_cache fs')"
    unfolding zippyfs_rename_def by (erule on) (auto intro: step_rename)
  show "zippyfs_readlink path sz fs = Some (Inr (fs', y4)) \<Longrightarrow> cache_reachable (fs_cache fs')"
  proof -
    have "Some (cache_readlink path sz bc) = Some (Inr (bc', y)) \<Longrightarrow> cache_step bc bc'" for bc bc' y
      by (cases y) (auto intro: step_readlink)
    note step = this
    show "zippyfs_readlink path sz fs = Some (Inr (fs', y4)) \<Longrightarrow> cache_reachable (fs_cache fs')"
      unfolding zippyfs_readlink_def by (erule on) (rule step)
  qed
  show "zippyfs_destroy e fs = Some (Inr fs') \<Longrightarrow> cache_reachable (fs_cache fs')"
    using flush_cache_reachable assms by (auto simp: zippyfs_destroy_def dest!: and_then_InrD)
  show "cache_reachable (fs_cache fs')" if w: "zippyfs_write e path buf sz offset fs = Some (Inr (fs', r))"
  proof -
    obtain fs1 res1 res2 where w1: "on_cache fs (cache_write e path buf sz offset (fs_cache fs)) = Some (Inr (fs1, res1))"
        "flush_cache e 0 fs1 = Some (Inr (fs', res2))"
      using w by (auto simp: zippyfs_write_def dest!: and_then_InrD)
    show ?thesis using flush_cache_reachable [OF w1(2)] on [OF w1(1)] step_write by blast
  qed
  show "cache_reachable (fs_cache fs')" if w: "zippyfs_truncate e path sz fs = Some (Inr (fs', r))"
  proof -
    obtain fs1 res1 res2 where w1: "on_cache fs (Some (cache_truncate e path sz (fs_cache fs))) = Some (Inr (fs1, res1))"
        "flush_cache e 0 fs1 = Some (Inr (fs', res2))"
      using w by (auto simp: zippyfs_truncate_def dest!: and_then_InrD)
    show ?thesis using flush_cache_reachable [OF w1(2)] on [OF w1(1)] step_truncate by blast
  qed
qed

lemma handle_reachable:
  assumes "handle e r fs = Some (Inr (fs', x))" "cache_reachable (fs_cache fs)"
  shows "cache_reachable (fs_cache fs')"
  using assms(1) callback_reachable [OF assms(2)] assms(2)
  by (cases r) (auto simp: zippyfs_access_def zippyfs_chmod_def zippyfs_utimens_def dest!: reply_with_InrD and_then_InrD)

lemma run_reachable: "run rs fs = Some (Inr (fs', xs)) \<Longrightarrow> cache_reachable (fs_cache fs) \<Longrightarrow> cache_reachable (fs_cache fs')"
proof (induction rs arbitrary: fs xs)
  case (Cons er rs)
  obtain e r where er: "er = (e, r)" by (cases er)
  obtain fs1 x ys where 1: "handle e r fs = Some (Inr (fs1, x))" "run rs fs1 = Some (Inr (fs', ys))"
    using Cons.prems(1) er by (auto dest!: and_then_InrD)
  show ?case using Cons.IH [OF 1(2)] handle_reachable [OF 1(1) Cons.prems(2)] by blast
qed simp

lemma init_reachable: "cache_reachable (fs_cache (zippyfs_init size0 junk zip_dir disk))"
  by (simp add: zippyfs_init_def reach_new)

lemma run_append:
  "run (xs @ ys) fs = and_then (run xs fs) (\<lambda>(fs1, rs). and_then (run ys fs1) (\<lambda>(fs2, rs'). Some (Inr (fs2, rs @ rs'))))"
proof (induction xs arbitrary: fs)
  case Nil
  show ?case by (cases "run ys fs" rule: option.exhaust) (auto simp: and_then_def split: sum.splits)
next
  case (Cons x xs)
  show ?case
    by (cases x) (auto simp: Cons.IH and_then_def split: option.splits sum.splits)
qed

text \<open>In every state of a session the invariant of the cache holds.\<close>

lemma session_wf: "run rs (zippyfs_init size0 junk zip_dir disk) = Some (Inr (fs, xs)) \<Longrightarrow> cache_wf (fs_cache fs)"
  using run_reachable init_reachable reachable_wf by blast

section \<open>Listings\<close>

lemma omap_put_last: "\<forall>(k', v') \<in> set m. k' < k \<Longrightarrow> omap_put k v m = m @ [(k, v)]"
  by (induction k v m rule: omap_put.induct) auto

lemma fold_put_sorted:
  assumes "sorted_wrt (<) (map ie_path es)" "\<forall>(k, v) \<in> set m. \<forall>x \<in> set es. k < ie_path x"
  shows "fold (\<lambda>ent m. omap_put (ie_path ent) ent m) es m = m @ map (\<lambda>x. (ie_path x, x)) es"
  using assms
proof (induction es arbitrary: m)
  case (Cons x es)
  have "omap_put (ie_path x) x m = m @ [(ie_path x, x)]" using Cons.prems(2) by (intro omap_put_last) auto
  moreover have "fold (\<lambda>ent m. omap_put (ie_path ent) ent m) es (m @ [(ie_path x, x)])
      = (m @ [(ie_path x, x)]) @ map (\<lambda>x. (ie_path x, x)) es"
    using Cons.prems by (intro Cons.IH) auto
  ultimately show ?case by simp
qed simp

lemma readdir_reply:
  assumes "no_stale dir (bc_loader (fs_cache fs))" "dir = listing (bc_path_to_disk (fs_cache fs)) (fs_disk fs)"
    "\<forall>(ent, img) \<in> set (tree_files dir). tree_readable img (J ent)"
    "E = (\<Union>(ent, img) \<in> set (tree_files dir). index_entry_of ` set (filter (child_of path) (J ent)))"
  shows "\<exists>es. zippyfs_readdir path fs = Some (Inr (fs\<lparr>fs_cache := (fs_cache fs)\<lparr>bc_loader := load_trees dir (bc_loader (fs_cache fs))\<rparr>\<rparr>,
      map (base_name \<circ> ie_path) (filter (\<lambda>x. ie_deleted x = 0) es) @ [''.'', ''..''], 0))
    \<and> sorted_wrt (<) (map ie_path es) \<and> ie_path ` set es = ie_path ` E
    \<and> (\<forall>x \<in> set es. x \<in> E \<and> (\<forall>y \<in> E. ie_path y = ie_path x \<longrightarrow> ie_mtime y \<le> ie_mtime x))"
proof -
  obtain es where es: "cache_readdir dir path (fs_cache fs)
        = Some (Inr ((fs_cache fs)\<lparr>bc_loader := load_trees dir (bc_loader (fs_cache fs))\<rparr>, es))"
      "sorted_wrt (<) (map ie_path es)" "ie_path ` set es = ie_path ` E"
      "\<forall>x \<in> set es. x \<in> E \<and> (\<forall>y \<in> E. ie_path y = ie_path x \<longrightarrow> ie_mtime y \<le> ie_mtime x)"
    using readdir_newest [OF assms(1,3,4)] by blast
  have "fold (\<lambda>ent m. omap_put (ie_path ent) ent m) es [] = map (\<lambda>x. (ie_path x, x)) es"
    using fold_put_sorted [OF es(2), of "[]"] by simp
  then show ?thesis using es assms(2) by (intro exI [of _ es]) (simp add: zippyfs_readdir_def filter_map comp_def case_prod_beta)
qed

section \<open>Properties\<close>

text \<open>
  (C12) A listing has exactly the children of the directory whose newest version on disk is
  not a deletion: names in path order, then the two dots. A child of the directory is missing
  only when its newest version is deleted, or two versions have the same time.
\<close>

theorem readdir_lists:
  assumes "no_stale dir (bc_loader (fs_cache fs))" "dir = listing (bc_path_to_disk (fs_cache fs)) (fs_disk fs)"
    "\<forall>(ent, img) \<in> set (tree_files dir). tree_readable img (J ent)"
    "E = (\<Union>(ent, img) \<in> set (tree_files dir). index_entry_of ` set (filter (child_of path) (J ent)))"
  shows "\<exists>fs' es. zippyfs_readdir path fs = Some (Inr (fs', map (base_name \<circ> ie_path) es @ [''.'', ''..''], 0))
    \<and> sorted_wrt (<) (map ie_path es)
    \<and> (\<forall>x \<in> set es. x \<in> E \<and> ie_deleted x = 0 \<and> (\<forall>y \<in> E. ie_path y = ie_path x \<longrightarrow> ie_mtime y \<le> ie_mtime x))
    \<and> (\<forall>x \<in> E. ie_deleted x = 0 \<and> (\<forall>y \<in> E. ie_path y = ie_path x \<and> y \<noteq> x \<longrightarrow> ie_mtime y < ie_mtime x) \<longrightarrow> x \<in> set es)"
proof -
  let ?bc = "fs_cache fs"
  obtain vec where vec: "zippyfs_readdir path fs = Some (Inr (fs\<lparr>fs_cache := ?bc\<lparr>bc_loader := load_trees dir (bc_loader ?bc)\<rparr>\<rparr>,
        map (base_name \<circ> ie_path) (filter (\<lambda>x. ie_deleted x = 0) vec) @ [''.'', ''..''], 0))"
      "sorted_wrt (<) (map ie_path vec)" "ie_path ` set vec = ie_path ` E"
      "\<forall>x \<in> set vec. x \<in> E \<and> (\<forall>y \<in> E. ie_path y = ie_path x \<longrightarrow> ie_mtime y \<le> ie_mtime x)"
    using readdir_reply [OF assms] by blast
  let ?es = "filter (\<lambda>x. ie_deleted x = 0) vec"
  note vec(1)
  moreover have "sorted_wrt (<) (map ie_path ?es)" using vec(2) by (simp add: sorted_wrt_map sorted_wrt_filter)
  moreover have "x \<in> set ?es"
    if x: "x \<in> E" "ie_deleted x = 0" "\<forall>y \<in> E. ie_path y = ie_path x \<and> y \<noteq> x \<longrightarrow> ie_mtime y < ie_mtime x" for x
  proof -
    have "ie_path x \<in> ie_path ` set vec" using vec(3) x(1) by simp
    then obtain y where y: "y \<in> set vec" "ie_path y = ie_path x" by fastforce
    then have "ie_mtime x \<le> ie_mtime y" "y \<in> E" using vec(4) x(1) by auto
    then have "y = x" using x(3) y(2) by (meson linorder_not_less)
    then show ?thesis using x(2) y(1) by simp
  qed
  ultimately show ?thesis using vec(4) by (intro exI [of _ "fs\<lparr>fs_cache := ?bc\<lparr>bc_loader := load_trees dir (bc_loader ?bc)\<rparr>\<rparr>"] exI [of _ ?es]) auto
qed

theorem readdir_lists_witness:
  "\<exists>img fs'. built img [version_job 5 7]
    \<and> zippyfs_readdir ''/'' (zippyfs_init 0 undefined ''d/'' [(''d/root/TREE-1'', img)]) = Some (Inr (fs', [''f'', ''.'', ''..''], 0))"
proof -
  obtain img where img: "built img [version_job 5 7]" using built_exists version_job_ok by blast
  let ?dir = "[(''TREE-1'', img)]" and ?fs = "zippyfs_init 0 undefined ''d/'' [(''d/root/TREE-1'', img)]"
  let ?E = "{index_entry_of (version_job 5 7)}"
  have list: "listing ''d/root/'' [(''d/root/TREE-1'', img)] = ?dir" by (simp add: listing_def)
  have dir: "?dir = listing (bc_path_to_disk (fs_cache ?fs)) (fs_disk ?fs)"
    by (simp add: zippyfs_init_def BlockCache_def Let_def list)
  have stale: "no_stale ?dir (bc_loader (fs_cache ?fs))"
    by (simp add: no_stale_def tree_files_def zippyfs_init_def BlockCache_def BPLUSIndexLoader_def load_trees_def Let_def list)
  have files: "tree_files ?dir = ?dir" by (simp add: tree_files_def)
  have read: "\<forall>(ent, img) \<in> set (tree_files ?dir). tree_readable img [version_job 5 7]"
    using img version_job_ok files by (simp add: tree_readable_def version_job_def sample_inode_def get_path_def nul_free_def)
  have E: "?E = (\<Union>(ent, img) \<in> set (tree_files ?dir). index_entry_of ` set (filter (child_of ''/'') [version_job 5 7]))"
    unfolding files by (simp add: child_of_def version_job_def sample_inode_def get_path_def parent_path_def)
  have entry: "ie_path (index_entry_of (version_job 5 7)) = ''/f''" "ie_deleted (index_entry_of (version_job 5 7)) = 0"
    by (simp_all add: version_job_def sample_inode_def get_path_def index_entry_of_def is_deleted_def)
  obtain fs' es where r: "zippyfs_readdir ''/'' ?fs = Some (Inr (fs', map (base_name \<circ> ie_path) es @ [''.'', ''..''], 0))"
      "sorted_wrt (<) (map ie_path es)" "\<forall>x \<in> set es. x \<in> ?E" "\<forall>x \<in> ?E. ie_deleted x = 0 \<and> (\<forall>y \<in> ?E. ie_path y = ie_path x \<and> y \<noteq> x \<longrightarrow> ie_mtime y < ie_mtime x) \<longrightarrow> x \<in> set es"
    using readdir_lists [OF stale dir read E] by blast
  have "index_entry_of (version_job 5 7) \<in> set es" using r(4) entry(2) by blast
  then have "set es = ?E" using r(3) by blast
  moreover have "distinct es" using omap.ok_distinct [of "map (\<lambda>x. (ie_path x, x)) es"] r(2) by (simp add: comp_def distinct_map)
  ultimately have "length es = 1" using distinct_card [of es] by simp
  then obtain x where "es = [x]" by (cases es) auto
  then have "es = [index_entry_of (version_job 5 7)]" using \<open>set es = ?E\<close> by simp
  then show ?thesis using r(1) img entry(1) by (intro exI [of _ img] exI [of _ fs']) (simp add: base_name_def)
qed

text \<open>
  (C24) A \<open>write\<close> that fails is reported as complete, and so is a \<open>truncate\<close>: for a path that
  is neither in the cache nor on disk nothing changes, but the kernel is told that all bytes
  were written, since the callbacks drop the result of the cache.
\<close>

theorem failed_write_reported:
  assumes "map_of (bc_inode_idx (fs_cache fs)) path = None" "path \<noteq> ''/''" "ld_mem (bc_loader (fs_cache fs)) = []"
    "bc_size (fs_cache fs) < MAX_SIZE"
  shows "(\<exists>r. cache_write e path buf sz offset (fs_cache fs) = Some (Inr (fs_cache fs, r)) \<and> r = -1)
    \<and> handle e (Write path buf sz offset) fs = Some (Inr (fs, Status (sint (ucast sz :: u32))))
    \<and> cache_truncate e path sz (fs_cache fs) = Inr (fs_cache fs, -1) \<and> handle e (Truncate path sz) fs = Some (Inr (fs, Status 0))"
proof -
  have out: "in_cache path (fs_cache fs) = -1" using assms(1,2) by (simp add: in_cache_def)
  have w: "cache_write e path buf sz offset (fs_cache fs) = Some (Inr (fs_cache fs, -1))"
    using out load_no_trees [OF assms(3)] by (simp add: cache_write_def)
  have t: "cache_truncate e path sz (fs_cache fs) = Inr (fs_cache fs, -1)" using out by (simp add: cache_truncate_def)
  have f: "flush_cache e 0 fs = Some (Inr (fs, -1))" using assms(4) by (simp add: flush_cache_def flush_to_shdw_def)
  show ?thesis using w t f by (simp add: zippyfs_write_def zippyfs_truncate_def on_cache_def reply_with_def)
qed

theorem failed_write_reported_witness:
  "handle sample_env (Write ''/f'' [1, 2, 3] 3 0) (zippyfs_init 0 undefined ''d/'' []) = Some (Inr (zippyfs_init 0 undefined ''d/'' [], Status 3))"
  using failed_write_reported [of "zippyfs_init 0 undefined ''d/'' []" "''/f''" sample_env "[1, 2, 3]" 3 0]
  by (simp add: zippyfs_init_def BlockCache_def Let_def listing_def BPLUSIndexLoader_def load_trees_def MAX_SIZE_def)

text \<open>
  (C28) A new file can be used at once but is not listed: after \<open>mknod\<close>, \<open>getattr\<close> answers
  with the mode that was asked for and an empty file, and \<open>open\<close> succeeds, but every
  listing is what it was before, since \<open>readdir\<close> looks only at the files on disk.
\<close>

theorem created_not_listed:
  assumes "length path \<noteq> 1"
  shows "\<exists>fs' st. handle e (Mknod path mode) fs = Some (Inr (fs', Status 0))
    \<and> handle e' (Getattr path) fs' = Some (Inr (fs', Attributes st 0)) \<and> st_mode st = mode \<and> st_size st = 0 \<and> st_blocks st = 0
    \<and> handle e' (Open path) fs' = Some (Inr (fs', Status 0))
    \<and> (\<forall>d. map_option (map_sum id snd) (zippyfs_readdir d fs') = map_option (map_sum id snd) (zippyfs_readdir d fs))"
proof -
  let ?bc = "fst (make_file e path mode True (fs_cache fs))"
  let ?fs = "fs\<lparr>fs_cache := ?bc\<rparr>"
  let ?i = "inode_set_dirty (set_mode (e_clk e 1) mode (inode_new (e_hash e) (e_clk e 0) (e_mode0 e) path))"
  have i: "map_of (bc_inode_idx ?bc) path = Some (get_id ?i)" "map_of (bc_inode_ptrs ?bc) (get_id ?i) = Some (Some ?i)"
    by (simp_all add: make_file_def Let_def omap_put_find)
  have "zippyfs_getattr e' path ?fs = Some (Inr (?fs, inode_stat ?i, 0))"
    using getattr_cached [OF i] assms by (simp add: zippyfs_getattr_def on_cache_def)
  moreover have "zippyfs_open e' path ?fs = Some (Inr (?fs, 0))"
    using i(1) by (simp add: zippyfs_open_def on_cache_def cache_open_def in_cache_def)
  moreover have "st_mode (inode_stat ?i) = mode" "st_size (inode_stat ?i) = 0" "st_blocks (inode_stat ?i) = 0"
    by (simp_all add: inode_stat_def inode_set_dirty_def set_mode_def Let_def inode_new_def get_size_def)
  moreover have "map_option (map_sum id snd) (zippyfs_readdir d ?fs) = map_option (map_sum id snd) (zippyfs_readdir d fs)" for d
  proof -
    have "bc_loader ?bc = bc_loader (fs_cache fs)" "bc_path_to_disk ?bc = bc_path_to_disk (fs_cache fs)" by (simp_all add: make_file_def Let_def)
    then have "map_option (map_sum id snd) (cache_readdir dir d ?bc) = map_option (map_sum id snd) (cache_readdir dir d (fs_cache fs))" for dir
      by (cases "get_children dir (bc_loader (fs_cache fs)) d") (auto simp: cache_readdir_def and_then_def split: sum.split)
    moreover have names: "map_option (map_sum id snd) (zippyfs_readdir d g)
        = map_option (map_sum id (\<lambda>vec. (map (\<lambda>(p, ent). base_name p) (filter (\<lambda>(p, ent). ie_deleted ent = 0)
            (fold (\<lambda>ent m. omap_put (ie_path ent) ent m) vec [])) @ [''.'', ''..''], 0)))
          (map_option (map_sum id snd) (cache_readdir (listing (bc_path_to_disk (fs_cache g)) (fs_disk g)) d (fs_cache g)))" for g
      by (cases "cache_readdir (listing (bc_path_to_disk (fs_cache g)) (fs_disk g)) d (fs_cache g)")
        (auto simp: zippyfs_readdir_def and_then_def Let_def split: sum.split)
    ultimately show ?thesis using \<open>bc_path_to_disk ?bc = bc_path_to_disk (fs_cache fs)\<close> by (simp only: names) simp
  qed
  moreover have "handle e (Mknod path mode) fs = Some (Inr (?fs, Status 0))"
    by (simp add: zippyfs_mknod_def on_cache_def reply_with_def make_file_def Let_def)
  ultimately show ?thesis by (intro exI [of _ ?fs] exI [of _ "inode_stat ?i"]) (simp add: reply_with_def)
qed

theorem created_not_listed_witness:
  "\<exists>fs' st. handle sample_env (Mknod ''/f'' 0x81A4) (zippyfs_init 0 undefined ''d/'' []) = Some (Inr (fs', Status 0))
    \<and> handle sample_env (Getattr ''/f'') fs' = Some (Inr (fs', Attributes st 0)) \<and> st_mode st = 0x81A4"
  using created_not_listed [of "''/f''" sample_env "0x81A4" "zippyfs_init 0 undefined ''d/'' []" sample_env] by auto

end
