(* ===== verification/Remount.thy ===== *)
theory Remount
  imports Session
begin

text \<open>
  The composition of all components: a file that is created and written in one mount, flushed
  at its end, and listed, opened and read in the next mount, has the bytes that were written.
\<close>

section \<open>Loading an inode\<close>

lemma add_loaded_eq:
  assumes "distinct (map fst blks)" "\<forall>x \<in> set blks. fst x \<notin> fst ` set (ino_blocks i)"
    "add_loaded_blocks clk k blks (h, i) = (h', i')"
  shows "h' = h @ map snd blks \<and> ino_blocks i' = ino_blocks i @ zip (map fst blks) [length h..<length h + length blks] \<and> same_meta i' i"
  using assms
proof (induction blks arbitrary: k h i)
  case Nil
  then show ?case by (simp add: same_meta_def)
next
  case (Cons x blks)
  obtain bid b where x: "x = (bid, b)" by (cases x)
  define i1 where "i1 = (update_mtime (clk k) i)\<lparr>ino_blocks := ino_blocks i @ [(bid, length h)]\<rparr>"
  have "map_of (ino_blocks i) bid = None" using Cons.prems(2) x by (simp add: map_of_eq_None_iff)
  then have "add_block (clk k) bid (length h) (h @ [b]) i = (h @ [b], i1)"
    by (simp add: add_block_def Let_def i1_def update_mtime_def update_new)
  then have rest: "add_loaded_blocks clk (k + 1) blks (h @ [b], i1) = (h', i')" using Cons.prems(3) x by simp
  have "h' = (h @ [b]) @ map snd blks \<and> ino_blocks i' = ino_blocks i1 @ zip (map fst blks) [length (h @ [b])..<length (h @ [b]) + length blks]
      \<and> same_meta i' i1"
    using Cons.prems(1,2) x by (intro Cons.IH [OF _ _ rest]) (auto simp: i1_def)
  moreover have "[length h..<length h + length (x # blks)] = length h # [length (h @ [b])..<length (h @ [b]) + length blks]"
    using upt_conv_Cons [of "length h" "length h + Suc (length blks)"] by (simp del: upt_Suc)
  ultimately show ?case using x by (simp add: i1_def update_mtime_def same_meta_def)
qed

lemma map_of_zip_upt:
  assumes "distinct (map fst blks)" "map_of blks bid = Some b"
  shows "\<exists>j < length blks. map_of (zip (map fst blks) [n..<n + length blks]) bid = Some (n + j) \<and> snd (blks ! j) = b"
proof -
  obtain j where j: "j < length blks" "blks ! j = (bid, b)" using map_of_SomeD [OF assms(2)] by (auto simp: in_set_conv_nth)
  then have "(map fst blks ! j, [n..<n + length blks] ! j) \<in> set (zip (map fst blks) [n..<n + length blks])"
    by (intro in_set_zip [THEN iffD2]) (auto intro: exI [of _ j])
  then have "map_of (zip (map fst blks) [n..<n + length blks]) bid = Some (n + j)"
    using j assms(1) by (intro map_of_is_SomeI) auto
  then show ?thesis using j by auto
qed

text \<open>An inode with the same bytes under the same block numbers has the same contents.\<close>

lemma dense_same_bytes:
  assumes "dense h i" "inode_inv h' i'"
    "\<And>bid. map_option (\<lambda>p. block_bytes (h' ! p)) (map_of (ino_blocks i') bid) = map_option (\<lambda>p. block_bytes (h ! p)) (map_of (ino_blocks i) bid)"
  shows "dense h' i'" "contents h' i' = contents h i"
proof -
  let ?n = "length (ino_blocks i)"
  have dom: "map_of (ino_blocks i') bid = None \<longleftrightarrow> map_of (ino_blocks i) bid = None" for bid using assms(3) [of bid]
    by (cases "map_of (ino_blocks i') bid"; cases "map_of (ino_blocks i) bid") auto
  have keys: "fst ` set (ino_blocks i') = fst ` set (ino_blocks i)" using dom unfolding map_of_eq_None_iff by blast
  have d: "distinct (map fst (ino_blocks i))" "distinct (map fst (ino_blocks i'))" using assms(1,2) by (simp_all add: dense_def inode_inv_def)
  have len: "length (ino_blocks i') = ?n"
    using distinct_card [OF d(1)] distinct_card [OF d(2)] keys by simp
  have bytes: "block_bytes (nth_block h' i' k) = block_bytes (nth_block h i k) \<and> map_of (ino_blocks i') (of_nat k) \<noteq> None
      \<and> block_inv (nth_block h' i' k)" if k: "k < ?n" for k
  proof -
    obtain p where p: "map_of (ino_blocks i) (of_nat k) = Some p" using dense_nth [OF assms(1) k] by blast
    then obtain p' where p': "map_of (ino_blocks i') (of_nat k) = Some p'" using dom [of "of_nat k"] by (cases "map_of (ino_blocks i') (of_nat k)") auto
    then have "block_inv (h' ! p')" using assms(2) map_of_SomeD [OF p'] by (auto simp: inode_inv_def)
    then show ?thesis using assms(3) [of "of_nat k"] p p' by (simp add: nth_block_def)
  qed
  have size: "blk_actual_size (nth_block h' i' k) = blk_actual_size (nth_block h i k)" if k: "k < ?n" for k
  proof -
    have "block_inv (nth_block h i k)" using dense_nth [OF assms(1) k] by auto
    then have "unat (blk_actual_size (nth_block h' i' k)) = unat (blk_actual_size (nth_block h i k))"
      using bytes [OF k] length_block_bytes by metis
    then show ?thesis by (simp add: word_unat_eq_iff)
  qed
  show "dense h' i'" using assms(1,2) len bytes size by (simp add: dense_def)
  have "map (\<lambda>k. block_bytes (nth_block h' i' k)) [0..<?n] = map (\<lambda>k. block_bytes (nth_block h i k)) [0..<?n]" using bytes by simp
  then show "contents h' i' = contents h i" unfolding contents_def len by (rule arg_cong)
qed

text \<open>What \<open>load_from_disk\<close> makes of a result of the loader.\<close>

lemma loaded_inode_eq:
  assumes "blocks_ok di" "i_deleted di = 0" "loaded_inode e path di h = (h', i')"
  shows "h' = h @ map snd (i_block_data di)" "get_id i' = i_inode_id di" "inode_inv h' i'" "ino_size i' = i_size di"
    "map_option (\<lambda>p. block_bytes (h' ! p)) (map_of (ino_blocks i') bid) = map_option block_bytes (map_of (i_block_data di) bid)"
    "ino_blocks i' = zip (map fst (i_block_data di)) [length h..<length h + length (i_block_data di)]"
proof -
  let ?blks = "i_block_data di"
  let ?i = "set_ctime (i_ctime di) (set_mtime (i_mtime di) (set_nlink (i_nlink di) (set_mode (e_clk e 2) (i_mode di)
            (set_size (e_clk e 1) (i_size di) (set_id (i_inode_id di) (inode_new (e_hash e) (e_clk e 0) (e_mode0 e) path))))))"
  have fields: "ino_blocks ?i = []" "ino_id ?i = i_inode_id di" "ino_links ?i = [path]" "ino_size ?i = i_size di"
    by (simp_all add: set_ctime_def set_mtime_def set_nlink_def set_mode_def Let_def set_size_def set_id_def update_mtime_def inode_new_def)
  have add: "add_loaded_blocks (e_clk e) 4 ?blks (h, ?i) = (h', i')" using assms(2,3) by (simp add: loaded_inode_def Let_def)
  have dist: "distinct (map fst ?blks)" "\<forall>x \<in> set ?blks. block_inv (snd x)" using assms(1) by (simp_all add: blocks_ok_def)
  have r: "h' = h @ map snd ?blks" "ino_blocks i' = zip (map fst ?blks) [length h..<length h + length ?blks]" "same_meta i' ?i"
    using add_loaded_eq [OF dist(1) _ add] fields(1) by simp_all
  show "h' = h @ map snd ?blks" "get_id i' = i_inode_id di" "ino_size i' = i_size di"
    "ino_blocks i' = zip (map fst ?blks) [length h..<length h + length ?blks]"
    using r fields by (simp_all add: same_meta_def get_id_def)
  have nth: "h' ! (length h + j) = snd (?blks ! j)" if "j < length ?blks" for j using r(1) that by (simp add: nth_append)
  have "p < length h' \<and> block_inv (h' ! p)" if bp: "(bid, p) \<in> set (ino_blocks i')" for bid p
  proof -
    obtain j where "j < length ?blks" "p = length h + j" using bp r(2) by (auto simp: set_zip)
    then show ?thesis using nth dist(2) r(1) by simp
  qed
  moreover have "distinct (map fst (ino_blocks i'))" using r(2) dist(1) by simp
  moreover have "distinct (ino_links i')" using r(3) fields(3) by (simp add: same_meta_def)
  ultimately show "inode_inv h' i'" by (auto simp: inode_inv_def)
  show "map_option (\<lambda>p. block_bytes (h' ! p)) (map_of (ino_blocks i') bid) = map_option block_bytes (map_of ?blks bid)"
  proof (cases "map_of ?blks bid")
    case None
    have "fst ` set (ino_blocks i') = fst ` set ?blks" unfolding r(2) set_map [symmetric] by simp
    then have "map_of (ino_blocks i') bid = None" using None by (simp add: map_of_eq_None_iff)
    then show ?thesis using None by simp
  next
    case (Some b)
    then show ?thesis using map_of_zip_upt [OF dist(1) Some, of "length h"] nth r(2) by auto
  qed
qed

lemma load_found:
  assumes "map_of (bc_inode_idx bc) path = None" "path \<noteq> ''/''" "find_latest_inode (e_hash e) (bc_loader bc) path True = Some (Inr di)"
    "i_mtime di \<noteq> 0" "loaded_inode e path di (bc_heap bc) = (h', i')"
  shows "cache_open e path bc = Some (Inr (bc\<lparr>bc_heap := h', bc_inode_idx := omap_put path (get_id i') (bc_inode_idx bc),
      bc_inode_ptrs := omap_put (get_id i') (Some (undo_dirty i')) (bc_inode_ptrs bc)\<rparr>, 0))"
  using assms by (simp add: cache_open_def load_from_disk_def get_latest_inode_def in_cache_def Let_def)

section \<open>Writing a new file\<close>

text \<open>The modification time after a \<open>write\<close> is a reading of the clock.\<close>

lemma write_round_mtime:
  assumes "\<forall>k j. 0 < get_time (e_clk e k j)" "write_round e ident buf n offset b0 k (i, bc) = (i', bc')"
  shows "0 < ino_ul_mtime i'"
proof -
  have "write_block e ident buf k (of_nat (b0 + k)) (of_nat (min (k * SIZE) n)) (of_nat (min ((k + 1) * SIZE) n - min (k * SIZE) n))
        (first_amt offset k) i bc = Inr (i', bc')"
    using write_round_block [of e ident buf n offset b0 k i bc] assms(2) by (elim exE conjE) simp
  then have "ino_ul_mtime i' = get_time (e_clk e (2 * k) 0)"
    by (auto simp: write_block_def has_block_def get_block_def add_block_def update_mtime_def Let_def split: if_splits option.splits)
  then show ?thesis using assms(1) by simp
qed

lemma write_state_mtime:
  assumes "\<forall>k j. 0 < get_time (e_clk e k j)" "0 < ino_ul_mtime i"
  shows "0 < ino_ul_mtime (fst (write_state e ident buf sz offset i bc))"
proof -
  let ?e = "sub_env 2 e"
  have e: "\<forall>k j. 0 < get_time (e_clk ?e k j)" using assms(1) by (simp add: sub_env_def)
  have "0 < ino_ul_mtime (fst s) \<Longrightarrow> 0 < ino_ul_mtime (fst (fold (write_round ?e ident buf n offset b0) ks s))" for n b0 ks s
  proof (induction ks arbitrary: s)
    case (Cons k ks)
    obtain i0 bc0 where s: "s = (i0, bc0)" by (cases s)
    obtain i' bc' where w: "write_round ?e ident buf n offset b0 k (i0, bc0) = (i', bc')" by fastforce
    show ?case using Cons.IH [of "(i', bc')"] write_round_mtime [OF e w] s w by simp
  qed simp
  moreover have "0 < ino_ul_mtime (grown e (sz + offset) i)"
    using assms by (simp add: grown_def Let_def set_size_def update_mtime_def remake_inode_def inode_set_dirty_def get_size_def)
  ultimately show ?thesis by (simp add: write_state_def Let_def)
qed

text \<open>A cache with one new file of full and partial blocks, all of them dirty, can be flushed.\<close>

definition one_file :: "string \<Rightarrow> string \<Rightarrow> u8 list \<Rightarrow> inode \<Rightarrow> block_cache \<Rightarrow> bool" where
  "one_file path ident data i bc \<longleftrightarrow> bc_inode_idx bc = [(path, ident)] \<and> map_of (bc_inode_ptrs bc) ident = Some (Some i)
     \<and> dense (bc_heap bc) i \<and> contents (bc_heap bc) i = data \<and> get_path i = path \<and> get_id i = ident \<and> ino_deleted i = 0
     \<and> length (ino_blocks i) < 2 ^ 32
     \<and> (\<forall>bid. map_of (row ident (bc_dirty_block bc)) bid = map_of (ino_blocks i) bid)
     \<and> (\<forall>id'. id' \<noteq> ident \<longrightarrow> row id' (bc_dirty_block bc) = [])"

lemma sorted_subset_length:
  assumes "keys_sorted r" "fst ` set r \<subseteq> fst ` set m"
  shows "length r \<le> length m"
proof -
  have "length r = card (fst ` set r)" using assms(1) omap.ok_distinct [of r] distinct_card [of "map fst r"] by simp
  also have "\<dots> \<le> card (fst ` set m)" using assms(2) by (intro card_mono) auto
  also have "\<dots> \<le> length m" by (metis card_length length_map list.set_map)
  finally show ?thesis .
qed

lemma one_file_flushable:
  assumes "one_file path ident data i bc" "cache_wf bc" "nul_free ident" "length ident < HASH_SIZE" "length path < 2 ^ 63"
  shows "flushable bc"
proof -
  let ?r = "row ident (bc_dirty_block bc)"
  have o: "bc_inode_idx bc = [(path, ident)]" "map_of (bc_inode_ptrs bc) ident = Some (Some i)" "dense (bc_heap bc) i"
      "get_path i = path" "length (ino_blocks i) < 2 ^ 32" "\<And>bid. map_of ?r bid = map_of (ino_blocks i) bid"
      "\<And>id'. id' \<noteq> ident \<Longrightarrow> row id' (bc_dirty_block bc) = []"
    using assms(1) by (simp_all add: one_file_def)
  have r: "keys_sorted ?r" using dirty_row_wf [OF assms(2), of ident] by (simp add: dirty_wf_def)
  have "fst ` set ?r \<subseteq> fst ` set (ino_blocks i)" using o(6) map_of_eq_None_iff by (metis subsetI)
  then have len: "length ?r \<le> length (ino_blocks i)" by (rule sorted_subset_length [OF r])
  have sorted: "keys_sorted (bc_dirty_block bc)" using assms(2) by (simp add: cache_wf_def)
  have "row_sum (\<lambda>x. 1) (bc_dirty_block bc) = length ?r"
    using row_sum_ids [OF sorted, of "[ident]" "\<lambda>x. 1"] o(7) by (simp add: sum_list_triv)
  then have small: "SIZE * row_sum (\<lambda>x. 1) (bc_dirty_block bc) < 2 ^ 63" using len o(5) by simp
  have "block_inv (bc_heap bc ! p)" if d: "(id', r') \<in> set (bc_dirty_block bc)" "(bid, p) \<in> set r'" for id' r' bid p
  proof -
    have "distinct (map fst (bc_dirty_block bc))" using sorted by (rule omap.ok_distinct)
    then have row: "row id' (bc_dirty_block bc) = r'" using d(1) by (simp add: row_def)
    then have id: "id' = ident" using o(7) d(2) by (cases "id' = ident") auto
    have "distinct (map fst ?r)" using r by (rule omap.ok_distinct)
    then have "map_of ?r bid = Some p" using d(2) row id by simp
    then have "(bid, p) \<in> set (ino_blocks i)" using o(6) map_of_SomeD by metis
    then show ?thesis using o(3) by (auto simp: dense_def inode_inv_def)
  qed
  then show ?thesis
    using assms o small by (auto simp: flushable_def get_path_def)
qed

lemma created_one_file:
  assumes "bc_inode_idx bc0 = []" "bc_inode_ptrs bc0 = []" "bc_dirty_block bc0 = []" "ident = crypto_hash (e_hash e1) path"
    "bc1 = fst (make_file e1 path mode True bc0)"
    "i1 = inode_set_dirty (set_mode (e_clk e1 1) mode (inode_new (e_hash e1) (e_clk e1 0) (e_mode0 e1) path))"
    "unat sz \<le> length buf" "unat sz < 2 ^ 43" "write_state e2 ident buf sz 0 i1 bc1 = (i', bc2)"
  shows "one_file path ident (take (unat sz) buf) i' bc2"
proof -
  have i1: "get_id i1 = ident" "get_path i1 = path" "ino_blocks i1 = []" "ino_links i1 = [path]"
    by (simp_all add: assms(4,6) inode_set_dirty_def set_mode_def Let_def inode_new_def get_id_def get_path_def)
  have bc1: "bc_inode_idx bc1 = [(path, ident)]" "map_of (bc_inode_ptrs bc1) ident = Some (Some i1)" "bc_dirty_block bc1 = []"
  proof -
    have "bc1 = bc0\<lparr>bc_size := bc_size bc0 + 1, bc_inode_idx := omap_put path (get_id i1) (bc_inode_idx bc0),
             bc_inode_ptrs := omap_put (get_id i1) (Some i1) (bc_inode_ptrs bc0), bc_has_changed := True\<rparr>"
      by (simp add: assms(5,6) make_file_def Let_def)
    then show "bc_inode_idx bc1 = [(path, ident)]" "map_of (bc_inode_ptrs bc1) ident = Some (Some i1)" "bc_dirty_block bc1 = []"
      using i1(1) assms(1-3) by simp_all
  qed
  have empty: "dense (bc_heap bc1) i1" "all_full (bc_heap bc1) i1" "contents (bc_heap bc1) i1 = []"
    using i1 by (simp_all add: dense_def inode_inv_def all_full_def contents_def)
  have zero: "unat (0 :: u64) = length (ino_blocks i1) * SIZE" using i1(3) by simp
  have lim: "unat sz + unat (0 :: u64) < 2 ^ 44 - SIZE" using assms(8) by simp
  obtain m where m: "unat sz \<le> m * SIZE" "m * SIZE < unat sz + SIZE"
      "appended ident [] (take (unat sz) buf) 0 (grown e2 (sz + 0) i1) bc1 m (i', bc2)"
    using append_state [OF bc1(2) empty(1,2) zero assms(7) lim, of e2] assms(9) empty(3) i1(3) by auto
  then have a: "dense (bc_heap bc2) i'" "length (ino_blocks i') = m" "contents (bc_heap bc2) i' = take (m * SIZE) (take (unat sz) buf)"
      "same_meta i' (grown e2 (sz + 0) i1)" "map_of (bc_inode_ptrs bc2) ident = Some (Some i')" "bc_inode_idx bc2 = [(path, ident)]"
      "\<And>id'. id' \<noteq> ident \<Longrightarrow> row id' (bc_dirty_block bc2) = row id' (bc_dirty_block bc1)"
      "\<And>bid. map_of (row ident (bc_dirty_block bc2)) bid = (if bid \<in> of_nat ` {0..<0 + m} then map_of (ino_blocks i') bid else map_of (row ident (bc_dirty_block bc1)) bid)"
    using bc1(1) by (simp_all add: appended_def)
  have "map_of (ino_blocks i') bid = None" if "bid \<notin> of_nat ` {0..<0 + m}" for bid
    using dense_keys [OF a(1)] a(2) that by (simp add: map_of_eq_None_iff atLeast0LessThan)
  then have row: "map_of (row ident (bc_dirty_block bc2)) bid = map_of (ino_blocks i') bid" for bid
    using a(8) [of bid] bc1(3) by (auto simp: row_def)
  have "take (m * SIZE) (take (unat sz) buf) = take (unat sz) buf" using m(1) by (simp add: min_absorb2)
  moreover have "m < 2 ^ 32" using m(2) assms(8) by simp
  moreover have "get_path i' = path" "get_id i' = ident" "ino_deleted i' = 0"
    using a(4) i1(1,2) grown_blocks [of e2 "sz + 0" i1] by (simp_all add: same_meta_def get_path_def get_id_def)
  ultimately show ?thesis using a row bc1(3) by (simp add: one_file_def) (simp add: row_def)
qed

section \<open>The first mount\<close>

abbreviation mount_dir :: string where
  "mount_dir \<equiv> ''/home/arvin/FileSystem/zipfs/o/dir/''"

lemma new_cache:
  "bc_inode_idx (fs_cache (zippyfs_init size0 junk zip_dir disk)) = []" "bc_inode_ptrs (fs_cache (zippyfs_init size0 junk zip_dir disk)) = []"
  "bc_dirty_block (fs_cache (zippyfs_init size0 junk zip_dir disk)) = []" "bc_size (fs_cache (zippyfs_init size0 junk zip_dir disk)) = size0"
  "fs_disk (zippyfs_init size0 junk zip_dir disk) = disk"
  by (simp_all add: zippyfs_init_def BlockCache_def Let_def)

text \<open>A new file and its first write, up to the flush, and what a flush makes of it.\<close>

lemma written_cache:
  assumes "nul_free path" "length path < 2 ^ 63" "length (crypto_hash (e_hash e1) path) < HASH_SIZE"
    "\<forall>k j. 0 < get_time (e_clk e1 k j)" "\<forall>k j. 0 < get_time (e_clk e2 k j)"
    "unat sz \<le> length buf" "unat sz < 2 ^ 43" "ident = crypto_hash (e_hash e1) path"
    and fs0: "fs0 = zippyfs_init size0 junk zip_dir disk"
  shows "\<exists>bc0 bc i. handle e1 (Mknod path mode) fs0 = Some (Inr (fs0\<lparr>fs_cache := bc0\<rparr>, Status 0))
    \<and> cache_write e2 path buf sz 0 bc0 = Some (Inr (bc, sint (ucast sz :: u32)))
    \<and> one_file path ident (take (unat sz) buf) i bc \<and> 0 < get_ull_mtime i \<and> jobs_ok [job_of bc (path, ident)]
    \<and> bc_size bc = size0 + 1 \<and> bc_loader bc = bc_loader (fs_cache fs0) \<and> bc_path_to_disk bc = bc_path_to_disk (fs_cache fs0)
    \<and> (\<forall>e. \<exists>img m. flush_to_disk e bc = Some (Inr (bc\<lparr>bc_inode_idx := [], bc_inode_ptrs := [], bc_dirty_block := [],
          bc_dirty_block_mtime := m, bc_size := 0\<rparr>, Some (tree_name e, img), 0)) \<and> built img [job_of bc (path, ident)])"
proof -
  let ?bc1 = "fst (make_file e1 path mode True (fs_cache fs0))"
  let ?i1 = "inode_set_dirty (set_mode (e_clk e1 1) mode (inode_new (e_hash e1) (e_clk e1 0) (e_mode0 e1) path))"
  have mk: "handle e1 (Mknod path mode) fs0 = Some (Inr (fs0\<lparr>fs_cache := ?bc1\<rparr>, Status 0))"
    by (simp add: zippyfs_mknod_def on_cache_def reply_with_def make_file_def Let_def)
  have i1: "get_id ?i1 = ident" by (simp add: assms(8) inode_set_dirty_def set_mode_def Let_def inode_new_def get_id_def)
  then have bc1: "map_of (bc_inode_idx ?bc1) path = Some ident" "map_of (bc_inode_ptrs ?bc1) ident = Some (Some ?i1)" "bc_size ?bc1 = size0 + 1"
      "bc_loader ?bc1 = bc_loader (fs_cache fs0)" "bc_path_to_disk ?bc1 = bc_path_to_disk (fs_cache fs0)"
    using new_cache(4) [of size0 junk zip_dir disk] by (simp_all add: fs0 make_file_def Let_def omap_put_find)
  obtain i bc2 where st: "write_state e2 ident buf sz 0 ?i1 ?bc1 = (i, bc2)" by fastforce
  let ?bc = "bc2\<lparr>bc_has_changed := True\<rparr>"
  have lim: "unat sz + unat (0 :: u64) < 2 ^ 44 - SIZE" using assms(7) by simp
  have w: "cache_write e2 path buf sz 0 ?bc1 = Some (Inr (?bc, sint (ucast sz :: u32)))"
    using cache_write_cached [OF bc1(1,2) lim, of e2 buf] st by simp
  have rest: "bc_size ?bc = size0 + 1" "bc_loader ?bc = bc_loader (fs_cache fs0)" "bc_path_to_disk ?bc = bc_path_to_disk (fs_cache fs0)"
    using write_state_rest [of ?bc1 e2 ident buf sz 0 ?i1] st bc1(3-5) by (simp_all add: same_rest_def)
  have "one_file path ident (take (unat sz) buf) i bc2"
    unfolding fs0 by (rule created_one_file [OF new_cache(1-3) assms(8) refl refl assms(6,7) st [unfolded fs0]])
  then have one: "one_file path ident (take (unat sz) buf) i ?bc" by (simp add: one_file_def)
  have "cache_reachable ?bc1" unfolding fs0 using reach_step [OF init_reachable step_make_file] .
  then have wf: "cache_wf ?bc" using cache_write_wf [OF reachable_wf w] by blast
  have fl: "flushable ?bc"
    using one_file_flushable [OF one wf] assms(2,3) nul_free_crypto_hash unfolding assms(8) by blast
  have idx: "bc_inode_idx ?bc = [(path, ident)]" using one by (simp add: one_file_def)
  have flush: "\<exists>img m. flush_to_disk e ?bc = Some (Inr (?bc\<lparr>bc_inode_idx := [], bc_inode_ptrs := [], bc_dirty_block := [],
      bc_dirty_block_mtime := m, bc_size := 0\<rparr>, Some (tree_name e, img), 0)) \<and> built img [job_of ?bc (path, ident)]" for e
    using flush_built [OF fl, of e] idx by auto
  have "0 < ino_ul_mtime ?i1" using assms(4) by (simp add: inode_set_dirty_def set_mode_def Let_def)
  then have t: "0 < get_ull_mtime i" using write_state_mtime [OF assms(5), of ?i1 ident buf sz 0 ?bc1] st by (simp add: get_ull_mtime_def)
  have "jobs_ok [job_of ?bc (path, ident)]" using flushable_jobs [OF fl] by (simp add: idx)
  then show ?thesis using mk w one t rest flush by (intro exI [of _ ?bc1] exI [of _ ?bc] exI [of _ i]) simp
qed

lemma first_mount:
  assumes "nul_free path" "length path < 2 ^ 63" "length (crypto_hash (e_hash e1) path) < HASH_SIZE"
    "\<forall>k j. 0 < get_time (e_clk e1 k j)" "\<forall>k j. 0 < get_time (e_clk e2 k j)"
    "size0 + 1 < MAX_SIZE" "unat sz \<le> length buf" "unat sz < 2 ^ 43" "ident = crypto_hash (e_hash e1) path"
  shows "\<exists>fs1 img i bc. run [(e1, Mknod path mode), (e2, Write path buf sz 0), (e3, Destroy)] (zippyfs_init size0 junk zip_dir [])
      = Some (Inr (fs1, [Status 0, Status (sint (ucast sz :: u32)), Nothing]))
    \<and> fs_disk fs1 = [(tree_name e3, img)] \<and> built img [job_of bc (path, ident)] \<and> jobs_ok [job_of bc (path, ident)]
    \<and> one_file path ident (take (unat sz) buf) i bc \<and> 0 < get_ull_mtime i"
proof -
  let ?fs0 = "zippyfs_init size0 junk zip_dir []"
  obtain bc0 bc i where c: "handle e1 (Mknod path mode) ?fs0 = Some (Inr (?fs0\<lparr>fs_cache := bc0\<rparr>, Status 0))"
      "cache_write e2 path buf sz 0 bc0 = Some (Inr (bc, sint (ucast sz :: u32)))"
      "one_file path ident (take (unat sz) buf) i bc" "0 < get_ull_mtime i" "jobs_ok [job_of bc (path, ident)]" "bc_size bc = size0 + 1"
      "\<forall>e. \<exists>img m. flush_to_disk e bc = Some (Inr (bc\<lparr>bc_inode_idx := [], bc_inode_ptrs := [], bc_dirty_block := [],
          bc_dirty_block_mtime := m, bc_size := 0\<rparr>, Some (tree_name e, img), 0)) \<and> built img [job_of bc (path, ident)]"
    using written_cache [OF assms(1-5,7-9) refl, of mode size0 junk zip_dir "[]"] by blast
  obtain img m where flush: "flush_to_disk e3 bc = Some (Inr (bc\<lparr>bc_inode_idx := [], bc_inode_ptrs := [], bc_dirty_block := [],
      bc_dirty_block_mtime := m, bc_size := 0\<rparr>, Some (tree_name e3, img), 0))" "built img [job_of bc (path, ident)]"
    using c(7) by blast
  have wr: "handle e2 (Write path buf sz 0) (?fs0\<lparr>fs_cache := bc0\<rparr>) = Some (Inr (?fs0\<lparr>fs_cache := bc\<rparr>, Status (sint (ucast sz :: u32))))"
    using c(2,6) assms(6) by (simp add: zippyfs_write_def on_cache_def reply_with_def flush_cache_def flush_to_shdw_def)
  let ?fs3 = "?fs0\<lparr>fs_cache := bc\<lparr>bc_inode_idx := [], bc_inode_ptrs := [], bc_dirty_block := [],
      bc_dirty_block_mtime := m, bc_size := 0\<rparr>, fs_disk := [(tree_name e3, img)]\<rparr>"
  have de: "handle e3 Destroy (?fs0\<lparr>fs_cache := bc\<rparr>) = Some (Inr (?fs3, Nothing))"
    using flush(1) new_cache(5) [of size0 junk zip_dir "[]"] by (simp add: zippyfs_destroy_def flush_cache_def flush_to_shdw_def)
  have "run [(e1, Mknod path mode), (e2, Write path buf sz 0), (e3, Destroy)] ?fs0
      = Some (Inr (?fs3, [Status 0, Status (sint (ucast sz :: u32)), Nothing]))"
    unfolding run.simps c(1) and_then_simps prod.case wr de ..
  then show ?thesis using flush(2) c(3-5) by (intro exI [of _ ?fs3] exI [of _ img] exI [of _ i] exI [of _ bc]) simp
qed

section \<open>The second mount\<close>

lemma hex_digit_not_slash: "n < 16 \<Longrightarrow> hex_digit n \<noteq> CHR ''/''"
proof
  assume n: "n < 16" and slash: "hex_digit n = CHR ''/''"
  have "of_char (hex_digit n) = (if n < 10 then 48 + n else 55 + n)"
    using n by (simp add: hex_digit_def)
  moreover have "of_char (hex_digit n) = (47::nat)" by (subst slash) simp
  ultimately show False by (auto split: if_splits)
qed

lemma hex_name_no_slash: "CHR ''/'' \<notin> set (generate_rand_hex_name num)"
proof -
  have digits: "CHR ''/'' \<notin> set (sprintf_02X c)" for c
  proof -
    have "unat c < 2 ^ 8" using unsigned_less [of c] by simp
    then have "unat c div 16 < 16" "unat c mod 16 < 16" by (auto simp: div_less_iff_less_mult)
    then show ?thesis using hex_digit_not_slash [of "unat c div 16"] hex_digit_not_slash [of "unat c mod 16"]
      by (auto simp: sprintf_02X_def)
  qed
  then have "CHR ''/'' \<notin> set (hex_pair c)" for c unfolding hex_pair_def by (meson in_set_takeD)
  then have "CHR ''/'' \<notin> set (binary_to_hex num)"
    using digits by (cases num rule: rev_cases) (auto simp: binary_to_hex_Nil binary_to_hex_eq)
  then show ?thesis by (simp add: generate_rand_hex_name_def binary_to_hex_def)
qed

lemma tree_listing:
  "listing (mount_dir @ ''root/'') [(tree_name e, img)] = [(''TREE-'' @ generate_rand_hex_name (e_rand e), img)]"
  using hex_name_no_slash by (simp add: listing_def tree_name_def)

text \<open>The cache of the second mount before and after the first listing.\<close>

lemma mounted_cache:
  assumes "fs = zippyfs_init size0 junk mount_dir [(tree_name e, img)]" "dir = [(''TREE-'' @ generate_rand_hex_name (e_rand e), img)]"
  shows "bc_path_to_disk (fs_cache fs) = mount_dir @ ''root/''" "no_stale dir (bc_loader (fs_cache fs))" "tree_files dir = dir"
    "ld_mem (load_trees dir (bc_loader (fs_cache fs))) = [(tree_name e, Some img)]"
  using tree_listing [of e img]
  by (simp_all add: assms zippyfs_init_def BlockCache_def Let_def BPLUSIndexLoader_def load_trees_def no_stale_def tree_files_def
      tree_name_def)

lemma blocks_of_bytes:
  "map_option block_bytes (map_of (blocks_of bc ident) bid)
    = map_option (\<lambda>p. block_bytes (bc_heap bc ! p)) (map_of (row ident (bc_dirty_block bc)) bid)"
proof -
  have "map_of (blocks_of bc ident) = map_option (\<lambda>p. bc_heap bc ! p) \<circ> map_of (row ident (bc_dirty_block bc))"
    unfolding blocks_of_def by (rule map_of_map)
  then show ?thesis by (cases "map_of (row ident (bc_dirty_block bc)) bid") simp_all
qed

text \<open>
  A file of the one tree on disk, not in the cache: a listing maps the tree, then the file can
  be opened and read.
\<close>

lemma list_open_read:
  assumes "built img [job_of bc (path, ident)]" "jobs_ok [job_of bc (path, ident)]" "one_file path ident data i bc"
    "0 < get_ull_mtime i" "ident = crypto_hash (e_hash e5) path" "nul_free path" "1 < length path" "unat off2 < 2 ^ 44"
    and dir: "dir = [(ent, img)]" "listing (bc_path_to_disk (fs_cache fs)) (fs_disk fs) = dir" "tree_files dir = dir"
      "no_stale dir (bc_loader (fs_cache fs))" "ld_mem (load_trees dir (bc_loader (fs_cache fs))) = [(f, Some img)]"
    and none: "map_of (bc_inode_idx (fs_cache fs)) path = None"
  shows "\<exists>fs2 names. run [(e4, Readdir ''/''), (e5, Open path), (e6, Read path n2 off2)] fs
    = Some (Inr (fs2, [Names names 0, Status 0, Bytes (take (unat n2) (drop (unat off2) data)) (sint (ucast n2 :: u32))]))"
proof -
  let ?job = "job_of bc (path, ident)" and ?bc0 = "fs_cache fs"
  let ?bc1 = "?bc0\<lparr>bc_loader := load_trees dir (bc_loader ?bc0)\<rparr>"
  have o: "map_of (bc_inode_ptrs bc) ident = Some (Some i)" "dense (bc_heap bc) i" "contents (bc_heap bc) i = data" "get_path i = path"
      "get_id i = ident" "ino_deleted i = 0" "\<And>bid. map_of (row ident (bc_dirty_block bc)) bid = map_of (ino_blocks i) bid"
    using assms(3) by (simp_all add: one_file_def)
  have job: "?job = (i, blocks_of bc ident, row ident (bc_dirty_block_mtime bc))" using o(1) by (simp add: job_of_def)
  have path: "path \<noteq> []" "path \<noteq> ''/''" using assms(7) by auto
  have "\<forall>(ent, img) \<in> set (tree_files dir). tree_readable img [?job]"
    unfolding dir(3) using dir(1) assms(1,2,6) o(4) job by (simp add: tree_readable_def)
  from get_children_set [OF dir(4) this, of "''/''"] obtain es where
      "get_children dir (bc_loader ?bc0) ''/'' = Some (Inr (load_trees dir (bc_loader ?bc0), es))" by blast
  then have "\<exists>vec. cache_readdir dir ''/'' ?bc0 = Some (Inr (?bc1, vec))" by (simp add: cache_readdir_def)
  then obtain names where names: "handle e4 (Readdir ''/'') fs = Some (Inr (fs\<lparr>fs_cache := ?bc1\<rparr>, Names names 0))"
    by (auto simp: zippyfs_readdir_def reply_with_def Let_def dir(2))
  have ld: "ld_mem (bc_loader ?bc1) = [(f, Some img)]" using dir(5) by simp
  have mem: "(i, blocks_of bc ident, row ident (bc_dirty_block_mtime bc)) \<in> set [?job]" by (simp add: job)
  have id: "get_id i = crypto_hash (e_hash e5) path" using o(5) assms(5) by simp
  obtain di where di: "find_latest_inode (e_hash e5) (bc_loader ?bc1) path True = Some (Inr di)" "has_attrs i di"
      "\<And>bid. map_option block_bytes (map_of (i_block_data di) bid) = map_option block_bytes (map_of (blocks_of bc ident) bid)"
    using find_in_single_tree [OF assms(2,1) mem id path(1) ld, of True] assms(4) by blast
  have ok: "blocks_ok di" by (rule single_tree_blocks_ok [OF assms(2,1) mem id path(1) ld di(1)])
  have del: "i_deleted di = 0" "i_mtime di \<noteq> 0" "i_inode_id di = ident"
    using di(2) o(5,6) assms(4) by (auto simp: has_attrs_def is_deleted_def)
  obtain h' i' where load: "loaded_inode e5 path di (bc_heap ?bc1) = (h', i')" by fastforce
  note l = loaded_inode_eq [OF ok del(1) load]
  have "map_option (\<lambda>p. block_bytes (h' ! p)) (map_of (ino_blocks i') bid) = map_option (\<lambda>p. block_bytes (bc_heap bc ! p)) (map_of (ino_blocks i) bid)" for bid
    using l(5) [of bid] di(3) [of bid] blocks_of_bytes [of bc ident bid] o(7) [of bid] by simp
  note same = dense_same_bytes [OF o(2) l(3) this]
  have undo: "ino_blocks (undo_dirty i') = ino_blocks i'" "ino_links (undo_dirty i') = ino_links i'" by (simp_all add: undo_dirty_def)
  have dense: "dense h' (undo_dirty i')" "contents h' (undo_dirty i') = data"
    using same dense_same_blocks [OF undo] o(3) by auto
  let ?bc2 = "?bc1\<lparr>bc_heap := h', bc_inode_idx := omap_put path (get_id i') (bc_inode_idx ?bc1),
      bc_inode_ptrs := omap_put (get_id i') (Some (undo_dirty i')) (bc_inode_ptrs ?bc1)\<rparr>"
  let ?fs2 = "fs\<lparr>fs_cache := ?bc2\<rparr>"
  have none1: "map_of (bc_inode_idx ?bc1) path = None" using none by simp
  have op: "handle e5 (Open path) (fs\<lparr>fs_cache := ?bc1\<rparr>) = Some (Inr (?fs2, Status 0))"
    using load_found [OF none1 path(2) di(1) del(2) load] by (simp add: zippyfs_open_def on_cache_def reply_with_def)
  have in2: "map_of (bc_inode_idx ?bc2) path = Some (get_id i')" "map_of (bc_inode_ptrs ?bc2) (get_id i') = Some (Some (undo_dirty i'))"
      "dense (bc_heap ?bc2) (undo_dirty i')" using dense(1) by (simp_all add: omap_put_find)
  have rd: "handle e6 (Read path n2 off2) ?fs2 = Some (Inr (?fs2, Bytes (take (unat n2) (drop (unat off2) data)) (sint (ucast n2 :: u32))))"
    using read_cached_dense [OF in2 assms(8), of e6 n2] dense(2) by (simp add: zippyfs_read_def on_cache_def reply_with_def)
  have "run [(e4, Readdir ''/''), (e5, Open path), (e6, Read path n2 off2)] fs
    = Some (Inr (?fs2, [Names names 0, Status 0, Bytes (take (unat n2) (drop (unat off2) data)) (sint (ucast n2 :: u32))]))"
    unfolding run.simps names and_then_simps prod.case op rd ..
  then show ?thesis by blast
qed

lemma second_mount:
  assumes "built img [job_of bc (path, ident)]" "jobs_ok [job_of bc (path, ident)]" "one_file path ident data i bc"
    "0 < get_ull_mtime i" "ident = crypto_hash (e_hash e5) path" "nul_free path" "1 < length path" "unat off2 < 2 ^ 44"
  shows "\<exists>fs2 names. run [(e4, Readdir ''/''), (e5, Open path), (e6, Read path n2 off2)]
      (zippyfs_init size0 junk mount_dir [(tree_name e, img)])
    = Some (Inr (fs2, [Names names 0, Status 0, Bytes (take (unat n2) (drop (unat off2) data)) (sint (ucast n2 :: u32))]))"
proof -
  let ?fs = "zippyfs_init size0 junk mount_dir [(tree_name e, img)]"
  note m = mounted_cache [of ?fs size0 junk e img, OF refl refl]
  show ?thesis
    by (rule list_open_read [OF assms refl _ m(3,2,4)])
      (unfold m(1) new_cache(1,5) tree_listing, simp_all)
qed

section \<open>The property\<close>



lemma mid_flush:
  assumes "nul_free path" "1 < length path" "length path < 2 ^ 63" "length (crypto_hash (e_hash e1) path) < HASH_SIZE"
    "\<forall>k j. 0 < get_time (e_clk e1 k j)" "\<forall>k j. 0 < get_time (e_clk e2 k j)"
    "MAX_SIZE \<le> size0 + 1" "unat sz \<le> length buf" "unat sz < 2 ^ 43" and fs0: "fs0 = zippyfs_init size0 junk mount_dir []"
    and id: "ident = crypto_hash (e_hash e1) path"
  shows "\<exists>fs1 img i bc. run [(e1, Mknod path mode), (e2, Write path buf sz 0)] fs0 = Some (Inr (fs1, [Status 0, Status (sint (ucast sz :: u32))]))
    \<and> built img [job_of bc (path, ident)] \<and> jobs_ok [job_of bc (path, ident)]
    \<and> one_file path ident (take (unat sz) buf) i bc \<and> 0 < get_ull_mtime i
    \<and> bc_inode_idx (fs_cache fs1) = [] \<and> bc_inode_ptrs (fs_cache fs1) = [] \<and> ld_mem (bc_loader (fs_cache fs1)) = []
    \<and> ld_path (bc_loader (fs_cache fs1)) = mount_dir @ ''root/'' \<and> bc_path_to_disk (fs_cache fs1) = mount_dir @ ''root/''
    \<and> fs_disk fs1 = [(tree_name e2, img)]"
proof -
  obtain bc0 bc i where c: "handle e1 (Mknod path mode) fs0 = Some (Inr (fs0\<lparr>fs_cache := bc0\<rparr>, Status 0))"
      "cache_write e2 path buf sz 0 bc0 = Some (Inr (bc, sint (ucast sz :: u32)))"
      "one_file path ident (take (unat sz) buf) i bc" "0 < get_ull_mtime i" "jobs_ok [job_of bc (path, ident)]" "bc_size bc = size0 + 1"
      "bc_loader bc = bc_loader (fs_cache fs0)" "bc_path_to_disk bc = bc_path_to_disk (fs_cache fs0)"
      "\<forall>e. \<exists>img m. flush_to_disk e bc = Some (Inr (bc\<lparr>bc_inode_idx := [], bc_inode_ptrs := [], bc_dirty_block := [],
          bc_dirty_block_mtime := m, bc_size := 0\<rparr>, Some (tree_name e, img), 0)) \<and> built img [job_of bc (path, ident)]"
    using written_cache [OF assms(1,3-6,8,9) id fs0, of mode] by blast
  obtain img m where flush: "flush_to_disk e2 bc = Some (Inr (bc\<lparr>bc_inode_idx := [], bc_inode_ptrs := [], bc_dirty_block := [],
      bc_dirty_block_mtime := m, bc_size := 0\<rparr>, Some (tree_name e2, img), 0))" "built img [job_of bc (path, ident)]"
    using c(9) by blast
  let ?fs1 = "fs0\<lparr>fs_cache := bc\<lparr>bc_inode_idx := [], bc_inode_ptrs := [], bc_dirty_block := [], bc_dirty_block_mtime := m, bc_size := 0\<rparr>,
      fs_disk := [(tree_name e2, img)]\<rparr>"
  have "\<not> bc_size bc < MAX_SIZE" using c(6) assms(7) by simp
  then have wr: "handle e2 (Write path buf sz 0) (fs0\<lparr>fs_cache := bc0\<rparr>) = Some (Inr (?fs1, Status (sint (ucast sz :: u32))))"
    using c(2) flush(1) new_cache(5) [of size0 junk mount_dir "[]"] fs0
    by (simp add: zippyfs_write_def on_cache_def reply_with_def flush_cache_def flush_to_shdw_def)
  have init: "bc_path_to_disk (fs_cache fs0) = mount_dir @ ''root/''" "ld_mem (bc_loader (fs_cache fs0)) = []"
      "ld_path (bc_loader (fs_cache fs0)) = mount_dir @ ''root/''"
    by (simp_all add: fs0 zippyfs_init_def BlockCache_def Let_def BPLUSIndexLoader_def load_trees_def listing_def)
  have "run [(e1, Mknod path mode), (e2, Write path buf sz 0)] fs0 = Some (Inr (?fs1, [Status 0, Status (sint (ucast sz :: u32))]))"
    unfolding run.simps c(1) and_then_simps prod.case wr ..
  then show ?thesis
    using c(3-5,7,8) flush(2) init by (intro exI [of _ ?fs1] exI [of _ img] exI [of _ i] exI [of _ bc]) simp
qed

lemma run_then:
  "run xs fs = Some (Inr (fs1, rs)) \<Longrightarrow> run (xs @ [(e, r)]) fs = and_then (handle e r fs1) (\<lambda>(fs2, x). Some (Inr (fs2, rs @ [x])))"
  by (cases "handle e r fs1") (auto simp: run_append and_then_def split: sum.splits)

text \<open>
  (C25) A flush in the middle of a session hides what it wrote. When \<open>size_\<close>, which the program
  never initialises, is large, the first write flushes and empties the cache; the loader does
  not map the new tree file, so \<open>getattr\<close> answers that the file does not exist, until a listing
  of any directory maps the trees. After the listing the file is there again with its bytes.
\<close>

theorem flushed_file_vanishes:
  assumes "nul_free path" "1 < length path" "length path < 2 ^ 63" "length (crypto_hash (e_hash e1) path) < HASH_SIZE"
    "e_hash e5 = e_hash e1" "\<forall>k j. 0 < get_time (e_clk e1 k j)" "\<forall>k j. 0 < get_time (e_clk e2 k j)"
    "MAX_SIZE \<le> size0 + 1" "unat sz \<le> length buf" "unat sz < 2 ^ 43" "unat off2 < 2 ^ 44"
  shows "\<exists>fs1 fs2 names.
    run [(e1, Mknod path mode), (e2, Write path buf sz 0), (e3, Getattr path)] (zippyfs_init size0 junk mount_dir [])
      = Some (Inr (fs1, [Status 0, Status (sint (ucast sz :: u32)), Attributes zero_stat (- ENOENT)]))
    \<and> run [(e4, Readdir ''/''), (e5, Open path), (e6, Read path n2 off2)] fs1
      = Some (Inr (fs2, [Names names 0, Status 0,
          Bytes (take (unat n2) (drop (unat off2) (take (unat sz) buf))) (sint (ucast n2 :: u32))]))"
proof -
  let ?fs0 = "zippyfs_init size0 junk mount_dir []" and ?id = "crypto_hash (e_hash e1) path"
  obtain fs1 img i bc where f: "run [(e1, Mknod path mode), (e2, Write path buf sz 0)] ?fs0 = Some (Inr (fs1, [Status 0, Status (sint (ucast sz :: u32))]))"
      "built img [job_of bc (path, ?id)]" "jobs_ok [job_of bc (path, ?id)]" "one_file path ?id (take (unat sz) buf) i bc" "0 < get_ull_mtime i"
      "bc_inode_idx (fs_cache fs1) = []" "bc_inode_ptrs (fs_cache fs1) = []" "ld_mem (bc_loader (fs_cache fs1)) = []"
      "ld_path (bc_loader (fs_cache fs1)) = mount_dir @ ''root/''" "bc_path_to_disk (fs_cache fs1) = mount_dir @ ''root/''"
      "fs_disk fs1 = [(tree_name e2, img)]"
    using mid_flush [OF assms(1-4,6-10) refl refl, of mode junk] by (elim exE conjE) (rule that)
  have out: "in_cache path (fs_cache fs1) = -1" using assms(2) f(6) by (auto simp: in_cache_def)
  have "cache_getattr e3 path zero_stat (fs_cache fs1) = Some (Inr (fs_cache fs1, zero_stat, - ENOENT))"
    using find_latest_no_trees [of "bc_loader (fs_cache fs1)" "e_hash e3" path False] out f(8)
    by (auto simp: cache_getattr_def get_latest_inode_def)
  then have ga: "handle e3 (Getattr path) fs1 = Some (Inr (fs1, Attributes zero_stat (- ENOENT)))"
    using assms(2) by (simp add: zippyfs_getattr_def on_cache_def reply_with_def)
  have "run [(e1, Mknod path mode), (e2, Write path buf sz 0), (e3, Getattr path)] ?fs0
      = Some (Inr (fs1, [Status 0, Status (sint (ucast sz :: u32)), Attributes zero_stat (- ENOENT)]))"
    using run_then [OF f(1), of e3 "Getattr path"] ga by simp
  moreover have "\<exists>fs2 names. run [(e4, Readdir ''/''), (e5, Open path), (e6, Read path n2 off2)] fs1
      = Some (Inr (fs2, [Names names 0, Status 0, Bytes (take (unat n2) (drop (unat off2) (take (unat sz) buf))) (sint (ucast n2 :: u32))]))"
    by (rule list_open_read [OF f(2-5) _ assms(1,2,11), of e5 "[(''TREE-'' @ generate_rand_hex_name (e_rand e2), img)]"
          "''TREE-'' @ generate_rand_hex_name (e_rand e2)" _ "tree_name e2"])
      (use tree_listing [of e2 img] f(6-11) assms(5) in \<open>simp_all add: no_stale_def tree_files_def load_trees_def tree_name_def\<close>)
  ultimately show ?thesis by blast
qed

theorem flushed_file_vanishes_witness:
  "\<exists>fs1 fs2 names.
    run [(sample_env, Mknod ''/f'' 0x81A4), (sample_env, Write ''/f'' [1, 2, 3] 3 0), (sample_env, Getattr ''/f'')]
      (zippyfs_init 0xDEADBEEF undefined mount_dir []) = Some (Inr (fs1, [Status 0, Status 3, Attributes zero_stat (- ENOENT)]))
    \<and> run [(sample_env, Readdir ''/''), (sample_env, Open ''/f''), (sample_env, Read ''/f'' 2 1)] fs1
      = Some (Inr (fs2, [Names names 0, Status 0, Bytes [2, 3] 2]))"
proof -
  have h: "e_hash sample_env = (\<lambda>_. [1])" "\<forall>k j. 0 < get_time (e_clk sample_env k j)"
    by (simp_all add: sample_env_def get_time_def)
  have l: "length (crypto_hash (e_hash sample_env) ''/f'') < HASH_SIZE" by (simp add: h(1) sample_hash)
  have p: "nul_free ''/f''" "1 < length ''/f''" "length ''/f'' < 2 ^ 63" by (simp_all add: nul_free_def)
  have n: "MAX_SIZE \<le> 0xDEADBEEF + 1" "unat (3 :: u64) \<le> length [1, 2, 3 :: u8]" "unat (3 :: u64) < 2 ^ 43" "unat (1 :: u64) < 2 ^ 44"
    by (simp_all add: MAX_SIZE_def word_le_nat_alt)
  show ?thesis
    using flushed_file_vanishes [OF p l refl h(2) h(2) n, of "0x81A4" sample_env undefined sample_env sample_env 2]
    by simp
qed

text \<open>
  (C26) The same flush crashes the reader of an open file. After a write that flushed, a read of
  the file that was just written, which the kernel may send without asking for the attributes
  again, finds no inode: the cache is empty, the trees it knows do not have the path, and
  \<open>read\<close> follows the null pointer that the lookup in the map has made.
\<close>

theorem read_after_flush_crashes:
  assumes "nul_free path" "1 < length path" "length path < 2 ^ 63" "length (crypto_hash (e_hash e1) path) < HASH_SIZE"
    "\<forall>k j. 0 < get_time (e_clk e1 k j)" "\<forall>k j. 0 < get_time (e_clk e2 k j)"
    "MAX_SIZE \<le> size0 + 1" "unat sz \<le> length buf" "unat sz < 2 ^ 43"
  shows "run [(e1, Mknod path mode), (e2, Write path buf sz 0), (e3, Read path n2 off2)] (zippyfs_init size0 junk mount_dir [])
    = Some (Inl Null_Deref)"
proof -
  let ?fs0 = "zippyfs_init size0 junk mount_dir []"
  obtain fs1 where f: "run [(e1, Mknod path mode), (e2, Write path buf sz 0)] ?fs0 = Some (Inr (fs1, [Status 0, Status (sint (ucast sz :: u32))]))"
      "bc_inode_idx (fs_cache fs1) = []" "bc_inode_ptrs (fs_cache fs1) = []" "ld_mem (bc_loader (fs_cache fs1)) = []"
    using mid_flush [OF assms refl refl, of mode junk] by (elim exE conjE) (rule that)
  have "in_cache path (fs_cache fs1) = -1" using assms(2) f(2) by (auto simp: in_cache_def)
  then have "cache_read e3 path n2 off2 (fs_cache fs1) = Some (Inl Null_Deref)"
    using load_no_trees [OF f(4)] f(2,3) by (simp add: cache_read_def deref_path_def get_inode_by_path_def)
  then have "handle e3 (Read path n2 off2) fs1 = Some (Inl Null_Deref)"
    by (simp add: zippyfs_read_def on_cache_def reply_with_def)
  then show ?thesis using run_then [OF f(1), of e3 "Read path n2 off2"] by simp
qed

theorem read_after_flush_crashes_witness:
  "run [(sample_env, Mknod ''/f'' 0x81A4), (sample_env, Write ''/f'' [1, 2, 3] 3 0), (sample_env, Read ''/f'' 3 0)]
    (zippyfs_init 0xDEADBEEF undefined mount_dir []) = Some (Inl Null_Deref)"
proof -
  have h: "e_hash sample_env = (\<lambda>_. [1])" "\<forall>k j. 0 < get_time (e_clk sample_env k j)"
    by (simp_all add: sample_env_def get_time_def)
  have l: "length (crypto_hash (e_hash sample_env) ''/f'') < HASH_SIZE" by (simp add: h(1) sample_hash)
  have p: "nul_free ''/f''" "1 < length ''/f''" "length ''/f'' < 2 ^ 63" by (simp_all add: nul_free_def)
  have n: "MAX_SIZE \<le> 0xDEADBEEF + 1" "unat (3 :: u64) \<le> length [1, 2, 3 :: u8]" "unat (3 :: u64) < 2 ^ 43"
    by (simp_all add: MAX_SIZE_def word_le_nat_alt)
  show ?thesis using read_after_flush_crashes [OF p l h(2) h(2) n] .
qed

end
