(* ===== verification/Startup.thy ===== *)
theory Startup
  imports Fuse_Ops
begin

text \<open>
  \<^verbatim>\<open>src/Main.c\<close>: \<open>main\<close>, from the argument vector to the call of \<open>fuse_main\<close>.

  The machine is a set of directories and files, each the list of the names on its path from
  the root of the file system, and the tree files with their contents by full name, as in
  \<open>Fuse_Ops\<close>. Paths are absolute, as the comment of \<open>main\<close> asks, and neither \<open>.\<close>
  nor \<open>..\<close> nor a symbolic link is resolved. From outside come the process id, the home
  directory that \<open>wordexp\<close> puts in for the tilde, and the bytes of \<open>getrandom\<close>. What goes
  to the terminal is left out, and so is the name of a shadow directory in the cache, which
  is expanded and never used.

  The character arrays have their sizes: a \<open>sprintf\<close> that does not fit ends in
  \<open>Region_Overflow\<close>.
\<close>

section \<open>Directories\<close>

record host =
  h_dirs :: "string list list"
  h_files :: "string list list"
  h_trees :: "(string \<times> image) list"

fun path_names :: "string \<Rightarrow> string \<Rightarrow> string list" where
  "path_names name [] = (if name = [] then [] else [name])"
| "path_names name (c # cs) =
     (if c = CHR ''/'' then (if name = [] then [] else [name]) @ path_names [] cs
      else path_names (name @ [c]) cs)"

abbreviation names_of :: "string \<Rightarrow> string list" where
  "names_of \<equiv> path_names []"

definition is_directory :: "string list \<Rightarrow> host \<Rightarrow> bool" where
  "is_directory p h \<longleftrightarrow> p = [] \<or> p \<in> set (h_dirs h)"

text \<open>\<open>mkdir(2)\<close> and \<open>open(2)\<close> with \<open>O_CREAT\<close>: they need the parent; one fails on a name that exists.\<close>

definition make_dir :: "string \<Rightarrow> host \<Rightarrow> host \<times> int" where
  "make_dir path h =
     (let p = names_of path
      in if is_directory p h \<or> p \<in> set (h_files h) \<or> \<not> is_directory (butlast p) h then (h, -1)
         else (h\<lparr>h_dirs := p # h_dirs h\<rparr>, 0))"

definition create_file :: "string \<Rightarrow> host \<Rightarrow> host" where
  "create_file path h =
     (let p = names_of path
      in if is_directory p h \<or> p \<in> set (h_files h) \<or> \<not> is_directory (butlast p) h then h
         else h\<lparr>h_files := p # h_files h\<rparr>)"

section \<open>main\<close>

text \<open>\<open>sprintf\<close> into an array of \<open>n\<close> characters: the text and its terminator have to fit.\<close>

definition sprintf_to :: "nat \<Rightarrow> string \<Rightarrow> string result" where
  "sprintf_to n s = (if length s < n then Inr s else Inl Region_Overflow)"

definition PATH_MAX :: nat where
  "PATH_MAX = 4096"

text \<open>The name of the log file: the loop over the random bytes, then the copies of the name.\<close>

definition log_file :: "string \<Rightarrow> u8 list \<Rightarrow> host \<Rightarrow> host result" where
  "log_file home num h =
     (if 33 < length (hex_buffer num) then Inl Region_Overflow
      else (let hex_name = c_str (hex_buffer num)
            in case sprintf_to (length hex_name + 1) hex_name of
                 Inl e \<Rightarrow> Inl e
               | Inr log_name \<Rightarrow>
                   (case sprintf_to (length log_name + PATH_MAX) (home @ ''/.config/zippyfs/'' @ log_name) of
                      Inl e \<Rightarrow> Inl e
                    | Inr log_path \<Rightarrow> Inr (create_file log_path h))))"

text \<open>The constructor of the cache reads the directory of the tree files through what \<open>opendir\<close> returned.\<close>

definition init_cache :: "u64 \<Rightarrow> disk_inode_info \<Rightarrow> string \<Rightarrow> host \<Rightarrow> zippyfs result" where
  "init_cache size0 junk zip_dir h =
     (if \<not> is_directory (names_of (zip_dir @ ''root/'')) h then Inl Null_Deref
      else Inr (zippyfs_init size0 junk zip_dir (h_trees h)))"

text \<open>The directories and the log file; \<open>made_dir\<close> is what the second \<open>mkdir\<close> found.\<close>

definition make_dirs :: "string \<Rightarrow> string \<Rightarrow> u8 list \<Rightarrow> host \<Rightarrow> host result" where
  "make_dirs zip_dir home num h =
     (case (sprintf_to (length zip_dir + 10) (zip_dir @ ''/rmlog''),
            sprintf_to (length zip_dir + PATH_MAX) (home @ ''/.config/zippyfs/''),
            sprintf_to (length zip_dir + 10) (zip_dir @ ''root'')) of
        (Inr rmlog_path, Inr machine_rmlog_path, Inr root_dir_path) \<Rightarrow>
          (let (h1, r1) = make_dir rmlog_path h;
               (h2, r2) = make_dir machine_rmlog_path h1;
               made_dir = (r2 = 0);
               (h3, r3) = make_dir root_dir_path h2
           in if made_dir then log_file home num h3 else Inr h3)
      | _ \<Rightarrow> Inl Region_Overflow)"

text \<open>
  Up to \<open>fuse_main\<close>: the machine, the arguments that FUSE gets, and the state of the file
  system. The array for the shadow name has 10 characters.
\<close>

definition main_start :: "u64 \<Rightarrow> disk_inode_info \<Rightarrow> nat \<Rightarrow> string \<Rightarrow> u8 list \<Rightarrow> string list \<Rightarrow> host
    \<Rightarrow> (host \<times> string list \<times> zippyfs) result" where
  "main_start size0 junk pid home num argv h =
     (if argv = [] then Inl Array_Overread
      else
        (let zip_dir = last argv;
             newarg = butlast argv
         in case sprintf_to 10 (''PID'' @ to_string pid) of
              Inl e \<Rightarrow> Inl e
            | Inr shadow_name \<Rightarrow>
                (case init_cache size0 junk zip_dir h of
                   Inl e \<Rightarrow> Inl e
                 | Inr fs \<Rightarrow>
                     (case make_dirs zip_dir home num h of
                        Inl e \<Rightarrow> Inl e
                      | Inr h1 \<Rightarrow> Inr (h1, newarg, fs)))))"

text \<open>\<open>fuse_main\<close> hands the requests to the callbacks until the unmount.\<close>

definition main_program :: "u64 \<Rightarrow> disk_inode_info \<Rightarrow> nat \<Rightarrow> string \<Rightarrow> u8 list \<Rightarrow> string list \<Rightarrow> (env \<times> request) list \<Rightarrow> host
    \<Rightarrow> (host \<times> reply list) outcome" where
  "main_program size0 junk pid home num argv rs h =
     and_then (Some (main_start size0 junk pid home num argv h)) (\<lambda>(h1, newarg, fs).
       and_then (run rs fs) (\<lambda>(fs1, xs). Some (Inr (h1\<lparr>h_trees := fs_disk fs1\<rparr>, xs))))"

section \<open>Paths and directories\<close>

lemma path_names_append: "path_names n (a @ CHR ''/'' # b) = path_names n a @ names_of b"
  by (induction n a rule: path_names.induct) auto

lemma names_of_slash: "names_of (a @ ''/'' @ b) = names_of a @ names_of b"
  using path_names_append [of "[]" a b] by simp

lemma names_machine: "names_of (home @ ''/.config/zippyfs/'') = names_of home @ [''.config'', ''zippyfs'']"
  using names_of_slash [of home "''.config/zippyfs/''"] by simp

lemma names_rmlog: "names_of (zip_dir @ ''/rmlog'') = names_of zip_dir @ [''rmlog'']"
  using names_of_slash [of zip_dir "''rmlog''"] by simp

lemma names_root: "names_of (zip_dir @ ''root/'') = names_of (zip_dir @ ''root'')"
  using path_names_append [of "[]" "zip_dir @ ''root''" "[]"] by simp

text \<open>A name that exists makes \<open>mkdir\<close> fail; after \<open>mkdir\<close> in a directory the name exists.\<close>

definition taken :: "string list \<Rightarrow> host \<Rightarrow> bool" where
  "taken p h \<longleftrightarrow> is_directory p h \<or> p \<in> set (h_files h)"

definition larger :: "host \<Rightarrow> host \<Rightarrow> bool" where
  "larger h h1 \<longleftrightarrow> set (h_dirs h) \<subseteq> set (h_dirs h1) \<and> set (h_files h) \<subseteq> set (h_files h1) \<and> h_trees h1 = h_trees h"

lemma larger_refl: "larger h h"
  by (simp add: larger_def)

lemma larger_trans: "larger h h1 \<Longrightarrow> larger h1 h2 \<Longrightarrow> larger h h2"
  by (auto simp: larger_def)

lemma larger_directory: "larger h h1 \<Longrightarrow> is_directory p h \<Longrightarrow> is_directory p h1"
  by (auto simp: larger_def is_directory_def)

lemma larger_taken: "larger h h1 \<Longrightarrow> taken p h \<Longrightarrow> taken p h1"
  by (auto simp: larger_def is_directory_def taken_def)

lemma make_dir_taken: "taken (names_of path) h \<Longrightarrow> make_dir path h = (h, -1)"
  by (auto simp: make_dir_def taken_def Let_def)

lemma make_dir_larger: "larger h (fst (make_dir path h))"
  by (auto simp: make_dir_def larger_def Let_def)

lemma make_dir_makes:
  "is_directory (butlast (names_of path)) h \<Longrightarrow> taken (names_of path) (fst (make_dir path h))"
  by (auto simp: make_dir_def taken_def is_directory_def Let_def)

lemma make_dir_result:
  "is_directory (butlast (names_of path)) h \<Longrightarrow> snd (make_dir path h) = 0 \<longleftrightarrow> \<not> taken (names_of path) h"
  by (auto simp: make_dir_def taken_def is_directory_def Let_def)

lemma create_file_larger: "larger h (create_file path h)"
  by (auto simp: create_file_def larger_def Let_def)

section \<open>What a start needs\<close>

lemma length_to_string: "0 < k \<Longrightarrow> length (to_string n) \<le> k \<longleftrightarrow> n < 10 ^ k"
proof (induction n arbitrary: k rule: to_string.induct)
  case (1 n)
  show ?case
  proof (cases "n < 10")
    case True
    have "(10::nat) ^ 1 \<le> 10 ^ k" using 1(2) by (intro power_increasing) auto
    then show ?thesis using True 1(2) by (subst to_string.simps) auto
  next
    case False
    show ?thesis
    proof (cases "k = 1")
      case True
      have "to_string (n div 10) \<noteq> []" by (subst to_string.simps) simp
      then show ?thesis using True False by (subst to_string.simps) (simp add: Suc_le_eq)
    next
      case k: False
      then obtain j where j: "k = Suc j" "0 < j" using 1(2) by (cases k) auto
      then show ?thesis using 1(1) [OF False j(2)] False by (subst to_string.simps) (simp add: div_less_iff_less_mult mult.commute)
    qed
  qed
qed

definition machine_dir :: "string \<Rightarrow> string list" where
  "machine_dir home = names_of home @ [''.config'', ''zippyfs'']"

definition low_end :: "u8 list \<Rightarrow> bool" where
  "low_end num \<longleftrightarrow> (\<forall>i \<in> {13, 14, 15}. unat (num ! i) < 128)"

lemma hex_name_fits:
  assumes "length num = 16"
  shows "length (hex_buffer num) \<le> 33 \<longleftrightarrow> low_end num"
proof -
  let ?b = "hex_buffer num"
  have "(length ?b = 33 \<longleftrightarrow> (\<forall>i<16. 128 \<le> unat (num ! i) \<longrightarrow> i + 4 \<le> 16)) \<and> 33 \<le> length ?b"
    using hex_buffer_bound [of 16 num "replicate 33 (CHR 0x00)"] assms by (simp add: hex_buffer_def mult.commute)
  moreover have "(\<forall>i<16. 128 \<le> unat (num ! i) \<longrightarrow> i + 4 \<le> 16) \<longleftrightarrow> low_end num"
  proof -
    have "i < 16 \<and> \<not> i + 4 \<le> 16 \<longleftrightarrow> i \<in> {13, 14, 15}" for i :: nat by auto
    then show ?thesis unfolding low_end_def by (metis linorder_not_less)
  qed
  ultimately show ?thesis by auto
qed

lemma log_file_fits:
  assumes "length num = 16" "length home < PATH_MAX - 17"
  shows "log_file home num h = (if low_end num then Inr (create_file (home @ ''/.config/zippyfs/'' @ c_str (hex_buffer num)) h)
    else Inl Region_Overflow)"
  using hex_name_fits [OF assms(1)] assms(2) by (auto simp: log_file_def sprintf_to_def Let_def PATH_MAX_def)

lemma make_dirs_result:
  assumes "length num = 16" "length home < PATH_MAX - 17"
    and "is_directory (names_of home @ [''.config'']) h"
  shows "make_dirs zip_dir home num h =
    (let h1 = fst (make_dir (zip_dir @ ''/rmlog'') h);
         h3 = fst (make_dir (zip_dir @ ''root'') (fst (make_dir (home @ ''/.config/zippyfs/'') h1)))
     in if taken (machine_dir home) h1 then Inr h3 else log_file home num h3)"
proof -
  let ?h1 = "fst (make_dir (zip_dir @ ''/rmlog'') h)"
  have "is_directory (butlast (names_of (home @ ''/.config/zippyfs/''))) ?h1"
    using larger_directory [OF make_dir_larger assms(3)] by (simp add: names_machine butlast_append)
  from make_dir_result [OF this] have "snd (make_dir (home @ ''/.config/zippyfs/'') ?h1) = 0 \<longleftrightarrow> \<not> taken (machine_dir home) ?h1"
    by (simp add: names_machine machine_dir_def)
  then show ?thesis
    using assms(2) by (simp add: make_dirs_def sprintf_to_def PATH_MAX_def case_prod_beta Let_def)
qed

lemma machine_dir_unaffected:
  "taken (machine_dir home) (fst (make_dir (zip_dir @ ''/rmlog'') h)) \<longleftrightarrow> taken (machine_dir home) h"
proof -
  have "machine_dir home \<noteq> names_of (zip_dir @ ''/rmlog'')" by (simp add: machine_dir_def names_rmlog)
  then show ?thesis by (auto simp: taken_def make_dir_def is_directory_def Let_def)
qed

lemma log_file_larger: "log_file home num h = Inr h1 \<Longrightarrow> larger h h1"
  by (auto simp: log_file_def Let_def create_file_larger split: if_splits sum.splits)

text \<open>The names that a start leaves behind, and that a later start finds.\<close>

lemma make_dirs_leaves:
  assumes "make_dirs zip_dir home num h = Inr h1" "length num = 16" "length home < PATH_MAX - 17"
    and "is_directory (names_of home @ [''.config'']) h" "is_directory (names_of zip_dir) h"
    and "is_directory (names_of (zip_dir @ ''root'')) h"
  shows "larger h h1 \<and> taken (names_of zip_dir @ [''rmlog'']) h1 \<and> taken (machine_dir home) h1"
proof -
  let ?a = "fst (make_dir (zip_dir @ ''/rmlog'') h)"
  let ?b = "fst (make_dir (home @ ''/.config/zippyfs/'') ?a)"
  let ?c = "fst (make_dir (zip_dir @ ''root'') ?b)"
  have up: "larger h ?a" "larger ?a ?b" "larger ?b ?c"
    by (rule make_dir_larger)+
  have "larger ?c h1"
    using assms(1) make_dirs_result [OF assms(2,3,4), of zip_dir]
    by (auto simp: Let_def larger_refl log_file_larger split: if_splits)
  with up have c: "larger ?b h1" "larger ?a h1" "larger h h1"
    by (meson larger_trans)+
  have "taken (names_of (zip_dir @ ''/rmlog'')) ?a"
    by (rule make_dir_makes) (simp add: names_rmlog assms(5) butlast_append)
  moreover have "taken (names_of (home @ ''/.config/zippyfs/'')) ?b"
    by (rule make_dir_makes) (use larger_directory [OF up(1) assms(4)] in \<open>simp add: names_machine butlast_append\<close>)
  ultimately show ?thesis
    using c larger_taken by (auto simp: names_rmlog names_machine machine_dir_def)
qed

lemma make_dirs_again:
  assumes "length home < PATH_MAX - 17" "taken (names_of zip_dir @ [''rmlog'']) h" "taken (machine_dir home) h"
    and "is_directory (names_of (zip_dir @ ''root'')) h"
  shows "make_dirs zip_dir home num h = Inr h"
proof -
  have "make_dir (zip_dir @ ''/rmlog'') h = (h, -1)"
    by (rule make_dir_taken) (simp add: names_rmlog assms)
  moreover have "make_dir (home @ ''/.config/zippyfs/'') h = (h, -1)"
    by (rule make_dir_taken) (use assms in \<open>simp add: names_machine machine_dir_def\<close>)
  moreover have "make_dir (zip_dir @ ''root'') h = (h, -1)"
    by (rule make_dir_taken) (simp add: taken_def assms)
  ultimately show ?thesis
    using assms(1) by (simp add: make_dirs_def sprintf_to_def PATH_MAX_def)
qed

text \<open>What the start expects of the machine, apart from the directory of the tree files.\<close>

definition ready :: "string \<Rightarrow> string list \<Rightarrow> u8 list \<Rightarrow> host \<Rightarrow> bool" where
  "ready home argv num h \<longleftrightarrow> argv \<noteq> [] \<and> length num = 16 \<and> length home < PATH_MAX - 17
     \<and> is_directory (names_of home @ [''.config'']) h \<and> is_directory (names_of (last argv)) h"

lemma shadow_name_fits:
  "sprintf_to 10 (''PID'' @ to_string pid) = (if pid < 1000000 then Inr (''PID'' @ to_string pid) else Inl Region_Overflow)"
proof -
  have "length (''PID'' @ to_string pid) < 10 \<longleftrightarrow> length (to_string pid) \<le> 6" by simp linarith
  also have "\<dots> \<longleftrightarrow> pid < 1000000" using length_to_string [of 6 pid] by simp
  finally show ?thesis unfolding sprintf_to_def by simp
qed

lemma main_start_eq:
  "argv \<noteq> [] \<Longrightarrow> main_start size0 junk pid home num argv h =
    (if 1000000 \<le> pid then Inl Region_Overflow
     else if \<not> is_directory (names_of (last argv @ ''root'')) h then Inl Null_Deref
     else map_sum id (\<lambda>h1. (h1, butlast argv, zippyfs_init size0 junk (last argv) (h_trees h))) (make_dirs (last argv) home num h))"
  unfolding main_start_def Let_def shadow_name_fits init_cache_def names_root
  by (auto split: sum.split)

section \<open>Properties of a start\<close>

text \<open>
  (C35) When a start fails. On a machine with the directory of the configuration and with the
  directory to mount, \<open>main\<close> reaches \<open>fuse_main\<close> unless the process id has seven digits (the
  array for the shadow name is one short), the directory of the tree files does not exist yet
  (\<open>zippyfs_init\<close> runs before the \<open>mkdir\<close> that makes it, so a first start never comes that
  far), or this is the first start on the machine and one of the last three random bytes is 128
  or above (its eight hexadecimal digits run over the array).
\<close>

theorem start_fails_iff:
  assumes "ready home argv num h"
  shows "(\<exists>e. main_start size0 junk pid home num argv h = Inl e) \<longleftrightarrow>
    1000000 \<le> pid \<or> \<not> is_directory (names_of (last argv @ ''root'')) h
    \<or> \<not> taken (machine_dir home) h \<and> \<not> low_end num"
proof -
  note r = assms [unfolded ready_def]
  have "(\<exists>e. make_dirs (last argv) home num h = Inl e) \<longleftrightarrow> \<not> taken (machine_dir home) h \<and> \<not> low_end num"
    using r by (simp add: make_dirs_result log_file_fits machine_dir_unaffected Let_def)
  then show ?thesis
    using r by (cases "make_dirs (last argv) home num h") (auto simp: main_start_eq)
qed

text \<open>
  (C34) A start that succeeds hands FUSE every argument but the last, opens the cache on the
  tree files that were there, removes nothing, and leaves the directories behind; after it, a
  start with any other process id and random bytes changes nothing on the machine.
\<close>

theorem start_prepares:
  assumes "ready home argv num h" "main_start size0 junk pid home num argv h = Inr (h1, args, fs)"
    and "pid2 < 1000000"
  shows "args = butlast argv \<and> fs = zippyfs_init size0 junk (last argv) (h_trees h) \<and> larger h h1
    \<and> taken (names_of (last argv) @ [''rmlog'']) h1 \<and> taken (machine_dir home) h1
    \<and> main_start size0 junk pid2 home num2 argv h1 = Inr (h1, args, fs)"
proof -
  note r = assms(1) [unfolded ready_def]
  have m: "make_dirs (last argv) home num h = Inr h1" and f: "args = butlast argv"
      "fs = zippyfs_init size0 junk (last argv) (h_trees h)"
    and d: "is_directory (names_of (last argv @ ''root'')) h"
    using assms(2) r by (cases "make_dirs (last argv) home num h"; auto simp: main_start_eq split: if_splits)+
  from m r d have l: "larger h h1" "taken (names_of (last argv) @ [''rmlog'']) h1" "taken (machine_dir home) h1"
    using make_dirs_leaves by blast+
  moreover have d1: "is_directory (names_of (last argv @ ''root'')) h1"
    using larger_directory [OF l(1) d] .
  moreover from r have "make_dirs (last argv) home num2 h1 = Inr h1"
    by (intro make_dirs_again l(2,3) d1) blast
  moreover have "h_trees h1 = h_trees h" using l(1) by (simp add: larger_def)
  ultimately show ?thesis
    using r f assms(3) by (simp add: main_start_eq)
qed

definition sample_host :: host where
  "sample_host = \<lparr>h_dirs = [[''m'', ''root''], [''m''], [''u'', ''.config''], [''u'']], h_files = [], h_trees = []\<rparr>"

definition sample_random :: "u8 \<Rightarrow> u8 list" where
  "sample_random b = replicate 15 1 @ [b]"

lemma sample_ready: "ready ''/u'' [''zippyfs'', ''/mnt'', ''/m/''] (sample_random b) sample_host"
  by (simp add: ready_def sample_random_def sample_host_def is_directory_def PATH_MAX_def)

theorem start_fails_iff_witness:
  "\<exists>e. main_start 0 undefined 999999 ''/u'' (sample_random 200) [''zippyfs'', ''/mnt'', ''/m/''] sample_host = Inl e"
  unfolding start_fails_iff [OF sample_ready]
  by (simp add: sample_host_def taken_def machine_dir_def is_directory_def low_end_def sample_random_def nth_append)

theorem start_prepares_witness:
  "\<exists>h1 fs. main_start 0 undefined 42 ''/u'' (sample_random 7) [''zippyfs'', ''/mnt'', ''/m/''] sample_host
       = Inr (h1, [''zippyfs'', ''/mnt''], fs)
     \<and> main_start 0 undefined 43 ''/u'' (sample_random 200) [''zippyfs'', ''/mnt'', ''/m/''] h1 = Inr (h1, [''zippyfs'', ''/mnt''], fs)"
proof -
  have "\<exists>h1 args fs. main_start 0 undefined 42 ''/u'' (sample_random 7) [''zippyfs'', ''/mnt'', ''/m/''] sample_host = Inr (h1, args, fs)"
    by (auto simp: main_start_eq make_dirs_result log_file_fits low_end_def sample_random_def sample_host_def nth_append
      is_directory_def PATH_MAX_def Let_def)
  then obtain h1 args fs where r: "main_start 0 undefined 42 ''/u'' (sample_random 7) [''zippyfs'', ''/mnt'', ''/m/''] sample_host = Inr (h1, args, fs)"
    by blast
  from start_prepares [OF sample_ready r, of 43 "sample_random 200"] r show ?thesis by auto
qed

end
