(* ===== verification/Replies.thy ===== *)
theory Replies
  imports Session
begin

text \<open>
  What a reply to each request can be: its constructor, its status, and that the bytes stored
  to the buffer of the kernel fit it. The relation reads like a typing judgement, and the
  requests of a session are answered in type.
\<close>

section \<open>The replies a request can get\<close>

inductive answers :: "request \<Rightarrow> reply \<Rightarrow> bool" where
  ans_getattr: "r \<in> {0, - ENOENT} \<Longrightarrow> answers (Getattr path) (Attributes st r)"
| ans_readdir: "\<exists>ns. names = ns @ [''.'', ''..''] \<Longrightarrow> answers (Readdir path) (Names names 0)"
| ans_read: "length buf \<le> unat sz \<Longrightarrow> r = sint (ucast sz :: u32) \<Longrightarrow> answers (Read path sz offset) (Bytes buf r)"
| ans_readlink: "length buf \<le> unat sz \<Longrightarrow> r \<in> {- ENOENT, sint (ucast sz :: u32)} \<Longrightarrow> answers (Readlink path sz) (Bytes buf r)"
| ans_write: "r = sint (ucast sz :: u32) \<Longrightarrow> answers (Write path buf sz offset) (Status r)"
| ans_unlink: "r \<in> {0, -1} \<Longrightarrow> answers (Unlink path) (Status r)"
| ans_rmdir: "r \<in> {0, -1} \<Longrightarrow> answers (Rmdir path) (Status r)"
| ans_rename: "r \<in> {0, -1} \<Longrightarrow> answers (Rename from' to) (Status r)"
| ans_mknod: "answers (Mknod path mode) (Status 0)"
| ans_mkdir: "answers (Mkdir path mode) (Status 0)"
| ans_open: "answers (Open path) (Status 0)"
| ans_truncate: "answers (Truncate path sz) (Status 0)"
| ans_symlink: "answers (Symlink from' to) (Status 0)"
| ans_access: "answers (Access path amode) (Status 0)"
| ans_chmod: "answers (Chmod path mode) (Status 0)"
| ans_utimens: "answers (Utimens path atime mtime) (Status 0)"
| ans_destroy: "answers Destroy Nothing"

inductive_cases answers_readE: "answers (Read path sz offset) x"
inductive_cases answers_getattrE: "answers (Getattr path) x"

section \<open>The results of the cache\<close>

lemma length_read_bytes_loop:
  "length buf \<le> sz \<Longrightarrow> length (read_bytes_loop bs ii blksz sz buf) \<le> sz"
  by (induction bs ii blksz sz buf rule: read_bytes_loop.induct) auto

lemma length_read_loop: "read_loop h i sz offset k fl buf = Inr buf' \<Longrightarrow> length buf \<le> sz \<Longrightarrow> length buf' \<le> sz"
proof (induction h i sz offset k fl buf rule: read_loop.induct)
  case (1 h i sz offset k fl buf)
  show ?case
  proof (cases "k < length (ino_blocks i) \<and> length buf < sz")
    case False
    then show ?thesis using "1.prems" by (simp add: read_loop_stop)
  next
    case True
    then obtain p d where pd: "map_of (ino_blocks i) (of_nat k) = Some p" "get_data (h ! p) = Inr d"
      using "1.prems"(1) by (subst (asm) read_loop.simps) (auto split: option.splits sum.splits)
    define j where "j = (if fl then 0 else if offset < SIZE then offset else offset mod SIZE)"
    define buf1 where "buf1 = read_bytes_loop (drop j d) j (unat (get_actual_size (h ! p))) sz buf"
    have "read_loop h i sz offset k fl buf = read_loop h i sz offset (k + 1) True buf1"
      unfolding read_loop.simps [of h i sz offset k fl buf] using True pd by (simp add: Let_def buf1_def j_def)
    moreover have "length buf1 \<le> sz"
      unfolding buf1_def by (rule length_read_bytes_loop) (rule "1.prems"(2))
    moreover have "read_loop h i sz offset (k + 1) True buf1 = Inr buf' \<Longrightarrow> length buf1 \<le> sz \<Longrightarrow> length buf' \<le> sz"
      unfolding buf1_def by (rule "1.IH" [OF True pd j_def refl])
    ultimately show ?thesis using "1.prems"(1) by simp
  qed
qed

lemma inode_read_fits: "inode_read h i sz offset = Inr (buf, n) \<Longrightarrow> length buf \<le> unat sz \<and> n = ucast sz"
  using length_read_loop [of h i "unat sz" "unat offset" _ False "[]"] by (auto simp: inode_read_def split: sum.splits)

lemma cache_read_fits: "cache_read e path sz offset bc = Some (Inr (bc', buf, r)) \<Longrightarrow> length buf \<le> unat sz"
  using inode_read_fits by (fastforce simp: cache_read_def dest!: and_then_InrD split: sum.splits)

lemma cache_readlink_fits:
  "cache_readlink path sz bc = Inr (bc', buf, r) \<Longrightarrow> length buf \<le> unat sz \<and> r \<in> {- ENOENT, sint (ucast sz :: u32)}"
  using inode_read_fits by (fastforce simp: cache_readlink_def split: sum.splits if_splits)

lemma cache_getattr_status: "cache_getattr e path st bc = Some (Inr (bc', st', r)) \<Longrightarrow> r \<in> {0, - ENOENT}"
  by (auto simp: cache_getattr_def dest!: and_then_InrD split: sum.splits if_splits)

lemma cache_remove_status: "cache_remove e path bc = Inr (bc', r) \<Longrightarrow> r \<in> {0, -1}"
  by (auto simp: cache_remove_def split: sum.splits if_splits)

lemma cache_rmdir_status: "cache_rmdir e path bc = Inr (bc', r) \<Longrightarrow> r \<in> {0, -1}"
  by (auto simp: cache_rmdir_def split: sum.splits if_splits)

lemma rename_new_status: "rename_new e from' to bc = Some (Inr (bc', r)) \<Longrightarrow> r = 0"
  by (auto simp: rename_new_def Let_def split: sum.splits)

lemma cache_rename_status: "cache_rename e from' to bc = Some (Inr (bc', r)) \<Longrightarrow> r \<in> {0, -1}"
  unfolding cache_rename_def by (auto dest!: and_then_InrD rename_new_status split: sum.splits if_splits)

lemma cache_open_status: "cache_open e path bc = Some (Inr (bc', r)) \<Longrightarrow> r = 0"
  by (auto simp: cache_open_def dest!: and_then_InrD split: if_splits)

lemmas cache_results = cache_read_fits cache_readlink_fits cache_getattr_status cache_remove_status cache_rmdir_status
  cache_rename_status cache_open_status

lemmas callback_defs = zippyfs_getattr_def zippyfs_readdir_def zippyfs_read_def zippyfs_access_def zippyfs_mknod_def
  zippyfs_unlink_def zippyfs_mkdir_def zippyfs_rename_def zippyfs_write_def zippyfs_truncate_def zippyfs_open_def
  zippyfs_rmdir_def zippyfs_chmod_def zippyfs_utimens_def zippyfs_readlink_def zippyfs_symlink_def

section \<open>Every request is answered in type\<close>

lemma handle_answers:
  assumes "handle e r fs = Some (Inr (fs', x))"
  shows "answers r x"
proof (cases r)
  case (Getattr path)
  then show ?thesis
    using assms by (auto simp: callback_defs dest!: reply_with_InrD on_cache_InrD cache_getattr_status intro!: ans_getattr split: if_splits)
next
  case (Readdir path)
  then show ?thesis
    using assms by (auto simp: callback_defs Let_def dest!: reply_with_InrD and_then_InrD intro!: ans_readdir)
next
  case (Read path sz offset)
  then show ?thesis
    using assms by (auto simp: callback_defs dest!: reply_with_InrD and_then_InrD on_cache_InrD cache_read_fits intro!: ans_read)
next
  case (Readlink path sz)
  then show ?thesis
    using assms by (auto simp: callback_defs dest!: reply_with_InrD on_cache_InrD dest: cache_readlink_fits intro!: ans_readlink)
next
  case (Unlink path)
  then show ?thesis using assms by (auto simp: callback_defs dest!: reply_with_InrD on_cache_InrD dest: cache_remove_status intro!: ans_unlink)
next
  case (Rmdir path)
  then show ?thesis using assms by (auto simp: callback_defs dest!: reply_with_InrD on_cache_InrD dest: cache_rmdir_status intro!: ans_rmdir)
next
  case (Rename from' to)
  then show ?thesis using assms by (auto simp: callback_defs dest!: reply_with_InrD on_cache_InrD dest: cache_rename_status intro!: ans_rename)
next
  case (Open path)
  then show ?thesis using assms by (auto simp: callback_defs dest!: reply_with_InrD on_cache_InrD cache_open_status intro!: ans_open)
qed (use assms in \<open>auto simp: callback_defs make_file_def cache_symlink_def Let_def
    dest!: reply_with_InrD on_cache_InrD and_then_InrD intro: answers.intros\<close>)

text \<open>Turned around: what the kernel can rely on when it reads and when it asks for attributes.\<close>

lemma read_fits_buffer:
  "handle e (Read path sz offset) fs = Some (Inr (fs', x)) \<Longrightarrow> \<exists>buf. x = Bytes buf (sint (ucast sz :: u32)) \<and> length buf \<le> unat sz"
  by (drule handle_answers) (auto elim: answers_readE)

lemma getattr_replies:
  "handle e (Getattr path) fs = Some (Inr (fs', x)) \<Longrightarrow> \<exists>st. x = Attributes st 0 \<or> x = Attributes st (- ENOENT)"
  by (drule handle_answers) (auto elim: answers_getattrE)

text \<open>
  (C9) The replies of a session have the types that their requests ask for: attributes with 0
  or \<open>-ENOENT\<close>, a listing that ends in the two dots, no more bytes than the buffer of a read
  holds with the size that was asked for as status, 0 or -1 for the removing and renaming
  requests, 0 for the others and the size for a write; one reply for each request, in order.
\<close>

theorem session_answers:
  assumes "run rs fs = Some (Inr (fs', xs))"
  shows "list_all2 answers (map snd rs) xs"
  using assms
proof (induction rs arbitrary: fs xs)
  case (Cons er rs)
  obtain e r where er: "er = (e, r)" by (cases er)
  obtain fs1 x ys where 1: "handle e r fs = Some (Inr (fs1, x))" "run rs fs1 = Some (Inr (fs', ys))" "xs = x # ys"
    using Cons.prems er by (auto dest!: and_then_InrD)
  then show ?case using Cons.IH [OF 1(2)] handle_answers [OF 1(1)] er by simp
qed simp

theorem session_answers_witness:
  "\<exists>fs' xs. run [(sample_env, Mknod ''/f'' 0x81A4), (sample_env, Open ''/f''), (sample_env, Rmdir ''/g'')]
        (zippyfs_init 0 undefined ''d/'' []) = Some (Inr (fs', xs))
     \<and> list_all2 answers [Mknod ''/f'' 0x81A4, Open ''/f'', Rmdir ''/g''] xs"
proof -
  let ?rs = "[(sample_env, Mknod ''/f'' 0x81A4), (sample_env, Open ''/f''), (sample_env, Rmdir ''/g'')]"
  have "\<exists>fs' xs. run ?rs (zippyfs_init 0 undefined ''d/'' []) = Some (Inr (fs', xs))"
    by (simp add: callback_defs make_file_def cache_open_def cache_rmdir_def in_cache_def on_cache_def reply_with_def Let_def
      zippyfs_init_def BlockCache_def)
  then show ?thesis using session_answers [of ?rs] by auto
qed

end
