(* ===== verification/Index_Scan.thy ===== *)
theory Index_Scan
  imports Bplus_Loader
begin

text \<open>
  The search in a tree file against a reference: the scan of the inode list, which is what
  \<open>get_children\<close> walks. The two ways into a file, the tree and the list, agree on the files
  that the index writes.
\<close>

definition scan_inodes :: "image \<Rightarrow> string \<Rightarrow> int option" where
  "scan_inodes img phash =
     (let head = im_headers img 0
      in List.find (\<lambda>ii. strcmp (key_at img (d_hash (im_inodes img ii))) phash = 0)
           (map (\<lambda>k. hd_inode_list head + int k * sizeof_inode) [0..<nat (hd_num_inodes head)]))"

lemma find_append: "List.find P (xs @ ys) = (case List.find P xs of None \<Rightarrow> List.find P ys | Some x \<Rightarrow> Some x)"
  by (induction xs) auto

lemma written_scan:
  assumes "written L img xs" "distinct (map job_id xs)"
  shows "map_of (index_of L xs) key =
    List.find (\<lambda>ii. key_at img (d_hash (im_inodes img ii)) = key) (map (\<lambda>k. l_inode L + int k * sizeof_inode) [0..<length xs])"
  using assms
proof (induction xs)
  case (Cons x xs)
  have "key_at img (d_hash (im_inodes img (l_inode L + int (length xs) * sizeof_inode))) = job_id x"
    using Cons.prems(1) by (auto simp: stored_at_def Let_def)
  moreover have "map_of (index_of L xs) (job_id x) = None"
    using Cons.prems(2) by (simp add: map_of_eq_None_iff index_of_keys)
  ultimately show ?case
    using Cons by (auto simp: omap.find_put find_append split: option.splits)
qed simp

text \<open>
  (C10) The search of the loader down the tree of a file that the index built is equivalent to a
  scan of the inode list of the file: for every key, both find the same inode or none.
\<close>

theorem tree_lookup_is_scan:
  assumes "built img xs" "jobs_ok xs" "nul_free key"
  shows "tree_lookup img key = Some (Inr (scan_inodes img key))"
proof -
  obtain L where h: "holds L img (rev xs)" using built_holds [OF assms(1,2)] by blast
  then have "tree_lookup img key = Some (Inr (map_of (index_of L (rev xs)) key))"
    using tree_lookup_map_of [OF _ _ _ _ assms(3)] by (auto simp: holds_def)
  moreover have "written L img (rev xs)" "distinct (map job_id (rev xs))"
    using h assms(2) by (simp_all add: holds_def jobs_ok_def rev_map [symmetric])
  moreover have "strcmp (key_at img ii) key = 0 \<longleftrightarrow> key_at img ii = key" for ii
    by (rule strcmp_eq [OF nul_free_key_at assms(3)])
  moreover have "hd_num_inodes (im_headers img 0) = int (length xs)" "hd_inode_list (im_headers img 0) = l_inode L"
    using h by (simp_all add: holds_def)
  ultimately show ?thesis by (simp add: scan_inodes_def Let_def written_scan)
qed

theorem tree_lookup_is_scan_witness:
  "\<exists>img. built img [version_job 5 7] \<and> tree_lookup img ''01'' = Some (Inr (scan_inodes img ''01''))"
proof -
  obtain img where img: "built img [version_job 5 7]" using built_exists version_job_ok by blast
  have "nul_free ''01''" by (simp add: nul_free_def)
  from tree_lookup_is_scan [OF img version_job_ok this] img show ?thesis by blast
qed

end
