(* ===== verification/Bplus_Print.thy ===== *)
theory Bplus_Print
  imports Bplus_Store
begin

text \<open>
  \<open>BPLUSIndex::print\<close> of \<^verbatim>\<open>src/bplus_index.cpp\<close>: the lines it prints for a node and everything
  below it. The recursion follows offsets that are stored in the file, so it need not end on an
  arbitrary image; on the trees that the index builds it does, and prints them.

  One function has both the call for a node and the loop over its children, as \<open>None\<close> and as
  the position of the loop. A key is printed up to its terminator, which lies within the cell of
  the key.
\<close>

definition print_keys :: "image \<Rightarrow> node \<Rightarrow> string list" where
  "print_keys img nn =
     [replicate (n_num_keys nn) (CHR ''-'')]
     @ map (\<lambda>ii. ''idx: '' @ to_string ii @ '' '' @ key_at img (n_keys nn ! ii)) [0..<n_num_keys nn]
     @ [replicate (n_num_keys nn) (CHR ''-'')]"

definition print_kids :: "node \<Rightarrow> string list" where
  "print_kids nn = ''Children: '' #
     map (\<lambda>ii. ''idx: '' @ to_string ii @ '' '' @ int_to_string (n_children nn ! ii)) [0..<n_num_keys nn + 1]"

partial_function (option) print_node :: "image \<Rightarrow> int \<Rightarrow> nat option \<Rightarrow> string list option" where
  "print_node img n pos =
     (let nn = im_nodes img n
      in case pos of
           None \<Rightarrow>
             if n_is_leaf nn then Some (print_keys img nn @ [''isleaf''])
             else Option.bind (print_node img n (Some 0)) (\<lambda>out. Some (print_keys img nn @ print_kids nn @ out))
         | Some ii \<Rightarrow>
             if ii < n_num_keys nn + 1
             then if n_children nn ! ii = 0 then Some [''child idx: '' @ to_string ii]
                  else Option.bind (print_node img (n_children nn ! ii) None) (\<lambda>sub.
                         Option.bind (print_node img n (Some (ii + 1))) (\<lambda>out.
                           Some ((''child idx: '' @ to_string ii) # sub @ out)))
             else Some [])"

definition bplus_print :: "bplus \<Rightarrow> int \<Rightarrow> string list option" where
  "bplus_print bp n = print_node (bp_img bp) n None"

section \<open>The listing of a tree\<close>

definition key_lines :: "(int \<Rightarrow> string) \<Rightarrow> int list \<Rightarrow> string list" where
  "key_lines K ks = [replicate (length ks) (CHR ''-'')]
     @ map (\<lambda>ii. ''idx: '' @ to_string ii @ '' '' @ K (ks ! ii)) [0..<length ks] @ [replicate (length ks) (CHR ''-'')]"

fun tree_lines :: "(int \<Rightarrow> string) \<Rightarrow> bt \<Rightarrow> string list" where
  "tree_lines K (Leaf p ks vs) = key_lines K ks @ [''isleaf'']"
| "tree_lines K (Inner p ks ts) = key_lines K ks
     @ ''Children: '' # map (\<lambda>ii. ''idx: '' @ to_string ii @ '' '' @ int_to_string (off (ts ! ii))) [0..<length ts]
     @ concat (map2 (\<lambda>ii out. (''child idx: '' @ to_string ii) # out) [0..<length ts] (map (tree_lines K) ts))"

lemma print_keys_eq:
  assumes "node_ok n" "vkeys n = ks"
  shows "print_keys img n = key_lines (key_at img) ks"
  using view_nth(1) [OF assms(1)] length_views(1) [OF assms(1)] assms(2) by (simp add: print_keys_def key_lines_def)

lemma print_children:
  assumes "node_ok (im_nodes img p)" "vkids (im_nodes img p) = map off ts"
    "\<forall>t \<in> set ts. off t \<noteq> 0 \<and> print_node img (off t) None = Some (f t)"
  shows "ii \<le> length ts \<Longrightarrow> print_node img p (Some ii)
    = Some (concat (map2 (\<lambda>ii out. (''child idx: '' @ to_string ii) # out) [ii..<length ts] (map f (drop ii ts))))"
proof (induction "length ts - ii" arbitrary: ii)
  case 0
  have "length ts = n_num_keys (im_nodes img p) + 1" using length_views(3) [OF assms(1)] assms(2) by (metis length_map)
  then show ?case using 0 by (subst print_node.simps) simp
next
  case (Suc d)
  have n: "length ts = n_num_keys (im_nodes img p) + 1" using length_views(3) [OF assms(1)] assms(2) by (metis length_map)
  have ii: "ii < length ts" using Suc.hyps(2) by simp
  then have kid: "n_children (im_nodes img p) ! ii = off (ts ! ii)"
    using view_nth(2) [OF assms(1), of ii] assms(2) n by simp
  have t: "off (ts ! ii) \<noteq> 0" "print_node img (off (ts ! ii)) None = Some (f (ts ! ii))" using assms(3) ii by simp_all
  have rest: "print_node img p (Some (ii + 1))
      = Some (concat (map2 (\<lambda>ii out. (''child idx: '' @ to_string ii) # out) [ii + 1..<length ts] (map f (drop (ii + 1) ts))))"
    using Suc by (intro Suc.hyps(1)) auto
  have "[ii..<length ts] = ii # [ii + 1..<length ts]" "drop ii ts = ts ! ii # drop (ii + 1) ts"
    using ii by (simp_all add: upt_conv_Cons Cons_nth_drop_Suc)
  then show ?case using ii n kid t rest by (subst print_node.simps) (simp add: Let_def)
qed

lemma print_tree:
  "rep (im_nodes img) q T \<Longrightarrow> shape lo h T \<Longrightarrow> 0 \<notin> set (offs T) \<Longrightarrow>
    print_node img (off T) None = Some (tree_lines (key_at img) T)"
proof (induction T arbitrary: q lo h)
  case (Leaf p ks vs)
  then show ?case using print_keys_eq [of "im_nodes img p" ks img] by (subst print_node.simps) simp
next
  case (Inner p ks ts)
  let ?n = "im_nodes img p"
  have n: "node_ok ?n" "vkeys ?n = ks" "vkids ?n = map off ts" "\<not> n_is_leaf ?n" "\<forall>t \<in> set ts. rep (im_nodes img) p t" using Inner.prems(1) by auto
  have kids: "\<forall>t \<in> set ts. off t \<noteq> 0 \<and> print_node img (off t) None = Some (tree_lines (key_at img) t)"
  proof
    fix t assume t: "t \<in> set ts"
    have "0 \<notin> set (offs t)" "shape 11 (h - 1) t" using Inner.prems(2,3) t by auto
    then show "off t \<noteq> 0 \<and> print_node img (off t) None = Some (tree_lines (key_at img) t)"
      using Inner.IH [OF t] n(5) t off_in_offs [of t] by metis
  qed
  have "print_node img p (Some 0) = Some (concat (map2 (\<lambda>ii out. (''child idx: '' @ to_string ii) # out) [0..<length ts] (map (tree_lines (key_at img)) ts)))"
    using print_children [OF n(1,3) kids, of 0] by simp
  moreover have "print_kids ?n = ''Children: '' # map (\<lambda>ii. ''idx: '' @ to_string ii @ '' '' @ int_to_string (off (ts ! ii))) [0..<length ts]"
  proof -
    have len: "length ts = n_num_keys ?n + 1" using length_views(3) [OF n(1)] n(3) by (metis length_map)
    have "n_children ?n ! ii = off (ts ! ii)" if "ii < length ts" for ii
      using view_nth(2) [OF n(1), of ii] n(3) len that by simp
    then show ?thesis unfolding print_kids_def len [symmetric] by (intro arg_cong2 [where f = "(#)"] refl map_cong) auto
  qed
  ultimately show ?case using print_keys_eq [OF n(1,2)] n(4) by (subst print_node.simps) simp
qed

text \<open>
  (C31) \<open>print\<close> ends on every index that was built, although it follows the offsets stored in the
  file, and prints exactly the tree: of every node its keys in order, the offsets of its
  children, and then every child.
\<close>

theorem print_ends:
  assumes "tree_ok bp T"
  shows "bplus_print bp (off T) = Some (tree_lines (key_at (bp_img bp)) T)"
  using assms print_tree by (auto simp: tree_ok_def bplus_print_def)

theorem print_ends_witness:
  "\<exists>bp T. length (index_map (bp_img bp) T) = 40 \<and> bplus_print bp (off T) = Some (tree_lines (key_at (bp_img bp)) T)"
  using big_index print_ends by metis

end
