(* ===== verification/Removal.thy ===== *)
theory Removal
  imports Remount
begin

text \<open>
  Removal through all components: what is unlinked in one mount is written as deleted, and the
  next mount does not list it, although its lookups still find it.
\<close>

text \<open>A file that is made and unlinked before a flush.\<close>

lemma unlinked_cache:
  assumes "1 < length path" "ident = crypto_hash (e_hash e1) path" "\<forall>k j. 0 < get_time (e_clk e2 k j)"
    and fs0: "fs0 = zippyfs_init size0 junk zip_dir disk"
  shows "\<exists>bc0 bc i. handle e1 (Mknod path mode) fs0 = Some (Inr (fs0\<lparr>fs_cache := bc0\<rparr>, Status 0))
    \<and> handle e2 (Unlink path) (fs0\<lparr>fs_cache := bc0\<rparr>) = Some (Inr (fs0\<lparr>fs_cache := bc\<rparr>, Status 0))
    \<and> bc_inode_idx bc = [(path, ident)] \<and> bc_inode_ptrs bc = [(ident, Some i)] \<and> bc_dirty_block bc = [] \<and> bc_has_changed bc
    \<and> get_id i = ident \<and> get_path i = path \<and> is_deleted i = 1 \<and> 0 < get_ull_mtime i \<and> cache_wf bc \<and> get_link i = 0"
proof -
  define i1 where "i1 = inode_set_dirty (set_mode (e_clk e1 1) mode (inode_new (e_hash e1) (e_clk e1 0) (e_mode0 e1) path))"
  define i where "i = delete_inode (e_clk e2 0) (dec_link path i1)"
  define bc0 where "bc0 = fst (make_file e1 path mode True (fs_cache fs0))"
  have i1: "get_id i1 = ident" "get_refs i1 = [path]" "get_path i1 = path"
    by (simp_all add: i1_def assms(2) inode_set_dirty_def set_mode_def Let_def inode_new_def get_id_def get_refs_def get_path_def)
  have i: "get_id i = ident" "get_path i = path" "is_deleted i = 1" "0 < get_ull_mtime i" "get_link i = 0"
    using i1 assms(3) by (simp_all add: i_def delete_inode_def update_mtime_def dec_link_def Let_def get_id_def get_path_def is_deleted_def get_ull_mtime_def get_link_def)
  have mk: "handle e1 (Mknod path mode) fs0 = Some (Inr (fs0\<lparr>fs_cache := bc0\<rparr>, Status 0))"
    by (simp add: zippyfs_mknod_def on_cache_def reply_with_def make_file_def Let_def bc0_def)
  have made: "bc0 = (fs_cache fs0)\<lparr>bc_size := size0 + 1, bc_inode_idx := [(path, ident)], bc_inode_ptrs := [(ident, Some i1)], bc_has_changed := True\<rparr>"
    unfolding bc0_def make_file_def Let_def if_True i1_def [symmetric] fst_conv i1(1) fs0 new_cache by simp
  define bc where "bc = bc0\<lparr>bc_inode_ptrs := [(ident, Some i)], bc_has_changed := True, bc_size := size0\<rparr>"
  have "in_cache path bc0 = 0" by (simp add: made in_cache_def)
  then have rm: "cache_remove e2 path bc0 = Inr (bc, 0)"
    by (simp add: cache_remove_def on_inode_def deref_path_def get_inode_by_path_def put_inode_def made bc_def i1(2) i_def)
  then have ul: "handle e2 (Unlink path) (fs0\<lparr>fs_cache := bc0\<rparr>) = Some (Inr (fs0\<lparr>fs_cache := bc\<rparr>, Status 0))"
    by (simp add: zippyfs_unlink_def on_cache_def reply_with_def)
  have "cache_reachable bc0" unfolding bc0_def fs0 using reach_step [OF init_reachable step_make_file] .
  then have "cache_wf bc" using reachable_wf [OF reach_step [OF _ step_remove [OF rm]]] by blast
  moreover have "bc_dirty_block bc = []" by (simp add: bc_def made fs0 new_cache)
  ultimately show ?thesis
    using mk ul i by (intro exI [of _ bc0] exI [of _ bc] exI [of _ i]) (simp add: bc_def made)
qed

lemma unlinked_flush:
  assumes "bc_inode_idx bc = [(path, ident)]" "bc_inode_ptrs bc = [(ident, Some i)]" "bc_dirty_block bc = []" "bc_has_changed bc"
    "get_id i = ident" "get_path i = path" "cache_wf bc" "nul_free ident" "length ident < HASH_SIZE" "length path < 2 ^ 63"
  shows "\<exists>img bc' mts. flush_to_disk e bc = Some (Inr (bc', Some (tree_name e, img), 0)) \<and> built img [(i, [], mts)] \<and> jobs_ok [(i, [], mts)]"
proof -
  have fl: "flushable bc"
    using assms by (simp add: flushable_def row_def get_path_def row_sum_def)
  have job: "map (job_of bc) (bc_inode_idx bc) = [(i, [], row ident (bc_dirty_block_mtime bc))]"
    using assms by (simp add: job_of_def blocks_of_def row_def)
  show ?thesis using flush_built [OF fl assms(4), of e] flushable_jobs [OF fl] unfolding job by blast
qed

text \<open>A listing of a disk whose only inode is deleted.\<close>

lemma deleted_listing:
  assumes "dir = [(ent, img)]" "listing (bc_path_to_disk (fs_cache fs)) (fs_disk fs) = dir" "tree_files dir = dir"
    "no_stale dir (bc_loader (fs_cache fs))" "tree_readable img [x]" "is_deleted (fst x) \<noteq> 0"
  shows "handle e (Readdir d) fs = Some (Inr (fs\<lparr>fs_cache := (fs_cache fs)\<lparr>bc_loader := load_trees dir (bc_loader (fs_cache fs))\<rparr>\<rparr>,
    Names [''.'', ''..''] 0))"
proof -
  let ?bc = "fs_cache fs"
  define E where "E = (\<Union>(ent, img) \<in> set (tree_files dir). index_entry_of ` set (filter (child_of d) [x]))"
  have "\<forall>(ent, img) \<in> set (tree_files dir). tree_readable img [x]" unfolding assms(3) using assms(1,5) by simp
  from readdir_reply [OF assms(4) assms(2) [symmetric] this E_def] obtain es where
    es: "zippyfs_readdir d fs = Some (Inr (fs\<lparr>fs_cache := ?bc\<lparr>bc_loader := load_trees dir (bc_loader ?bc)\<rparr>\<rparr>,
        map (base_name \<circ> ie_path) (filter (\<lambda>x. ie_deleted x = 0) es) @ [''.'', ''..''], 0))" "\<forall>y \<in> set es. y \<in> E" by blast
  have "\<forall>y \<in> set es. ie_deleted y \<noteq> 0"
    using es(2) assms(6) by (fastforce simp: E_def index_entry_of_def split: if_splits)
  then have "filter (\<lambda>x. ie_deleted x = 0) es = []" by (simp add: filter_empty_conv)
  then show ?thesis using es(1) by (simp add: reply_with_def)
qed

text \<open>
  (C13) Removal survives a remount, but only for listings. A file that is made, unlinked and
  flushed at the unmount is in no listing of the next mount; yet \<open>getattr\<close> of its path still
  succeeds there, with a link count of 0, since lookups do not look at the mark that the
  inode is deleted.
\<close>

theorem removed_not_listed:
  assumes "nul_free path" "1 < length path" "length path < 2 ^ 63" "length (crypto_hash (e_hash e1) path) < HASH_SIZE"
    "e_hash e5 = e_hash e1" "\<forall>k j. 0 < get_time (e_clk e2 k j)"
  shows "\<exists>fs1 fs2 st.
    run [(e1, Mknod path mode), (e2, Unlink path), (e3, Destroy)] (zippyfs_init size0 junk0 mount_dir [])
      = Some (Inr (fs1, [Status 0, Status 0, Nothing]))
    \<and> run [(e4, Readdir d), (e5, Getattr path)] (zippyfs_init size1 junk1 mount_dir (fs_disk fs1))
      = Some (Inr (fs2, [Names [''.'', ''..''] 0, Attributes st 0]))
    \<and> st_nlink st = 0"
proof -
  let ?fs0 = "zippyfs_init size0 junk0 mount_dir []" and ?id = "crypto_hash (e_hash e1) path"
  obtain bc0 bc i where c: "handle e1 (Mknod path mode) ?fs0 = Some (Inr (?fs0\<lparr>fs_cache := bc0\<rparr>, Status 0))"
      "handle e2 (Unlink path) (?fs0\<lparr>fs_cache := bc0\<rparr>) = Some (Inr (?fs0\<lparr>fs_cache := bc\<rparr>, Status 0))"
      "bc_inode_idx bc = [(path, ?id)]" "bc_inode_ptrs bc = [(?id, Some i)]" "bc_dirty_block bc = []" "bc_has_changed bc"
      "get_id i = ?id" "get_path i = path" "is_deleted i = 1" "0 < get_ull_mtime i" "cache_wf bc" "get_link i = 0"
    using unlinked_cache [OF assms(2) refl assms(6) refl, where mode = mode] by blast
  have small: "length path < 2 ^ 63" by (rule assms(3))
  obtain img bc' mts where fl: "flush_to_disk e3 bc = Some (Inr (bc', Some (tree_name e3, img), 0))" "built img [(i, [], mts)]" "jobs_ok [(i, [], mts)]"
    using unlinked_flush [OF c(3-8) c(11) _ assms(4,3), of e3] nul_free_crypto_hash by blast
  let ?fs1 = "?fs0\<lparr>fs_cache := bc', fs_disk := [(tree_name e3, img)]\<rparr>"
  have de: "handle e3 Destroy (?fs0\<lparr>fs_cache := bc\<rparr>) = Some (Inr (?fs1, Nothing))"
    using fl(1) new_cache(5) [of size0 junk0 mount_dir "[]"] by (simp add: zippyfs_destroy_def flush_cache_def flush_to_shdw_def)
  have r1: "run [(e1, Mknod path mode), (e2, Unlink path), (e3, Destroy)] ?fs0 = Some (Inr (?fs1, [Status 0, Status 0, Nothing]))"
    unfolding run.simps c(1,2) and_then_simps prod.case de ..
  let ?fs = "zippyfs_init size1 junk1 mount_dir [(tree_name e3, img)]" and ?dir = "[(''TREE-'' @ generate_rand_hex_name (e_rand e3), img)]"
  note m = mounted_cache [of ?fs size1 junk1 e3 img, OF refl refl]
  have list: "listing (bc_path_to_disk (fs_cache ?fs)) (fs_disk ?fs) = ?dir" unfolding m(1) new_cache(5) by (rule tree_listing)
  have read: "tree_readable img [(i, [], mts)]" using fl(2,3) c(8) assms(1) by (simp add: tree_readable_def)
  let ?bc2 = "(fs_cache ?fs)\<lparr>bc_loader := load_trees ?dir (bc_loader (fs_cache ?fs))\<rparr>"
  have rd: "handle e4 (Readdir d) ?fs = Some (Inr (?fs\<lparr>fs_cache := ?bc2\<rparr>, Names [''.'', ''..''] 0))"
    by (rule deleted_listing [OF refl list m(3,2) read]) (simp add: c(9))
  have path: "path \<noteq> []" "path \<noteq> ''/''" using assms(2) by auto
  have id: "get_id i = crypto_hash (e_hash e5) path" using c(7) assms(5) by simp
  obtain di where di: "find_latest_inode (e_hash e5) (bc_loader ?bc2) path False = Some (Inr di)" "has_attrs i di"
    using find_in_single_tree [OF fl(3,2) _ id path(1), of "[]" mts "bc_loader ?bc2" "tree_name e3" False] m(4) c(10) by auto
  have "in_cache path ?bc2 = -1" using path(2) new_cache(1) by (simp add: in_cache_def)
  moreover have "i_mtime di \<noteq> 0" "i_nlink di = 0" using di(2) c(10) by (auto simp: has_attrs_def c(12))
  ultimately obtain st where "cache_getattr e5 path zero_stat ?bc2 = Some (Inr (?bc2, st, 0))" "st_nlink st = 0"
    using di(1) by (simp add: cache_getattr_def get_latest_inode_def)
  then have ga: "handle e5 (Getattr path) (?fs\<lparr>fs_cache := ?bc2\<rparr>) = Some (Inr (?fs\<lparr>fs_cache := ?bc2\<rparr>, Attributes st 0))" "st_nlink st = 0"
    using assms(2) by (simp_all add: zippyfs_getattr_def on_cache_def reply_with_def)
  have "run [(e4, Readdir d), (e5, Getattr path)] ?fs = Some (Inr (?fs\<lparr>fs_cache := ?bc2\<rparr>, [Names [''.'', ''..''] 0, Attributes st 0]))"
    unfolding run.simps rd and_then_simps prod.case ga(1) ..
  moreover have "fs_disk ?fs1 = [(tree_name e3, img)]" by simp
  ultimately show ?thesis using r1 ga(2) by metis
qed

theorem removed_not_listed_witness:
  "\<exists>fs1 fs2 st.
    run [(sample_env, Mknod ''/f'' 0x81A4), (sample_env, Unlink ''/f''), (sample_env, Destroy)] (zippyfs_init 0 undefined mount_dir [])
      = Some (Inr (fs1, [Status 0, Status 0, Nothing]))
    \<and> run [(sample_env, Readdir ''/''), (sample_env, Getattr ''/f'')] (zippyfs_init 0 undefined mount_dir (fs_disk fs1))
      = Some (Inr (fs2, [Names [''.'', ''..''] 0, Attributes st 0]))"
proof -
  have h: "e_hash sample_env = (\<lambda>_. [1])" "\<forall>k j. 0 < get_time (e_clk sample_env k j)"
    by (simp_all add: sample_env_def get_time_def)
  have l: "length (crypto_hash (e_hash sample_env) ''/f'') < HASH_SIZE" by (simp add: h(1) sample_hash)
  have p: "nul_free ''/f''" "1 < length ''/f''" "length ''/f'' < 2 ^ 63" by (simp_all add: nul_free_def)
  show ?thesis using removed_not_listed [OF p l refl h(2)] by blast
qed

end
