(* ===== verification/File_Store.thy ===== *)
theory File_Store
  imports Fuse_Ops
begin

text \<open>
  What a client of the file system relies on, as an interface: a store that maps paths to the
  bytes of their files, and the laws of the requests \<open>Mknod\<close>, \<open>Mkdir\<close>, \<open>Open\<close>, \<open>Write\<close>,
  \<open>Read\<close> and \<open>Getattr\<close> over it; a directory is a file without bytes. The lemmas of the locale
  are proved from the laws alone; the model of the program is shown to obey them in
  \<open>Store_Refine\<close>. The second locale adds what is not on disk yet, with its model in \<open>Unsaved\<close>.

  The laws hold for the writes that the program gets right: at the end of a file of full
  blocks, or inside one block that exists.
\<close>

section \<open>The abstract store\<close>

type_synonym file_map = "string \<Rightarrow> u8 list option"

datatype file_op =
    Create string u32
  | MakeDir string u32
  | Look string
  | Put string nat "u8 list"
  | Get string nat nat

fun request_of :: "file_op \<Rightarrow> request" where
  "request_of (Create p mode) = Mknod p mode"
| "request_of (MakeDir p mode) = Mkdir p mode"
| "request_of (Look p) = Open p"
| "request_of (Put p pos buf) = Write p buf (of_nat (length buf)) (of_nat pos)"
| "request_of (Get p pos n) = Read p (of_nat n) (of_nat pos)"

definition overlay :: "nat \<Rightarrow> 'a list \<Rightarrow> 'a list \<Rightarrow> 'a list" where
  "overlay pos buf c = take pos c @ buf @ drop (pos + length buf) c"

fun op_path :: "file_op \<Rightarrow> string" where
  "op_path (Create p mode) = p"
| "op_path (MakeDir p mode) = p"
| "op_path (Look p) = p"
| "op_path (Put p pos buf) = p"
| "op_path (Get p pos n) = p"

text \<open>What an operation does to the files and what it answers.\<close>

fun spec_step :: "file_op \<Rightarrow> file_map \<Rightarrow> file_map \<times> reply" where
  "spec_step (Create p mode) m = (m(p \<mapsto> []), Status 0)"
| "spec_step (MakeDir p mode) m = (m(p \<mapsto> []), Status 0)"
| "spec_step (Look p) m = (m, Status 0)"
| "spec_step (Put p pos buf) m = (m(p \<mapsto> overlay pos buf (the (m p))), Status (int (length buf)))"
| "spec_step (Get p pos n) m = (m, Bytes (take n (drop pos (the (m p)))) (int n))"

text \<open>The operations that the laws cover, in a store of files of at most \<open>limit\<close> bytes.\<close>

definition accepts :: "u8 list \<Rightarrow> nat \<Rightarrow> u8 list \<Rightarrow> bool" where
  "accepts c pos buf \<longleftrightarrow> length buf < 2 ^ 31 \<and> length buf + pos < 2 ^ 44 - SIZE
     \<and> (pos = length c \<and> pos mod SIZE = 0
        \<or> pos \<le> length c \<and> pos div SIZE * SIZE < length c \<and> buf \<noteq> [] \<and> pos mod SIZE + length buf \<le> SIZE)"

fun legal :: "file_op \<Rightarrow> file_map \<Rightarrow> bool" where
  "legal (Create p mode) m = True"
| "legal (MakeDir p mode) m = True"
| "legal (Look p) m = (m p \<noteq> None)"
| "legal (Put p pos buf) m = (case m p of None \<Rightarrow> False | Some c \<Rightarrow> accepts c pos buf)"
| "legal (Get p pos n) m = (m p \<noteq> None \<and> n < 2 ^ 31 \<and> pos < 2 ^ 44)"

fun creates :: "file_op list \<Rightarrow> nat" where
  "creates [] = 0"
| "creates (Create p mode # ops) = Suc (creates ops)"
| "creates (MakeDir p mode # ops) = Suc (creates ops)"
| "creates (x # ops) = creates ops"

fun spec_run :: "file_op list \<Rightarrow> file_map \<Rightarrow> file_map \<times> reply list" where
  "spec_run [] m = (m, [])"
| "spec_run (x # ops) m = (let (m1, r) = spec_step x m; (m2, rs) = spec_run ops m1 in (m2, r # rs))"

fun all_legal :: "file_op list \<Rightarrow> file_map \<Rightarrow> bool" where
  "all_legal [] m = True"
| "all_legal (x # ops) m = (legal x m \<and> all_legal ops (fst (spec_step x m)))"

text \<open>The sessions that make every file and directory once.\<close>

fun creates_new :: "file_op list \<Rightarrow> file_map \<Rightarrow> bool" where
  "creates_new [] m = True"
| "creates_new (x # ops) m = ((case x of Create p mode \<Rightarrow> m p = None | MakeDir p mode \<Rightarrow> m p = None | _ \<Rightarrow> True) \<and> creates_new ops (fst (spec_step x m)))"

lemma length_overlay: "pos \<le> length c \<Longrightarrow> length (overlay pos buf c) = max (length c) (pos + length buf)"
  by (auto simp: overlay_def)

lemma overlay_end: "overlay (length c) buf c = c @ buf"
  by (simp add: overlay_def)

section \<open>The interface\<close>

locale file_store =
  fixes files :: "'s \<Rightarrow> file_map" and ok :: "'s \<Rightarrow> bool" and room :: "'s \<Rightarrow> nat"
    and usable :: "'e \<Rightarrow> string \<Rightarrow> bool"
    and answer :: "'e \<Rightarrow> request \<Rightarrow> 's \<Rightarrow> ('s \<times> reply) outcome"
  assumes create: "ok s \<Longrightarrow> usable e p \<Longrightarrow> 0 < room s \<Longrightarrow>
      \<exists>s'. answer e (Mknod p mode) s = Some (Inr (s', Status 0)) \<and> ok s' \<and> files s' = (files s)(p \<mapsto> []) \<and> room s \<le> Suc (room s')"
    and make_dir: "ok s \<Longrightarrow> usable e p \<Longrightarrow> 0 < room s \<Longrightarrow>
      \<exists>s'. answer e (Mkdir p mode) s = Some (Inr (s', Status 0)) \<and> ok s' \<and> files s' = (files s)(p \<mapsto> []) \<and> room s \<le> Suc (room s')"
    and look: "ok s \<Longrightarrow> usable e p \<Longrightarrow> files s p = Some c \<Longrightarrow> answer e (Open p) s = Some (Inr (s, Status 0))"
    and put: "ok s \<Longrightarrow> usable e p \<Longrightarrow> files s p = Some c \<Longrightarrow> accepts c pos buf \<Longrightarrow>
      \<exists>s'. answer e (Write p buf (of_nat (length buf)) (of_nat pos)) s = Some (Inr (s', Status (int (length buf))))
        \<and> ok s' \<and> files s' = (files s)(p \<mapsto> overlay pos buf c) \<and> room s \<le> room s'"
    and get: "ok s \<Longrightarrow> usable e p \<Longrightarrow> files s p = Some c \<Longrightarrow> n < 2 ^ 31 \<Longrightarrow> pos < 2 ^ 44 \<Longrightarrow>
      answer e (Read p (of_nat n) (of_nat pos)) s = Some (Inr (s, Bytes (take n (drop pos c)) (int n)))"
    and size: "ok s \<Longrightarrow> usable e p \<Longrightarrow> files s p = Some c \<Longrightarrow>
      \<exists>st. answer e (Getattr p) s = Some (Inr (s, Attributes st 0)) \<and> unat (st_size st) = length c"
begin

primrec serve :: "('e \<times> file_op) list \<Rightarrow> 's \<Rightarrow> ('s \<times> reply list) outcome" where
  "serve [] s = Some (Inr (s, []))"
| "serve (x # ops) s = and_then (answer (fst x) (request_of (snd x)) s) (\<lambda>(s1, r).
     and_then (serve ops s1) (\<lambda>(s2, rs). Some (Inr (s2, r # rs))))"

text \<open>One operation, then a sequence, refines the abstract store.\<close>

lemma serve_step:
  assumes "ok s" "usable e (op_path x)" "legal x (files s)" "creates [x] \<le> room s"
  shows "\<exists>s'. answer e (request_of x) s = Some (Inr (s', snd (spec_step x (files s)))) \<and> ok s'
    \<and> files s' = fst (spec_step x (files s)) \<and> room s \<le> creates [x] + room s'"
proof (cases x)
  case (Create p mode)
  then show ?thesis using create [OF assms(1), of e p mode] assms by auto
next
  case (MakeDir p mode)
  then show ?thesis using make_dir [OF assms(1), of e p mode] assms by auto
next
  case (Look p)
  then obtain c where "files s p = Some c" using assms(3) by auto
  then show ?thesis using look [OF assms(1), of e p c] Look assms by auto
next
  case (Put p pos buf)
  then obtain c where "files s p = Some c" "accepts c pos buf" using assms(3) by (auto split: option.splits)
  then show ?thesis using put [OF assms(1), of e p c pos buf] Put assms by auto
next
  case (Get p pos n)
  then obtain c where "files s p = Some c" "n < 2 ^ 31" "pos < 2 ^ 44" using assms(3) by auto
  then show ?thesis using get [OF assms(1), of e p c n pos] Get assms by auto
qed

lemma creates_Cons: "creates (x # ops) = creates [x] + creates ops"
  by (cases x) simp_all

lemma serve_refines:
  assumes "ok s" "\<forall>(e, x) \<in> set ops. usable e (op_path x)" "all_legal (map snd ops) (files s)" "creates (map snd ops) \<le> room s"
  shows "\<exists>s' rs. serve ops s = Some (Inr (s', rs)) \<and> ok s' \<and> spec_run (map snd ops) (files s) = (files s', rs)
    \<and> room s \<le> creates (map snd ops) + room s'"
  using assms
proof (induction ops arbitrary: s)
  case (Cons y ops)
  obtain e x where y: "y = (e, x)" by (cases y)
  have pre: "creates [x] + creates (map snd ops) \<le> room s"
    using Cons.prems(4) y creates_Cons [of x "map snd ops"] by simp
  have "usable e (op_path x)" "legal x (files s)" "creates [x] \<le> room s" using Cons.prems(2,3) y pre by auto
  from serve_step [OF Cons.prems(1) this] obtain s1 where s1: "answer e (request_of x) s = Some (Inr (s1, snd (spec_step x (files s))))"
      "ok s1" "files s1 = fst (spec_step x (files s))" "room s \<le> creates [x] + room s1" by blast
  have "all_legal (map snd ops) (files s1)" "creates (map snd ops) \<le> room s1" "\<forall>(e, x) \<in> set ops. usable e (op_path x)"
    using Cons.prems(2,3) y pre s1(3,4) by auto
  from Cons.IH [OF s1(2) this(3,1,2)] obtain s2 rs where s2: "serve ops s1 = Some (Inr (s2, rs))" "ok s2"
      "spec_run (map snd ops) (files s1) = (files s2, rs)" "room s1 \<le> creates (map snd ops) + room s2" by blast
  have "room s \<le> creates (map snd (y # ops)) + room s2"
    using s1(4) s2(4) y creates_Cons [of x "map snd ops"] by simp
  moreover have "serve (y # ops) s = Some (Inr (s2, snd (spec_step x (files s)) # rs))" using y s1(1) s2(1) by simp
  moreover have "spec_run (map snd (y # ops)) (files s) = (files s2, snd (spec_step x (files s)) # rs)"
    using y s1(3) s2(3) by (simp add: case_prod_beta)
  ultimately show ?case using s2(2) by blast
qed simp

text \<open>A file copied block by block: full blocks, and a last piece of at most a block.\<close>

lemma copy_blocks:
  assumes "ok s" "\<forall>e \<in> set es. usable e p" "files s p = Some c" "length c mod SIZE = 0" "length es = length bs"
    and "\<forall>k. Suc k < length bs \<longrightarrow> length (bs ! k) = SIZE" "\<forall>b \<in> set bs. length b \<le> SIZE" "length c + length bs * SIZE < 2 ^ 44 - SIZE"
  shows "\<exists>s' rs. serve (map (\<lambda>(k, e). (e, Put p (length c + k * SIZE) (bs ! k))) (zip [0..<length bs] es)) s = Some (Inr (s', rs))
    \<and> ok s' \<and> files s' = (files s)(p \<mapsto> c @ concat bs)"
  using assms
proof (induction bs arbitrary: s c es)
  case Nil
  then show ?case by (simp add: fun_upd_idem)
next
  case (Cons b bs)
  obtain e es' where es: "es = e # es'" "length es' = length bs" using Cons.prems(5) by (cases es) auto
  have b: "accepts c (length c) b" using Cons.prems(4,7,8) by (simp add: accepts_def)
  from put [OF Cons.prems(1) _ Cons.prems(3) b, of e] es Cons.prems(2)
  obtain s1 where s1: "answer e (Write p b (of_nat (length b)) (of_nat (length c))) s = Some (Inr (s1, Status (int (length b))))"
      "ok s1" "files s1 = (files s)(p \<mapsto> c @ b)" by (auto simp: overlay_end)
  show ?case
  proof (cases "bs = []")
    case True
    then show ?thesis using s1 es by (simp add: fun_upd_def)
  next
    case False
    have lb: "length b = SIZE" using Cons.prems(6) [rule_format, of 0] False by simp
    have nx: "\<forall>k. Suc k < length bs \<longrightarrow> length (bs ! k) = SIZE" using Cons.prems(6) by force
    have "\<exists>s' rs. serve (map (\<lambda>(k, e). (e, Put p (length (c @ b) + k * SIZE) (bs ! k))) (zip [0..<length bs] es')) s1 = Some (Inr (s', rs))
        \<and> ok s' \<and> files s' = (files s1)(p \<mapsto> (c @ b) @ concat bs)"
      using Cons.prems es s1 lb nx by (intro Cons.IH) auto
    then obtain s2 rs where s2: "serve (map (\<lambda>(k, e). (e, Put p (length (c @ b) + k * SIZE) (bs ! k))) (zip [0..<length bs] es')) s1 = Some (Inr (s2, rs))"
        "ok s2" "files s2 = (files s1)(p \<mapsto> (c @ b) @ concat bs)" by blast
    have "zip [0..<length (b # bs)] es = (0, e) # map (\<lambda>(k, e). (Suc k, e)) (zip [0..<length bs] es')"
      by (simp add: es upt_conv_Cons map_Suc_upt [symmetric] zip_map1 del: upt_Suc)
    moreover have "length c + Suc k * SIZE = length (c @ b) + k * SIZE" for k using lb by simp
    ultimately have "map (\<lambda>(k, e). (e, Put p (length c + k * SIZE) ((b # bs) ! k))) (zip [0..<length (b # bs)] es)
        = (e, Put p (length c) b) # map (\<lambda>(k, e). (e, Put p (length (c @ b) + k * SIZE) (bs ! k))) (zip [0..<length bs] es')"
      by (simp add: comp_def case_prod_beta)
    then show ?thesis using s1 s2 by (simp add: fun_eq_iff)
  qed
qed

end

section \<open>Files that are not on disk yet\<close>

text \<open>
  A store that knows of files that are not on disk yet: the laws say that new files, and writes
  to them, stay in this state, when the clock runs.
\<close>

locale unsaved_store = file_store files ok room usable answer
  for files :: "'s \<Rightarrow> file_map" and ok :: "'s \<Rightarrow> bool" and room :: "'s \<Rightarrow> nat" and usable :: "'e \<Rightarrow> string \<Rightarrow> bool"
    and answer :: "'e \<Rightarrow> request \<Rightarrow> 's \<Rightarrow> ('s \<times> reply) outcome" +
  fixes unsaved :: "'s \<Rightarrow> bool" and timed :: "'e \<Rightarrow> bool"
  assumes unsaved_create: "ok s \<Longrightarrow> unsaved s \<Longrightarrow> usable e p \<Longrightarrow> timed e \<Longrightarrow> 0 < room s \<Longrightarrow> files s p = None \<Longrightarrow>
      q = Mknod p mode \<or> q = Mkdir p mode \<Longrightarrow> answer e q s = Some (Inr (s', r)) \<Longrightarrow> unsaved s'"
    and unsaved_put: "ok s \<Longrightarrow> unsaved s \<Longrightarrow> usable e p \<Longrightarrow> timed e \<Longrightarrow> files s p = Some c \<Longrightarrow> accepts c pos buf \<Longrightarrow>
      answer e (Write p buf (of_nat (length buf)) (of_nat pos)) s = Some (Inr (s', r)) \<Longrightarrow> unsaved s'"
begin

lemma unsaved_step:
  assumes "ok s" "unsaved s" "usable e (op_path x)" "timed e" "legal x (files s)" "creates [x] \<le> room s" "creates_new [x] (files s)"
    "answer e (request_of x) s = Some (Inr (s', r))"
  shows "unsaved s'"
proof (cases x)
  case (Create p mode)
  then show ?thesis using unsaved_create [OF assms(1,2), of e p "request_of x" mode s' r] assms by simp
next
  case (MakeDir p mode)
  then show ?thesis using unsaved_create [OF assms(1,2), of e p "request_of x" mode s' r] assms by simp
next
  case (Look p)
  then obtain c where "files s p = Some c" using assms(5) by auto
  then show ?thesis using look [OF assms(1), of e p c] assms Look by simp
next
  case (Put p pos buf)
  then obtain c where "files s p = Some c" "accepts c pos buf" using assms(5) by (auto split: option.splits)
  then show ?thesis using unsaved_put [OF assms(1,2), of e p c pos buf s' r] assms Put by simp
next
  case (Get p pos n)
  then obtain c where "files s p = Some c" "n < 2 ^ 31" "pos < 2 ^ 44" using assms(5) by auto
  then show ?thesis using get [OF assms(1), of e p c n pos] assms Get by simp
qed

lemma serve_unsaved:
  assumes "ok s" "unsaved s" "\<forall>(e, x) \<in> set ops. usable e (op_path x) \<and> timed e" "all_legal (map snd ops) (files s)"
    "creates (map snd ops) \<le> room s" "creates_new (map snd ops) (files s)" "serve ops s = Some (Inr (s', rs))"
  shows "unsaved s'"
  using assms
proof (induction ops arbitrary: s rs)
  case (Cons y ops)
  obtain e x where y: "y = (e, x)" by (cases y)
  have pre: "creates [x] + creates (map snd ops) \<le> room s" using Cons.prems(5) y creates_Cons [of x "map snd ops"] by simp
  have x: "usable e (op_path x)" "timed e" "legal x (files s)" "creates [x] \<le> room s" "creates_new [x] (files s)"
    using Cons.prems(3,4,6) y pre by auto
  from serve_step [OF Cons.prems(1) x(1,3,4)] obtain s1 where s1: "answer e (request_of x) s = Some (Inr (s1, snd (spec_step x (files s))))"
      "ok s1" "files s1 = fst (spec_step x (files s))" "room s \<le> creates [x] + room s1" by blast
  have "unsaved s1" using unsaved_step [OF Cons.prems(1,2) x(1-5) s1(1)] .
  moreover obtain rs' where "serve ops s1 = Some (Inr (s', rs'))"
    using Cons.prems(7) y s1(1) by (auto dest!: and_then_InrD)
  ultimately show ?case
    using Cons.IH [of s1 rs'] Cons.prems(3,4,6) y s1(2-4) pre by simp
qed simp

end

end
