(* ===== verification/Store_Refine.thy ===== *)
theory Store_Refine
  imports Session File_Store
begin

text \<open>
  The program provides the interface \<open>file_store\<close>: its requests on the cache refine the
  operations of the abstract store. Files live in one heap of blocks, so next to what each
  write does to its own file it has to be shown that it leaves the others alone.
\<close>

section \<open>A write stays inside its inode\<close>

definition block_ptrs :: "inode \<Rightarrow> bptr set" where
  "block_ptrs i = snd ` set (ino_blocks i)"

text \<open>
  From one state to the next: the heap grows, only blocks of the inode change, the inode
  takes new blocks only from the part of the heap that is new, and the other inodes stay.
\<close>

definition confined :: "string \<Rightarrow> inode \<times> block_cache \<Rightarrow> inode \<times> block_cache \<Rightarrow> bool" where
  "confined ident s s' \<longleftrightarrow> (case s of (i, bc) \<Rightarrow> case s' of (i', bc') \<Rightarrow>
     length (bc_heap bc) \<le> length (bc_heap bc')
     \<and> (\<forall>p < length (bc_heap bc). p \<notin> block_ptrs i \<longrightarrow> bc_heap bc' ! p = bc_heap bc ! p)
     \<and> block_ptrs i' \<subseteq> block_ptrs i \<union> {length (bc_heap bc)..<length (bc_heap bc')}
     \<and> (\<forall>q. q \<noteq> ident \<longrightarrow> map_of (bc_inode_ptrs bc') q = map_of (bc_inode_ptrs bc) q))"

lemma confined_refl: "confined ident s s"
  by (auto simp: confined_def)

lemma confined_trans:
  assumes "confined ident s s1" "confined ident s1 s2"
  shows "confined ident s s2"
proof -
  obtain i bc i1 bc1 i2 bc2 where s: "s = (i, bc)" "s1 = (i1, bc1)" "s2 = (i2, bc2)" by (cases s, cases s1, cases s2)
  have "bc_heap bc2 ! p = bc_heap bc ! p" if "p < length (bc_heap bc)" "p \<notin> block_ptrs i" for p
  proof -
    have "p \<notin> block_ptrs i1" using assms(1) that s by (auto simp: confined_def)
    then show ?thesis using assms that s by (simp add: confined_def)
  qed
  moreover have "block_ptrs i2 \<subseteq> block_ptrs i \<union> {length (bc_heap bc)..<length (bc_heap bc2)}"
    using assms s by (fastforce simp: confined_def)
  ultimately show ?thesis using assms s by (simp add: confined_def)
qed

lemma write_block_confined:
  assumes "write_block e ident buf k bid cur bs amt i bc = Inr (i', bc')"
    and "unshared i" "block_ptrs i \<subseteq> {..<length (bc_heap bc)}"
  shows "confined ident (i, bc) (i', bc')" "unshared i'" "block_ptrs i' \<subseteq> {..<length (bc_heap bc')}"
proof -
  have "confined ident (i, bc) (i', bc') \<and> unshared i' \<and> block_ptrs i' \<subseteq> {..<length (bc_heap bc')}"
  proof (cases "map_of (ino_blocks i) bid")
    case None
    define b where "b = block_of (drop (unat cur) buf) bs"
    define i1 where "i1 = (update_mtime (e_clk e (2 * k)) i)\<lparr>ino_blocks := AList.update bid (length (bc_heap bc)) (ino_blocks i)\<rparr>"
    have add: "add_block (e_clk e (2 * k)) bid (length (bc_heap bc)) (bc_heap bc @ [b]) i = (bc_heap bc @ [b], i1)"
      using None by (simp add: add_block_def Let_def i1_def update_mtime_def)
    have st: "i' = i1" "bc_heap bc' = bc_heap bc @ [b]" "bc_inode_ptrs bc' = omap_put ident (Some i1) (bc_inode_ptrs bc)"
      using assms(1) None add by (auto simp: write_block_def has_block_def Let_def b_def)
    have "ino_blocks i1 = ino_blocks i @ [(bid, length (bc_heap bc))]" using update_new [OF None] by (simp add: i1_def)
    then have bl: "block_ptrs i1 = insert (length (bc_heap bc)) (block_ptrs i)" "unshared i1"
      using assms(2,3) by (auto simp: block_ptrs_def unshared_def)
    then show ?thesis using st assms(3) by (auto simp: confined_def nth_append omap_put_find)
  next
    case (Some p)
    define i1 where "i1 = i\<lparr>ino_ul_mtime := get_time (e_clk e (2 * k) 0)\<rparr>"
    define b where "b = fst (block_insert (bc_heap bc ! p) buf bs amt)"
    have st: "i' = i1" "bc_heap bc' = (bc_heap bc)[p := b]" "bc_inode_ptrs bc' = omap_put ident (Some i1) (bc_inode_ptrs bc)"
      using assms(1) Some by (auto simp: write_block_def has_block_def get_block_def i1_def b_def)
    have "block_ptrs i1 = block_ptrs i" "unshared i1" using assms(2) by (simp_all add: block_ptrs_def unshared_def i1_def)
    moreover have "p \<in> block_ptrs i" using map_of_SomeD [OF Some] by (force simp: block_ptrs_def)
    ultimately show ?thesis using st assms(3) by (auto simp: confined_def nth_list_update omap_put_find)
  qed
  then show "confined ident (i, bc) (i', bc')" "unshared i'" "block_ptrs i' \<subseteq> {..<length (bc_heap bc')}" by blast+
qed

lemma write_rounds_confined:
  assumes "unshared (fst s)" "block_ptrs (fst s) \<subseteq> {..<length (bc_heap (snd s))}"
  shows "confined ident s (fold (write_round e ident buf n offset b0) ks s)
    \<and> unshared (fst (fold (write_round e ident buf n offset b0) ks s))"
  using assms
proof (induction ks arbitrary: s)
  case (Cons k ks)
  obtain i bc where s: "s = (i, bc)" by (cases s)
  obtain i1 bc1 where w: "write_round e ident buf n offset b0 k s = (i1, bc1)"
      "write_block e ident buf k (of_nat (b0 + k)) (of_nat (min (k * SIZE) n))
         (of_nat (min ((k + 1) * SIZE) n - min (k * SIZE) n)) (first_amt offset k) i bc = Inr (i1, bc1)"
    using write_round_block s by blast
  note c = write_block_confined [OF w(2)]
  have "confined ident s (i1, bc1)" "unshared i1" "block_ptrs i1 \<subseteq> {..<length (bc_heap bc1)}" using c Cons.prems s by auto
  then show ?case using Cons.IH [of "(i1, bc1)"] confined_trans w(1) by auto
qed (simp add: confined_refl)

lemma write_state_confined:
  assumes "unshared i" "block_ptrs i \<subseteq> {..<length (bc_heap bc)}" "write_state e ident buf sz offset i bc = (i', bc')"
  shows "confined ident (i, bc) (i', bc')" "unshared i'"
proof -
  define i1 where "i1 = grown e (sz + offset) i"
  have i1: "block_ptrs i1 = block_ptrs i" "unshared i1"
    using grown_blocks(1) [of e "sz + offset" i] assms(1) by (simp_all add: block_ptrs_def unshared_def i1_def)
  obtain m where m: "fold (write_round (sub_env 2 e) ident buf (unat sz) offset (unat offset div SIZE)) [0..<m] (i1, put_inode ident i1 bc) = (i', bc')"
    using write_state_rounds [OF refl, of e ident buf sz offset i bc] assms(3) unfolding i1_def by metis
  have "confined ident (i1, put_inode ident i1 bc) (i', bc') \<and> unshared i'"
    using write_rounds_confined [of "(i1, put_inode ident i1 bc)" ident "sub_env 2 e" buf "unat sz" offset "unat offset div SIZE" "[0..<m]"]
      i1 assms(2) unfolding m by simp
  then show "confined ident (i, bc) (i', bc')" "unshared i'"
    using i1(1) by (auto simp: confined_def put_inode_def omap_put_find)
qed

section \<open>Files in the cache\<close>

definition file_inode :: "block_cache \<Rightarrow> string \<Rightarrow> inode option" where
  "file_inode bc path = (case map_of (bc_inode_idx bc) path of None \<Rightarrow> None
     | Some ident \<Rightarrow> (case map_of (bc_inode_ptrs bc) ident of Some (Some i) \<Rightarrow> Some i | _ \<Rightarrow> None))"

definition cached_files :: "zippyfs \<Rightarrow> file_map" where
  "cached_files fs path = map_option (contents (bc_heap (fs_cache fs))) (file_inode (fs_cache fs) path)"

text \<open>A file as the writes of the program leave it: no holes, no empty block at the end, the right size.\<close>

definition whole :: "heap \<Rightarrow> inode \<Rightarrow> bool" where
  "whole h i \<longleftrightarrow> dense h i \<and> unshared i \<and> unat (ino_size i) = length (contents h i)
     \<and> length (ino_blocks i) * SIZE < length (contents h i) + SIZE"

definition separate :: "block_cache \<Rightarrow> bool" where
  "separate bc \<longleftrightarrow> (\<forall>p q i j. p \<noteq> q \<and> file_inode bc p = Some i \<and> file_inode bc q = Some j \<longrightarrow> block_ptrs i \<inter> block_ptrs j = {})"

definition store_ok :: "(char list \<Rightarrow> u8 list) \<Rightarrow> string set \<Rightarrow> zippyfs \<Rightarrow> bool" where
  "store_ok H P fs \<longleftrightarrow> inj_on (crypto_hash H) P \<and> bc_size (fs_cache fs) < MAX_SIZE \<and> separate (fs_cache fs)
     \<and> (\<forall>path ident. map_of (bc_inode_idx (fs_cache fs)) path = Some ident \<longrightarrow>
          path \<in> P \<and> ident = crypto_hash H path
          \<and> (\<exists>i. map_of (bc_inode_ptrs (fs_cache fs)) ident = Some (Some i) \<and> whole (bc_heap (fs_cache fs)) i))"

definition store_room :: "zippyfs \<Rightarrow> nat" where
  "store_room fs = unat MAX_SIZE - 1 - unat (bc_size (fs_cache fs))"

definition store_usable :: "(char list \<Rightarrow> u8 list) \<Rightarrow> string set \<Rightarrow> env \<Rightarrow> string \<Rightarrow> bool" where
  "store_usable H P e path \<longleftrightarrow> e_hash e = H \<and> path \<in> P \<and> length path \<noteq> 1"

lemma whole_ptrs: "whole h i \<Longrightarrow> block_ptrs i \<subseteq> {..<length h}"
  by (fastforce simp: whole_def dense_def inode_inv_def block_ptrs_def)

text \<open>A file whose blocks did not change is what it was.\<close>

lemma nth_block_frame:
  assumes "dense h i" "\<forall>p \<in> block_ptrs i. h' ! p = h ! p" "k < length (ino_blocks i)"
  shows "nth_block h' i k = nth_block h i k"
proof -
  obtain p where p: "map_of (ino_blocks i) (of_nat k) = Some p" using dense_nth [OF assms(1,3)] by blast
  then have "p \<in> block_ptrs i" using map_of_SomeD by (force simp: block_ptrs_def)
  then show ?thesis using p assms(2) by (simp add: nth_block_def)
qed

lemma contents_frame:
  assumes "dense h i" "\<forall>p \<in> block_ptrs i. h' ! p = h ! p"
  shows "contents h' i = contents h i"
  unfolding contents_def by (intro arg_cong [where f = concat] map_cong refl) (simp add: nth_block_frame [OF assms])

lemma dense_frame:
  assumes "dense h i" "length h \<le> length h'" "\<forall>p \<in> block_ptrs i. h' ! p = h ! p"
  shows "dense h' i"
proof -
  have "inode_inv h' i" using assms by (fastforce simp: dense_def inode_inv_def block_ptrs_def)
  then show ?thesis using assms(1) nth_block_frame [OF assms(1,3)] by (simp add: dense_def)
qed

lemma whole_frame: "whole h i \<Longrightarrow> length h \<le> length h' \<Longrightarrow> \<forall>p \<in> block_ptrs i. h' ! p = h ! p \<Longrightarrow> whole h' i"
  using dense_frame [of h i h'] contents_frame [of h i h'] by (simp add: whole_def)

lemma file_inode_SomeD:
  "file_inode bc p = Some i \<Longrightarrow> \<exists>ident. map_of (bc_inode_idx bc) p = Some ident \<and> map_of (bc_inode_ptrs bc) ident = Some (Some i)"
  by (auto simp: file_inode_def split: option.splits)

lemma store_file:
  assumes "store_ok H P fs" "file_inode (fs_cache fs) p = Some i"
  shows "map_of (bc_inode_idx (fs_cache fs)) p = Some (crypto_hash H p)" "p \<in> P"
    "map_of (bc_inode_ptrs (fs_cache fs)) (crypto_hash H p) = Some (Some i)" "whole (bc_heap (fs_cache fs)) i"
proof -
  obtain ident where id: "map_of (bc_inode_idx (fs_cache fs)) p = Some ident" "map_of (bc_inode_ptrs (fs_cache fs)) ident = Some (Some i)"
    using file_inode_SomeD [OF assms(2)] by blast
  moreover from assms(1) id(1) have "p \<in> P" "ident = crypto_hash H p"
      "\<exists>i. map_of (bc_inode_ptrs (fs_cache fs)) ident = Some (Some i) \<and> whole (bc_heap (fs_cache fs)) i"
    by (auto simp: store_ok_def)
  ultimately show "map_of (bc_inode_idx (fs_cache fs)) p = Some (crypto_hash H p)" "p \<in> P"
    "map_of (bc_inode_ptrs (fs_cache fs)) (crypto_hash H p) = Some (Some i)" "whole (bc_heap (fs_cache fs)) i" by auto
qed

lemma store_entry:
  assumes "store_ok H P fs" "map_of (bc_inode_idx (fs_cache fs)) path = Some ident"
  shows "path \<in> P \<and> ident = crypto_hash H path \<and> (\<exists>i. file_inode (fs_cache fs) path = Some i)"
proof -
  have "path \<in> P \<and> ident = crypto_hash H path \<and> (\<exists>i. map_of (bc_inode_ptrs (fs_cache fs)) ident = Some (Some i))"
    using assms unfolding store_ok_def by blast
  then show ?thesis using assms(2) by (auto simp: file_inode_def)
qed

lemma other_file:
  assumes "store_ok H P fs" "p \<in> P" "q \<noteq> p" "map_of (bc_inode_idx bc') = (map_of (bc_inode_idx (fs_cache fs)))(p \<mapsto> crypto_hash H p)"
    and "\<And>a. a \<noteq> crypto_hash H p \<Longrightarrow> map_of (bc_inode_ptrs bc') a = map_of (bc_inode_ptrs (fs_cache fs)) a"
  shows "file_inode bc' q = file_inode (fs_cache fs) q"
proof (cases "map_of (bc_inode_idx (fs_cache fs)) q")
  case (Some a)
  then have "q \<in> P" "a = crypto_hash H q" "inj_on (crypto_hash H) P" using assms(1) by (auto simp: store_ok_def)
  then have "a \<noteq> crypto_hash H p" using assms(2,3) by (auto dest: inj_onD)
  then show ?thesis using Some assms(3-5) by (simp add: file_inode_def)
qed (use assms(3,4) in \<open>simp add: file_inode_def\<close>)

text \<open>A change of one file, of one that exists or of a new one.\<close>

lemma store_update:
  assumes ok: "store_ok H P fs" and bc: "bc = fs_cache fs" and p: "p \<in> P" "ident = crypto_hash H p"
    and apart: "\<And>q j. q \<noteq> p \<Longrightarrow> file_inode bc q = Some j \<Longrightarrow> block_ptrs i \<inter> block_ptrs j = {}"
    and conf: "confined ident (i, bc) (i', bc')"
    and new: "map_of (bc_inode_idx bc') = (map_of (bc_inode_idx bc))(p \<mapsto> ident)" "map_of (bc_inode_ptrs bc') ident = Some (Some i')"
      "whole (bc_heap bc') i'" "bc_size bc' < MAX_SIZE"
  shows "store_ok H P (fs\<lparr>fs_cache := bc'\<rparr>)"
    "cached_files (fs\<lparr>fs_cache := bc'\<rparr>) = (cached_files fs)(p \<mapsto> contents (bc_heap bc') i')"
proof -
  have other: "file_inode bc' q = file_inode bc q" if "q \<noteq> p" for q
    using other_file [OF ok p(1) that, of bc'] new(1) conf p(2) bc by (simp add: confined_def)
  have this_one: "file_inode bc' p = Some i'" using new(1,2) by (simp add: file_inode_def)
  have keep: "whole (bc_heap bc') j \<and> contents (bc_heap bc') j = contents (bc_heap bc) j \<and> block_ptrs i' \<inter> block_ptrs j = {}"
    if q: "q \<noteq> p" "file_inode bc q = Some j" for q j
  proof -
    have j: "whole (bc_heap bc) j" using store_file(4) [OF ok, folded bc, OF q(2)] .
    have "\<forall>a \<in> block_ptrs j. bc_heap bc' ! a = bc_heap bc ! a"
      using apart [OF q] conf whole_ptrs [OF j] by (auto simp: confined_def)
    moreover have "length (bc_heap bc) \<le> length (bc_heap bc')" using conf by (simp add: confined_def)
    moreover have "block_ptrs i' \<inter> block_ptrs j = {}"
      using conf apart [OF q] whole_ptrs [OF j] by (fastforce simp: confined_def)
    ultimately show ?thesis using whole_frame [OF j] contents_frame j by (simp add: whole_def)
  qed
  have sep: "separate bc'"
    unfolding separate_def
  proof (intro allI impI)
    fix a b x y
    assume ab: "a \<noteq> b \<and> file_inode bc' a = Some x \<and> file_inode bc' b = Some y"
    show "block_ptrs x \<inter> block_ptrs y = {}"
    proof (cases "a = p \<or> b = p")
      case True
      then show ?thesis using ab keep other this_one by (metis Int_commute option.inject)
    next
      case False
      then have "file_inode bc a = Some x" "file_inode bc b = Some y" using ab other by simp_all
      then show ?thesis using ok ab bc unfolding store_ok_def separate_def by blast
    qed
  qed
  have all: "\<forall>q id'. map_of (bc_inode_idx bc') q = Some id' \<longrightarrow> q \<in> P \<and> id' = crypto_hash H q
    \<and> (\<exists>j. map_of (bc_inode_ptrs bc') id' = Some (Some j) \<and> whole (bc_heap bc') j)"
  proof (intro allI impI)
    fix q id'
    assume that: "map_of (bc_inode_idx bc') q = Some id'"
    show "q \<in> P \<and> id' = crypto_hash H q \<and> (\<exists>j. map_of (bc_inode_ptrs bc') id' = Some (Some j) \<and> whole (bc_heap bc') j)"
    proof (cases "q = p")
      case True
      then show ?thesis using that new p by simp
    next
      case False
      then have q: "map_of (bc_inode_idx bc) q = Some id'" using that new(1) by simp
      then obtain j where j: "q \<in> P" "id' = crypto_hash H q" "file_inode bc q = Some j"
        using store_entry [OF ok] bc by blast
      have "file_inode bc' q = Some j" using other [OF False] j(3) by (rule trans)
      then obtain a where a: "map_of (bc_inode_idx bc') q = Some a" "map_of (bc_inode_ptrs bc') a = Some (Some j)"
        using file_inode_SomeD by blast
      then have "a = id'" using that by simp
      with j a show ?thesis using keep [OF False] by blast
    qed
  qed
  have cache: "fs_cache (fs\<lparr>fs_cache := bc'\<rparr>) = bc'" by simp
  have "inj_on (crypto_hash H) P" using ok by (simp add: store_ok_def)
  then show "store_ok H P (fs\<lparr>fs_cache := bc'\<rparr>)"
    unfolding store_ok_def cache using new(4) sep all by blast
  have "cached_files (fs\<lparr>fs_cache := bc'\<rparr>) q = ((cached_files fs)(p \<mapsto> contents (bc_heap bc') i')) q" for q
  proof (cases "q = p")
    case True
    then show ?thesis using this_one by (simp add: cached_files_def)
  next
    case False
    show ?thesis
    proof (cases "file_inode bc q")
      case None
      then show ?thesis using other [OF False] False bc by (simp add: cached_files_def)
    next
      case (Some j)
      have "contents (bc_heap bc') j = contents (bc_heap bc) j" using keep [OF False Some] by blast
      then show ?thesis using other [OF False] Some False bc by (simp add: cached_files_def)
    qed
  qed
  then show "cached_files (fs\<lparr>fs_cache := bc'\<rparr>) = (cached_files fs)(p \<mapsto> contents (bc_heap bc') i')" by blast
qed

section \<open>The laws\<close>

lemma sint_status: "n < 2 ^ 31 \<Longrightarrow> sint (ucast (of_nat n :: u64) :: u32) = int n"
proof -
  assume n: "n < 2 ^ 31"
  have "(ucast (of_nat n :: u64) :: u32) = of_nat n"
    by (rule word_unat_eq_iff [THEN iffD2]) (use n in \<open>simp add: unat_of_nat take_bit_nat_eq_self\<close>)
  then have "sint (ucast (of_nat n :: u64) :: u32) = signed_take_bit 31 (uint (of_nat n :: u32))" by (simp add: sint_uint)
  also have "uint (of_nat n :: u32) = int n" using n by (simp add: uint_nat unat_of_nat take_bit_nat_eq_self)
  also have "signed_take_bit 31 (int n) = int n" using n by (intro signed_take_bit_int_eq_self) auto
  finally show ?thesis .
qed

lemma length_contents_le:
  assumes "dense h i"
  shows "length (contents h i) \<le> length (ino_blocks i) * SIZE"
proof -
  have "length (block_bytes (nth_block h i k)) \<le> SIZE" if k: "k < length (ino_blocks i)" for k
    using dense_nth [OF assms k] length_block_bytes by (auto simp: block_inv_def)
  then have "sum_list (map (\<lambda>k. length (block_bytes (nth_block h i k))) [0..<length (ino_blocks i)]) \<le> sum_list (map (\<lambda>_. SIZE) [0..<length (ino_blocks i)])"
    by (intro sum_list_mono) auto
  then show ?thesis by (simp add: contents_def length_concat comp_def sum_list_triv)
qed

lemma whole_full:
  assumes "whole h i" "length (contents h i) mod SIZE = 0"
  shows "all_full h i" "length (contents h i) = length (ino_blocks i) * SIZE"
proof -
  have d: "dense h i" and lt: "length (ino_blocks i) * SIZE < length (contents h i) + SIZE"
    using assms(1) by (simp_all add: whole_def)
  obtain q where q: "length (contents h i) = q * SIZE" using assms(2) by (metis add_0_right div_mult_mod_eq)
  have "length (ino_blocks i) * SIZE < Suc q * SIZE" using lt q by simp
  then have "length (ino_blocks i) \<le> q" by simp
  moreover have "q \<le> length (ino_blocks i)" using length_contents_le [OF d] q by simp
  ultimately show len: "length (contents h i) = length (ino_blocks i) * SIZE" using q by simp
  show "all_full h i"
    unfolding all_full_def
  proof (intro allI impI)
    fix k
    assume k: "k < length (ino_blocks i)"
    show "unat (blk_actual_size (nth_block h i k)) = SIZE"
    proof (cases "Suc k < length (ino_blocks i)")
      case True
      then show ?thesis using d by (simp add: dense_def)
    next
      case False
      then have n: "length (ino_blocks i) = Suc k" using k by simp
      have "contents h i = concat (map (\<lambda>k. block_bytes (nth_block h i k)) [0..<k]) @ block_bytes (nth_block h i k)"
        unfolding contents_def n by simp
      then have "length (contents h i) = SIZE * k + length (block_bytes (nth_block h i k))"
        using contents_prefix [OF d k] by simp
      moreover have "length (block_bytes (nth_block h i k)) = unat (blk_actual_size (nth_block h i k))"
        using dense_nth [OF d k] length_block_bytes by auto
      ultimately show ?thesis using len n by simp
    qed
  qed
qed

lemma put_handled:
  assumes "store_ok H P fs" "file_inode (fs_cache fs) p = Some i" "length buf < 2 ^ 31" "length buf + pos < 2 ^ 44 - SIZE"
    "bc' = (snd (write_state e (crypto_hash H p) buf (of_nat (length buf)) (of_nat pos) i (fs_cache fs)))\<lparr>bc_has_changed := True\<rparr>"
  shows "handle e (Write p buf (of_nat (length buf)) (of_nat pos)) fs = Some (Inr (fs\<lparr>fs_cache := bc'\<rparr>, Status (int (length buf))))"
proof -
  let ?bc = "fs_cache fs" and ?sz = "of_nat (length buf) :: u64" and ?off = "of_nat pos :: u64"
  note f = store_file [OF assms(1,2)]
  have "unat ?sz + unat ?off < 2 ^ 44 - SIZE" using assms(3,4) by (simp add: unat_of_nat take_bit_nat_eq_self)
  then have w: "cache_write e p buf ?sz ?off ?bc = Some (Inr (bc', int (length buf)))"
    using cache_write_cached [OF f(1,3), of ?sz ?off e buf] sint_status [OF assms(3)] by (simp add: assms(5))
  have "bc_size bc' = bc_size ?bc"
    using write_state_rest [of ?bc e "crypto_hash H p" buf ?sz ?off i] by (simp add: same_rest_def assms(5))
  then have "flush_cache e 0 (fs\<lparr>fs_cache := bc'\<rparr>) = Some (Inr (fs\<lparr>fs_cache := bc'\<rparr>, -1))"
    using assms(1) by (simp add: flush_cache_def flush_to_shdw_def store_ok_def)
  then show ?thesis using w sint_status [OF assms(3)] by (simp add: zippyfs_write_def on_cache_def reply_with_def)
qed

lemma store_put:
  assumes "store_ok H P fs" "store_usable H P e p" "cached_files fs p = Some c" "accepts c pos buf"
  shows "\<exists>fs'. handle e (Write p buf (of_nat (length buf)) (of_nat pos)) fs = Some (Inr (fs', Status (int (length buf))))
    \<and> store_ok H P fs' \<and> cached_files fs' = (cached_files fs)(p \<mapsto> overlay pos buf c) \<and> store_room fs \<le> store_room fs'"
proof -
  let ?bc = "fs_cache fs" and ?id = "crypto_hash H p" and ?sz = "of_nat (length buf) :: u64" and ?off = "of_nat pos :: u64"
  obtain i where i: "file_inode ?bc p = Some i" "c = contents (bc_heap ?bc) i" using assms(3) by (auto simp: cached_files_def)
  note f = store_file [OF assms(1) i(1)]
  have w: "dense (bc_heap ?bc) i" "unshared i" "unat (ino_size i) = length c" "length (ino_blocks i) * SIZE < length c + SIZE"
    using f(4) i(2) by (simp_all add: whole_def)
  have lim: "length buf < 2 ^ 31" "length buf + pos < 2 ^ 44 - SIZE" using assms(4) by (simp_all add: accepts_def)
  have u: "unat ?sz = length buf" "unat ?off = pos" using lim by (simp_all add: unat_of_nat take_bit_nat_eq_self)
  have lim': "unat ?sz + unat ?off < 2 ^ 44 - SIZE" using lim u by simp
  obtain i' bc1 where st: "write_state e ?id buf ?sz ?off i ?bc = (i', bc1)" by fastforce
  have le: "pos \<le> length c" using assms(4) by (auto simp: accepts_def)
  have new: "dense (bc_heap bc1) i' \<and> map_of (bc_inode_ptrs bc1) ?id = Some (Some i') \<and> same_meta i' (grown e (?sz + ?off) i)
    \<and> contents (bc_heap bc1) i' = overlay pos buf c \<and> length (ino_blocks i') * SIZE < length (overlay pos buf c) + SIZE"
  proof (cases "pos = length c \<and> pos mod SIZE = 0")
    case True
    then have "length (contents (bc_heap ?bc) i) mod SIZE = 0" unfolding i(2) by (elim conjE) (simp only:)
    note full = whole_full [OF f(4) this]
    have "unat ?off = length (ino_blocks i) * SIZE" using full(2) True i(2) u by simp
    from append_state [OF f(3) w(1) full(1) this _ lim', of buf e] obtain m where m: "m * SIZE < length buf + SIZE"
        "appended ?id c buf (length (ino_blocks i)) (grown e (?sz + ?off) i) ?bc m (i', bc1)" "length buf \<le> m * SIZE"
      using st u i(2) by auto
    have "length (ino_blocks i') * SIZE < length (c @ buf) + SIZE"
      using m full(2) i(2) by (simp add: appended_def add_mult_distrib)
    then show ?thesis using m(2,3) True by (simp add: appended_def overlay_end)
  next
    case False
    then have a: "pos div SIZE * SIZE < length c" "buf \<noteq> []" "pos mod SIZE + length buf \<le> SIZE"
      using assms(4) by (auto simp: accepts_def)
    have "pos div SIZE * SIZE < length (ino_blocks i) * SIZE" using a(1) length_contents_le [OF w(1)] i(2) by simp
    then have j: "unat ?off div SIZE < length (ino_blocks i)" using u by simp
    have pre: "unat ?off \<le> length (contents (bc_heap ?bc) i)" "0 < unat ?sz" "unat ?off mod SIZE + unat ?sz \<le> SIZE" "unat ?sz \<le> length buf"
      using le i(2) a u by simp_all
    note o = write_in_block_state [OF w(1,2) j pre st]
    have c: "contents (bc_heap bc1) i' = overlay pos buf c" using o(5) u i(2) by (simp add: overlay_def)
    moreover have "length (ino_blocks i') * SIZE < length (overlay pos buf c) + SIZE"
      using o(6) w(4) by (simp add: length_overlay [OF le])
    ultimately show ?thesis using o(1,2,4) by simp
  qed
  have sum: "unat (?sz + ?off) = length buf + pos" using lim u by (subst unat_add_small) simp_all
  have "unat (ino_size i') = max (length c) (pos + length buf)"
    using new grown_blocks(3) [of e "?sz + ?off" i] sum w(3) by (simp add: same_meta_def max_def word_le_nat_alt ac_simps)
  moreover note conf = write_state_confined [OF w(2) whole_ptrs [OF f(4)] st]
  ultimately have whole: "whole (bc_heap bc1) i'" using new by (simp add: whole_def length_overlay [OF le])
  let ?bc2 = "bc1\<lparr>bc_has_changed := True\<rparr>"
  have rest: "bc_inode_idx ?bc2 = bc_inode_idx ?bc" "bc_size ?bc2 = bc_size ?bc"
    using write_state_rest [of ?bc e ?id buf ?sz ?off i] st by (simp_all add: same_rest_def)
  have h: "handle e (Write p buf ?sz ?off) fs = Some (Inr (fs\<lparr>fs_cache := ?bc2\<rparr>, Status (int (length buf))))"
    using put_handled [OF assms(1) i(1) lim refl, of e] st by simp
  have apart: "block_ptrs i \<inter> block_ptrs j = {}" if "q \<noteq> p" "file_inode ?bc q = Some j" for q j
    using assms(1) i(1) that unfolding store_ok_def separate_def by blast
  have c2: "confined ?id (i, ?bc) (i', ?bc2)" using conf(1) by (simp add: confined_def)
  have n2: "map_of (bc_inode_idx ?bc2) = (map_of (bc_inode_idx ?bc))(p \<mapsto> ?id)" using f(1) rest(1) by (simp add: fun_upd_idem)
  have n3: "map_of (bc_inode_ptrs ?bc2) ?id = Some (Some i')" "whole (bc_heap ?bc2) i'" "bc_size ?bc2 < MAX_SIZE"
    using new whole rest(2) assms(1) by (simp_all add: store_ok_def)
  note up = store_update [OF assms(1) refl f(2) refl apart c2 n2 n3]
  show ?thesis
    using h up new rest(2) by (intro exI [of _ "fs\<lparr>fs_cache := ?bc2\<rparr>"]) (simp add: store_room_def)
qed

lemma store_make:
  assumes "store_ok H P fs" "store_usable H P e p" "0 < store_room fs" "fs' = fs\<lparr>fs_cache := fst (make_file e p mode True (fs_cache fs))\<rparr>"
  shows "store_ok H P fs' \<and> cached_files fs' = (cached_files fs)(p \<mapsto> []) \<and> store_room fs \<le> Suc (store_room fs')"
proof -
  let ?bc = "fs_cache fs" and ?id = "crypto_hash H p"
  define i where "i = inode_set_dirty (set_mode (e_clk e 1) mode (inode_new (e_hash e) (e_clk e 0) (e_mode0 e) p))"
  define bc' where "bc' = fst (make_file e p mode True ?bc)"
  have id: "get_id i = ?id" using assms(2) by (simp add: i_def get_id_def inode_set_dirty_def set_mode_def Let_def inode_new_def store_usable_def)
  have i: "ino_blocks i = []" "ino_links i = [p]" "ino_size i = 0"
    by (simp_all add: i_def inode_set_dirty_def set_mode_def Let_def inode_new_def)
  have made: "bc' = ?bc\<lparr>bc_size := bc_size ?bc + 1, bc_inode_idx := omap_put p ?id (bc_inode_idx ?bc),
      bc_inode_ptrs := omap_put ?id (Some i) (bc_inode_ptrs ?bc), bc_has_changed := True\<rparr>"
    unfolding bc'_def make_file_def Let_def if_True i_def [symmetric] fst_conv id ..
  have bc': "bc_heap bc' = bc_heap ?bc" "map_of (bc_inode_idx bc') = (map_of (bc_inode_idx ?bc))(p \<mapsto> ?id)"
      "map_of (bc_inode_ptrs bc') = (map_of (bc_inode_ptrs ?bc))(?id \<mapsto> Some i)" "bc_size bc' = bc_size ?bc + 1"
    by (simp_all add: made omap_put_find)
  have room: "Suc (unat (bc_size ?bc)) < unat MAX_SIZE" using assms(3) by (simp add: store_room_def)
  have "unat (bc_size ?bc + 1) = Suc (unat (bc_size ?bc))"
    using room by (subst unat_add_small) (simp_all add: MAX_SIZE_def)
  then have sz: "unat (bc_size bc') = Suc (unat (bc_size ?bc))" using bc'(4) by simp
  have ptrs: "block_ptrs i = {}" by (simp add: block_ptrs_def i(1))
  have whole: "whole (bc_heap bc') i" and cont: "contents (bc_heap bc') i = []"
    using i by (simp_all add: whole_def dense_def inode_inv_def unshared_def contents_def)
  have conf: "confined ?id (i, ?bc) (i, bc')" using bc' ptrs by (simp add: confined_def)
  have p: "p \<in> P" using assms(2) by (simp add: store_usable_def)
  have apart: "block_ptrs i \<inter> block_ptrs j = {}" for j by (simp add: ptrs)
  have ptr: "map_of (bc_inode_ptrs bc') ?id = Some (Some i)" by (simp add: bc'(3))
  have lt: "bc_size bc' < MAX_SIZE" using sz room by (simp add: word_less_nat_alt)
  note up = store_update [OF assms(1) refl p refl apart conf bc'(2) ptr whole lt]
  show ?thesis using up cont sz unfolding assms(4) bc'_def [symmetric] by (simp add: store_room_def)
qed

lemma made_handled:
  "handle e (Mknod p mode) fs = Some (Inr (fs\<lparr>fs_cache := fst (make_file e p mode True (fs_cache fs))\<rparr>, Status 0))"
  "handle e (Mkdir p mode) fs = Some (Inr (fs\<lparr>fs_cache := fst (make_file e p (mode OR S_IFDIR) True (fs_cache fs))\<rparr>, Status 0))"
  by (simp_all add: zippyfs_mknod_def zippyfs_mkdir_def on_cache_def reply_with_def make_file_def Let_def)

lemma store_look:
  assumes "store_ok H P fs" "cached_files fs p = Some c"
  shows "handle e (Open p) fs = Some (Inr (fs, Status 0))"
proof -
  obtain i where "file_inode (fs_cache fs) p = Some i" using assms(2) by (auto simp: cached_files_def)
  from store_file(1) [OF assms(1) this] have "cache_open e p (fs_cache fs) = Some (Inr (fs_cache fs, 0))"
    by (simp add: cache_open_def in_cache_def)
  then show ?thesis by (simp add: zippyfs_open_def on_cache_def reply_with_def)
qed

lemma store_get:
  assumes "store_ok H P fs" "cached_files fs p = Some c" "n < 2 ^ 31" "pos < 2 ^ 44"
  shows "handle e (Read p (of_nat n) (of_nat pos)) fs = Some (Inr (fs, Bytes (take n (drop pos c)) (int n)))"
proof -
  let ?bc = "fs_cache fs"
  obtain i where i: "file_inode ?bc p = Some i" "c = contents (bc_heap ?bc) i" using assms(2) by (auto simp: cached_files_def)
  note f = store_file [OF assms(1) i(1)]
  have u: "unat (of_nat n :: u64) = n" "unat (of_nat pos :: u64) = pos" using assms(3,4) by (simp_all add: unat_of_nat take_bit_nat_eq_self)
  have "dense (bc_heap ?bc) i" "unat (of_nat pos :: u64) < 2 ^ 44" using f(4) assms(4) u by (simp_all add: whole_def)
  from read_cached_dense [OF f(1,3) this, of e "of_nat n"]
  have "cache_read e p (of_nat n) (of_nat pos) ?bc = Some (Inr (?bc, take n (drop pos c), int n))"
    unfolding u sint_status [OF assms(3)] i(2) .
  then show ?thesis
    unfolding handle.simps zippyfs_read_def on_cache_def sint_status [OF assms(3)] by (simp add: reply_with_def)
qed

lemma store_size:
  assumes "store_ok H P fs" "store_usable H P e p" "cached_files fs p = Some c"
  shows "\<exists>st. handle e (Getattr p) fs = Some (Inr (fs, Attributes st 0)) \<and> unat (st_size st) = length c"
proof -
  let ?bc = "fs_cache fs"
  obtain i where i: "file_inode ?bc p = Some i" "c = contents (bc_heap ?bc) i" using assms(3) by (auto simp: cached_files_def)
  note f = store_file [OF assms(1) i(1)]
  have "cache_getattr e p zero_stat ?bc = Some (Inr (?bc, inode_stat i, 0))" using getattr_cached [OF f(1,3)] .
  moreover have "unat (st_size (inode_stat i)) = length c" using f(4) i(2) by (simp add: whole_def inode_stat_def get_size_def)
  ultimately show ?thesis
    using assms(2) by (intro exI [of _ "inode_stat i"]) (simp add: zippyfs_getattr_def on_cache_def reply_with_def store_usable_def)
qed

interpretation zippy: file_store cached_files "store_ok H P" store_room "store_usable H P" handle
  for H :: "char list \<Rightarrow> u8 list" and P :: "string set"
proof unfold_locales
  fix s :: zippyfs and e p mode
  assume "store_ok H P s" "store_usable H P e p" "0 < store_room s"
  then show "\<exists>s'. handle e (Mknod p mode) s = Some (Inr (s', Status 0)) \<and> store_ok H P s'
      \<and> cached_files s' = (cached_files s)(p \<mapsto> []) \<and> store_room s \<le> Suc (store_room s')"
    using store_make made_handled(1) by blast
next
  fix s :: zippyfs and e p mode
  assume "store_ok H P s" "store_usable H P e p" "0 < store_room s"
  then show "\<exists>s'. handle e (Mkdir p mode) s = Some (Inr (s', Status 0)) \<and> store_ok H P s'
      \<and> cached_files s' = (cached_files s)(p \<mapsto> []) \<and> store_room s \<le> Suc (store_room s')"
    using store_make made_handled(2) by blast
next
  fix s :: zippyfs and e p c
  assume "store_ok H P s" "cached_files s p = Some c"
  then show "handle e (Open p) s = Some (Inr (s, Status 0))" by (rule store_look)
next
  fix s :: zippyfs and e p c buf and pos :: nat
  assume "store_ok H P s" "store_usable H P e p" "cached_files s p = Some c" "accepts c pos buf"
  then show "\<exists>s'. handle e (Write p buf (of_nat (length buf)) (of_nat pos)) s = Some (Inr (s', Status (int (length buf))))
      \<and> store_ok H P s' \<and> cached_files s' = (cached_files s)(p \<mapsto> overlay pos buf c) \<and> store_room s \<le> store_room s'"
    by (rule store_put)
next
  fix s :: zippyfs and e p c and n pos :: nat
  assume "store_ok H P s" "cached_files s p = Some c" "n < 2 ^ 31" "pos < 2 ^ 44"
  then show "handle e (Read p (of_nat n) (of_nat pos)) s = Some (Inr (s, Bytes (take n (drop pos c)) (int n)))" by (rule store_get)
next
  fix s :: zippyfs and e p c
  assume "store_ok H P s" "store_usable H P e p" "cached_files s p = Some c"
  then show "\<exists>st. handle e (Getattr p) s = Some (Inr (s, Attributes st 0)) \<and> unat (st_size st) = length c" by (rule store_size)
qed

text \<open>The client's sequence of operations is a session of requests.\<close>

lemma serve_run: "zippy.serve ops fs = run (map (\<lambda>(e, x). (e, request_of x)) ops) fs"
  by (induction ops arbitrary: fs) (auto simp: case_prod_beta intro!: arg_cong2 [where f = and_then])

lemma init_store:
  "inj_on (crypto_hash H) P \<Longrightarrow> size0 < MAX_SIZE \<Longrightarrow> store_ok H P (zippyfs_init size0 junk zip_dir disk)"
  "cached_files (zippyfs_init size0 junk zip_dir disk) = (\<lambda>_. None)"
    "store_room (zippyfs_init size0 junk zip_dir disk) = unat MAX_SIZE - 1 - unat size0"
  by (simp_all add: store_ok_def separate_def file_inode_def cached_files_def store_room_def zippyfs_init_def BlockCache_def Let_def
      fun_eq_iff)

section \<open>Properties\<close>

text \<open>
  (C4) The requests refine a map from paths to bytes. In a state with files without holes, whose
  paths have different ids, every session of creations of files and directories, openings, reads,
  and writes at the end of a file of full blocks or inside one block is answered exactly as the abstract store answers it,
  over any interleaving of files, and afterwards the cache holds exactly the files of the
  abstract store.
\<close>

theorem requests_refine_files:
  assumes "store_ok H P fs" "\<forall>(e, x) \<in> set ops. store_usable H P e (op_path x)"
    and "all_legal (map snd ops) (cached_files fs)" "creates (map snd ops) \<le> store_room fs"
  shows "\<exists>fs' rs. run (map (\<lambda>(e, x). (e, request_of x)) ops) fs = Some (Inr (fs', rs))
    \<and> spec_run (map snd ops) (cached_files fs) = (cached_files fs', rs) \<and> store_ok H P fs'"
  using zippy.serve_refines [OF assms] unfolding serve_run by blast

definition two_hash :: "char list \<Rightarrow> u8 list" where
  "two_hash cs = (if cs = ''/f'' then [1] else [2])"

definition two_env :: env where
  "two_env = sample_env\<lparr>e_hash := two_hash\<rparr>"

lemma two_ids: "crypto_hash two_hash ''/f'' = ''01''" "crypto_hash two_hash ''/g'' = ''02''"
  by (simp_all add: crypto_hash_def Let_def binary_to_hex_eq [of "[]", simplified] sprintf_02X_def hex_digit_def char_of_def
      bit_Suc_0_iff two_hash_def c_str_def)

lemma two_store:
  "store_ok two_hash {''/f'', ''/g''} (zippyfs_init 0 undefined ''d/'' [])" "store_usable two_hash {''/f'', ''/g''} two_env ''/f''"
  "store_usable two_hash {''/f'', ''/g''} two_env ''/g''"
  by (rule init_store) (simp_all add: two_ids MAX_SIZE_def store_usable_def two_env_def)

theorem requests_refine_files_witness:
  "\<exists>fs'. run [(two_env, Mknod ''/f'' 0x81A4), (two_env, Mknod ''/g'' 0x81A4), (two_env, Write ''/f'' [1, 2, 3] 3 0),
      (two_env, Write ''/g'' [7] 1 0), (two_env, Write ''/f'' [9, 9] 2 2), (two_env, Read ''/f'' 10 1)]
      (zippyfs_init 0 undefined ''d/'' []) = Some (Inr (fs', [Status 0, Status 0, Status 3, Status 1, Status 2, Bytes [2, 9, 9] 10]))
    \<and> cached_files fs' = [''/f'' \<mapsto> [1, 2, 9, 9], ''/g'' \<mapsto> [7]]"
proof -
  let ?ops = "[(two_env, Create ''/f'' 0x81A4), (two_env, Create ''/g'' 0x81A4), (two_env, Put ''/f'' 0 [1, 2, 3]),
      (two_env, Put ''/g'' 0 [7]), (two_env, Put ''/f'' 2 [9, 9]), (two_env, Get ''/f'' 1 10)]"
  let ?fs = "zippyfs_init 0 undefined ''d/'' []"
  have init: "cached_files ?fs = (\<lambda>_. None)" "store_room ?fs = 65535"
    by (simp_all add: init_store(2,3) MAX_SIZE_def)
  have "\<forall>(e, x) \<in> set ?ops. store_usable two_hash {''/f'', ''/g''} e (op_path x)" using two_store(2,3) by simp
  moreover have "all_legal (map snd ?ops) (cached_files ?fs)" by (simp add: init accepts_def overlay_def)
  moreover have "creates (map snd ?ops) \<le> store_room ?fs" by (simp add: init)
  ultimately obtain fs' rs where r: "run (map (\<lambda>(e, x). (e, request_of x)) ?ops) ?fs = Some (Inr (fs', rs))"
      "spec_run (map snd ?ops) (cached_files ?fs) = (cached_files fs', rs)"
    using requests_refine_files [OF two_store(1), of ?ops] by blast
  have "spec_run (map snd ?ops) (cached_files ?fs) = ([''/f'' \<mapsto> [1, 2, 9, 9], ''/g'' \<mapsto> [7]],
      [Status 0, Status 0, Status 3, Status 1, Status 2, Bytes [2, 9, 9] 10])"
    by (simp add: init overlay_def fun_eq_iff)
  with r(2) have "cached_files fs' = [''/f'' \<mapsto> [1, 2, 9, 9], ''/g'' \<mapsto> [7]]"
      "rs = [Status 0, Status 0, Status 3, Status 1, Status 2, Bytes [2, 9, 9] 10]"
    by simp_all
  then show ?thesis using r(1) by auto
qed

text \<open>
  A file that a client makes and copies block by block, as the kernel does with a file of
  any size below 16 TiB, has the bytes of the pieces: the writes succeed, every later read of any
  range gets its bytes, \<open>getattr\<close> tells the size, and no other file changes.
\<close>

theorem copied_in_blocks:
  assumes "store_ok H P fs" "\<forall>e \<in> set (e0 # es). store_usable H P e p" "0 < store_room fs" "length es = length bs"
    and "\<forall>k. Suc k < length bs \<longrightarrow> length (bs ! k) = SIZE" "\<forall>b \<in> set bs. length b \<le> SIZE" "length bs * SIZE < 2 ^ 44 - SIZE"
  shows "\<exists>fs' rs. run ((e0, Mknod p mode) # map (\<lambda>(k, e). (e, Write p (bs ! k) (of_nat (length (bs ! k))) (of_nat (k * SIZE))))
        (zip [0..<length bs] es)) fs = Some (Inr (fs', Status 0 # rs))
    \<and> (\<forall>n pos. n < 2 ^ 31 \<longrightarrow> pos < 2 ^ 44 \<longrightarrow>
         handle e0 (Read p (of_nat n) (of_nat pos)) fs' = Some (Inr (fs', Bytes (take n (drop pos (concat bs))) (int n))))
    \<and> (\<exists>st. handle e0 (Getattr p) fs' = Some (Inr (fs', Attributes st 0)) \<and> unat (st_size st) = length (concat bs))
    \<and> (\<forall>q. q \<noteq> p \<longrightarrow> cached_files fs' q = cached_files fs q)"
proof -
  have use: "store_usable H P e0 p" "\<forall>e \<in> set es. store_usable H P e p" using assms(2) by simp_all
  obtain fs1 where fs1: "handle e0 (Mknod p mode) fs = Some (Inr (fs1, Status 0))" "store_ok H P fs1" "cached_files fs1 = (cached_files fs)(p \<mapsto> [])"
    using zippy.create [OF assms(1) use(1) assms(3)] by blast
  have "cached_files fs1 p = Some []" "length ([]::u8 list) mod SIZE = 0" "length ([]::u8 list) + length bs * SIZE < 2 ^ 44 - SIZE"
    using fs1(3) assms(7) by simp_all
  from zippy.copy_blocks [OF fs1(2) use(2) this(1,2) assms(4-6) this(3)] obtain fs2 rs where
    fs2: "run (map (\<lambda>(e, x). (e, request_of x)) (map (\<lambda>(k, e). (e, Put p (k * SIZE) (bs ! k))) (zip [0..<length bs] es))) fs1 = Some (Inr (fs2, rs))"
      "store_ok H P fs2" "cached_files fs2 = (cached_files fs1)(p \<mapsto> concat bs)"
    unfolding serve_run by auto
  have writes: "map (\<lambda>(e, x). (e, request_of x)) (map (\<lambda>(k, e). (e, Put p (k * SIZE) (bs ! k))) (zip [0..<length bs] es))
      = map (\<lambda>(k, e). (e, Write p (bs ! k) (of_nat (length (bs ! k))) (of_nat (k * SIZE)))) (zip [0..<length bs] es)"
    by (auto simp del: of_nat_mult)
  have "run ((e0, Mknod p mode) # map (\<lambda>(k, e). (e, Write p (bs ! k) (of_nat (length (bs ! k))) (of_nat (k * SIZE))))
        (zip [0..<length bs] es)) fs = Some (Inr (fs2, Status 0 # rs))"
    using fs1(1) fs2(1) [unfolded writes] by (simp del: of_nat_mult)
  moreover have mine: "cached_files fs2 p = Some (concat bs)" using fs2(3) by simp
  ultimately show ?thesis
    using zippy.get [OF fs2(2) use(1) mine] zippy.size [OF fs2(2) use(1) mine] fs1(3) fs2(3)
    by (intro exI [of _ fs2] exI [of _ rs]) simp
qed

theorem copied_in_blocks_witness:
  "\<exists>fs'. handle two_env (Read ''/f'' 3 4095) fs' = Some (Inr (fs', Bytes [1, 2, 2] 3))"
proof -
  let ?bs = "[replicate SIZE 1, [2, 2, 2]] :: u8 list list"
  have room: "0 < store_room (zippyfs_init 0 undefined ''d/'' [])" by (simp add: init_store(3) MAX_SIZE_def)
  have use: "\<forall>e \<in> set (two_env # [two_env, two_env]). store_usable two_hash {''/f'', ''/g''} e ''/f''" using two_store(2) by simp
  have parts: "length [two_env, two_env] = length ?bs" "\<forall>k. Suc k < length ?bs \<longrightarrow> length (?bs ! k) = SIZE"
      "\<forall>b \<in> set ?bs. length b \<le> SIZE" "length ?bs * SIZE < 2 ^ 44 - SIZE"
    by simp_all
  obtain fs' where "\<forall>n pos. n < 2 ^ 31 \<longrightarrow> pos < 2 ^ 44 \<longrightarrow>
      handle two_env (Read ''/f'' (of_nat n) (of_nat pos)) fs' = Some (Inr (fs', Bytes (take n (drop pos (concat ?bs))) (int n)))"
    using copied_in_blocks [OF two_store(1) use room parts, of 0] by blast
  from this [rule_format, of 3 4095]
  have "handle two_env (Read ''/f'' 3 4095) fs' = Some (Inr (fs', Bytes (take 3 (drop 4095 (concat ?bs))) 3))" by simp
  moreover have "drop 4095 (replicate SIZE (1::u8)) = [1]" by (simp add: drop_replicate)
  ultimately show ?thesis by auto
qed

end
