(* ===== verification/Truncation.thy ===== *)
theory Truncation imports Store_Refine
begin

text \<open>
  \<open>truncate\<close> changes the size of a file and nothing else: its blocks stay, so the attributes and
  the bytes of the file come apart.
\<close>

lemma truncate_handled:
  assumes "store_ok H P fs" "file_inode (fs_cache fs) p = Some i"
    and "bc' = (put_inode (crypto_hash H p) (set_size (e_clk e 0) n i) (fs_cache fs))\<lparr>bc_has_changed := True\<rparr>"
  shows "handle e (Truncate p n) fs = Some (Inr (fs\<lparr>fs_cache := bc'\<rparr>, Status 0))"
proof -
  note f = store_file [OF assms(1,2)]
  have "in_cache p (fs_cache fs) = 0" using f(1) by (simp add: in_cache_def)
  then have "cache_truncate e p n (fs_cache fs) = Inr (bc', 0)"
    using on_inode_cached [OF f(1,3)] by (simp add: cache_truncate_def assms(3))
  moreover have "bc_size bc' < MAX_SIZE" using assms(1) by (simp add: assms(3) put_inode_def store_ok_def)
  ultimately show ?thesis
    by (simp add: zippyfs_truncate_def on_cache_def reply_with_def flush_cache_def flush_to_shdw_def)
qed

text \<open>
  (C27) Truncating a file keeps its bytes. After a \<open>truncate\<close> to any size, shorter or longer than
  the file, \<open>getattr\<close> tells the new size, but a read of any range still gets the bytes that were
  there: those behind a smaller size come back when the file grows again, where zeros should be,
  and a larger size has no bytes behind the old end. No other file changes.
\<close>

theorem truncate_keeps_bytes:
  assumes "store_ok H P fs" "store_usable H P e p" "cached_files fs p = Some c"
  shows "\<exists>fs' st. handle e (Truncate p n) fs = Some (Inr (fs', Status 0)) \<and> cached_files fs' = cached_files fs
    \<and> handle e' (Getattr p) fs' = Some (Inr (fs', Attributes st 0)) \<and> st_size st = n
    \<and> (\<forall>k pos. k < 2 ^ 31 \<longrightarrow> pos < 2 ^ 44 \<longrightarrow>
         handle e' (Read p (of_nat k) (of_nat pos)) fs' = Some (Inr (fs', Bytes (take k (drop pos c)) (int k))))"
proof -
  let ?bc = "fs_cache fs" and ?id = "crypto_hash H p"
  obtain i where i: "file_inode ?bc p = Some i" "c = contents (bc_heap ?bc) i" using assms(3) by (auto simp: cached_files_def)
  note f = store_file [OF assms(1) i(1)]
  define i' where "i' = set_size (e_clk e 0) n i"
  define bc' where "bc' = (put_inode ?id i' ?bc)\<lparr>bc_has_changed := True\<rparr>"
  let ?fs = "fs\<lparr>fs_cache := bc'\<rparr>"
  have tr: "handle e (Truncate p n) fs = Some (Inr (?fs, Status 0))"
    using truncate_handled [OF assms(1) i(1) refl, of e n] by (simp add: bc'_def i'_def)
  have keep: "ino_blocks i' = ino_blocks i" "ino_links i' = ino_links i" "ino_size i' = n" by (simp_all add: i'_def set_size_def update_mtime_def)
  have bc': "bc_heap bc' = bc_heap ?bc" "map_of (bc_inode_idx bc') p = Some ?id" "map_of (bc_inode_ptrs bc') ?id = Some (Some i')"
    using f(1) by (simp_all add: bc'_def put_inode_def omap_put_find)
  have d: "dense (bc_heap bc') i'" "contents (bc_heap bc') i' = c"
    using f(4) i(2) dense_same_blocks [OF keep(1,2)] by (simp_all add: bc'(1) whole_def)
  have "cached_files ?fs q = cached_files fs q" for q
  proof (cases "q = p")
    case True
    then show ?thesis using bc'(2,3) d(2) i by (simp add: cached_files_def file_inode_def [of bc'])
  next
    case False
    have "file_inode bc' q = file_inode ?bc q"
      by (rule other_file [OF assms(1) f(2) False]) (use f(1) in \<open>simp_all add: bc'_def put_inode_def omap_put_find fun_upd_idem\<close>)
    then show ?thesis by (simp add: cached_files_def bc'(1))
  qed
  then have "cached_files ?fs = cached_files fs" by blast
  moreover have "handle e' (Getattr p) ?fs = Some (Inr (?fs, Attributes (inode_stat i') 0))"
    using getattr_cached [OF bc'(2,3)] assms(2) by (simp add: zippyfs_getattr_def on_cache_def reply_with_def store_usable_def)
  moreover have "st_size (inode_stat i') = n" using keep(3) by (simp add: inode_stat_def get_size_def)
  moreover have "handle e' (Read p (of_nat k) (of_nat pos)) ?fs = Some (Inr (?fs, Bytes (take k (drop pos c)) (int k)))"
    if kp: "k < 2 ^ 31" "pos < 2 ^ 44" for k pos
  proof -
    have u: "unat (of_nat k :: u64) = k" "unat (of_nat pos :: u64) = pos" using kp by (simp_all add: unat_of_nat take_bit_nat_eq_self)
    have "unat (of_nat pos :: u64) < 2 ^ 44" using kp(2) u by simp
    from read_cached_dense [OF bc'(2,3) d(1) this, of e' "of_nat k"]
    have "cache_read e' p (of_nat k) (of_nat pos) bc' = Some (Inr (bc', take k (drop pos c), int k))"
      unfolding u sint_status [OF kp(1)] d(2) .
    then show ?thesis
      unfolding handle.simps zippyfs_read_def on_cache_def sint_status [OF kp(1)] by (simp add: reply_with_def)
  qed
  ultimately show ?thesis using tr by blast
qed

theorem truncate_keeps_bytes_witness:
  "\<exists>fs fs' st. cached_files fs ''/f'' = Some [1, 2, 3] \<and> handle two_env (Truncate ''/f'' 1) fs = Some (Inr (fs', Status 0))
    \<and> handle two_env (Getattr ''/f'') fs' = Some (Inr (fs', Attributes st 0)) \<and> st_size st = 1
    \<and> handle two_env (Read ''/f'' 2 1) fs' = Some (Inr (fs', Bytes [2, 3] 2))"
proof -
  let ?ops = "[(two_env, Create ''/f'' 0x81A4), (two_env, Put ''/f'' 0 [1, 2, 3])]" and ?fs = "zippyfs_init 0 undefined ''d/'' []"
  have init: "cached_files ?fs = (\<lambda>_. None)" "store_room ?fs = 65535" by (simp_all add: init_store(2,3) MAX_SIZE_def)
  have "\<forall>(e, x) \<in> set ?ops. store_usable two_hash {''/f'', ''/g''} e (op_path x)" using two_store(2) by simp
  moreover have "all_legal (map snd ?ops) (cached_files ?fs)" by (simp add: init accepts_def)
  moreover have "creates (map snd ?ops) \<le> store_room ?fs" by (simp add: init)
  ultimately obtain fs rs where fs: "store_ok two_hash {''/f'', ''/g''} fs" "spec_run (map snd ?ops) (cached_files ?fs) = (cached_files fs, rs)"
    using zippy.serve_refines [OF two_store(1), of ?ops] by blast
  have "cached_files fs = [''/f'' \<mapsto> [1, 2, 3]]" using fs(2) by (auto simp: init overlay_def)
  then have c: "cached_files fs ''/f'' = Some [1, 2, 3]" by simp
  obtain fs' st where t: "handle two_env (Truncate ''/f'' 1) fs = Some (Inr (fs', Status 0))"
      "handle two_env (Getattr ''/f'') fs' = Some (Inr (fs', Attributes st 0))" "st_size st = 1"
      "\<And>k pos. k < 2 ^ 31 \<Longrightarrow> pos < 2 ^ 44 \<Longrightarrow>
         handle two_env (Read ''/f'' (of_nat k) (of_nat pos)) fs' = Some (Inr (fs', Bytes (take k (drop pos [1, 2, 3])) (int k)))"
    using truncate_keeps_bytes [OF fs(1) two_store(2) c, of 1 two_env] by blast
  show ?thesis using c t(1-3) t(4) [of 2 1] by (intro exI [of _ fs] exI [of _ fs'] exI [of _ st]) simp
qed

end
