(* ===== verification/Unsaved.thy ===== *)
theory Unsaved imports Store_Refine Remount
begin

text \<open>
  Files between their creation and the flush. As long as nothing was loaded from disk, the dirty
  rows of the cache have exactly the blocks of its files: creations and writes keep this
  (locale \<open>unsaved_store\<close>), so the flush at the unmount writes a tree file with every byte of
  every file.
\<close>

section \<open>What a write records\<close>

text \<open>The dirty row of an inode has exactly its blocks.\<close>

definition recorded :: "string \<Rightarrow> inode \<Rightarrow> block_cache \<Rightarrow> bool" where
  "recorded ident i bc \<longleftrightarrow> (\<forall>bid. map_of (row ident (bc_dirty_block bc)) bid = map_of (ino_blocks i) bid)"

text \<open>A step of a write keeps the name of its inode and the rows of the others.\<close>

definition same_others :: "string \<Rightarrow> inode \<times> block_cache \<Rightarrow> inode \<times> block_cache \<Rightarrow> bool" where
  "same_others ident s s' \<longleftrightarrow> ino_path (fst s') = ino_path (fst s) \<and> ino_deleted (fst s') = ino_deleted (fst s)
     \<and> (\<forall>q. q \<noteq> ident \<longrightarrow> row q (bc_dirty_block (snd s')) = row q (bc_dirty_block (snd s)))"

lemma write_block_recorded:
  assumes "write_block e ident buf k bid cur bs amt i bc = Inr (i', bc')" "recorded ident i bc"
  shows "recorded ident i' bc'" "same_others ident (i, bc) (i', bc')" "map_of (bc_inode_ptrs bc') ident = Some (Some i')"
proof -
  have "recorded ident i' bc' \<and> same_others ident (i, bc) (i', bc') \<and> map_of (bc_inode_ptrs bc') ident = Some (Some i')"
  proof (cases "map_of (ino_blocks i) bid")
    case None
    then show ?thesis
      using assms by (auto simp: write_block_def has_block_def add_block_def update_mtime_def Let_def recorded_def same_others_def
          row_put_row omap_put_find update_conv)
  next
    case (Some p)
    then show ?thesis
      using assms by (auto simp: write_block_def has_block_def get_block_def recorded_def same_others_def row_put_row omap_put_find)
  qed
  then show "recorded ident i' bc'" "same_others ident (i, bc) (i', bc')" "map_of (bc_inode_ptrs bc') ident = Some (Some i')" by blast+
qed

lemma write_rounds_recorded:
  assumes "recorded ident (fst s) (snd s)" "map_of (bc_inode_ptrs (snd s)) ident = Some (Some (fst s))"
    "fold (write_round e ident buf n offset b0) ks s = (i', bc')"
  shows "recorded ident i' bc' \<and> same_others ident s (i', bc') \<and> map_of (bc_inode_ptrs bc') ident = Some (Some i')"
  using assms
proof (induction ks arbitrary: s)
  case (Cons k ks)
  obtain i bc where s: "s = (i, bc)" by (cases s)
  obtain i1 bc1 where w: "write_round e ident buf n offset b0 k s = (i1, bc1)"
      "write_block e ident buf k (of_nat (b0 + k)) (of_nat (min (k * SIZE) n))
         (of_nat (min ((k + 1) * SIZE) n - min (k * SIZE) n)) (first_amt offset k) i bc = Inr (i1, bc1)"
    using write_round_block s by blast
  have "recorded ident i bc" using Cons.prems(1) s by simp
  note r = write_block_recorded [OF w(2) this]
  have "recorded ident i' bc' \<and> same_others ident (i1, bc1) (i', bc') \<and> map_of (bc_inode_ptrs bc') ident = Some (Some i')"
    using Cons.IH [of "(i1, bc1)"] r Cons.prems(3) w(1) by simp
  then show ?case using r(2) s by (simp add: same_others_def)
qed (simp add: same_others_def)

lemma write_state_recorded:
  assumes "recorded ident i bc" "write_state e ident buf sz offset i bc = (i', bc')"
  shows "recorded ident i' bc'" "ino_path i' = ino_path i" "ino_deleted i' = 0" "map_of (bc_inode_ptrs bc') ident = Some (Some i')"
    "\<And>q. q \<noteq> ident \<Longrightarrow> row q (bc_dirty_block bc') = row q (bc_dirty_block bc)"
proof -
  let ?i = "grown e (sz + offset) i" and ?bc = "put_inode ident (grown e (sz + offset) i) bc"
  obtain m where m: "fold (write_round (sub_env 2 e) ident buf (unat sz) offset (unat offset div SIZE)) [0..<m] (?i, ?bc) = (i', bc')"
    using write_state_rounds [OF refl, of e ident buf sz offset i bc] assms(2) by metis
  have "recorded ident ?i ?bc" "map_of (bc_inode_ptrs ?bc) ident = Some (Some ?i)"
    using assms(1) by (simp_all add: recorded_def put_inode_def grown_blocks(1) omap_put_find)
  then have "recorded ident i' bc' \<and> same_others ident (?i, ?bc) (i', bc') \<and> map_of (bc_inode_ptrs bc') ident = Some (Some i')"
    using write_rounds_recorded [of ident "(?i, ?bc)", OF _ _ m] by simp
  then show "recorded ident i' bc'" "ino_path i' = ino_path i" "ino_deleted i' = 0" "map_of (bc_inode_ptrs bc') ident = Some (Some i')"
    "\<And>q. q \<noteq> ident \<Longrightarrow> row q (bc_dirty_block bc') = row q (bc_dirty_block bc)"
    by (simp_all add: same_others_def put_inode_def grown_blocks(4,5))
qed

section \<open>Files that are not on disk yet\<close>

definition fresh_file :: "string \<Rightarrow> string \<Rightarrow> inode \<Rightarrow> block_cache \<Rightarrow> bool" where
  "fresh_file ident p i bc \<longleftrightarrow> recorded ident i bc \<and> ino_path i = p \<and> ino_deleted i = 0 \<and> 0 < ino_ul_mtime i"

definition unsaved_files :: "(char list \<Rightarrow> u8 list) \<Rightarrow> zippyfs \<Rightarrow> bool" where
  "unsaved_files H fs \<longleftrightarrow> fs_disk fs = [] \<and> (let bc = fs_cache fs in
     (\<forall>p i. file_inode bc p = Some i \<longrightarrow> fresh_file (crypto_hash H p) p i bc)
     \<and> (\<forall>ident. (\<forall>p. file_inode bc p \<noteq> None \<longrightarrow> crypto_hash H p \<noteq> ident) \<longrightarrow> row ident (bc_dirty_block bc) = [])
     \<and> length (bc_inode_idx bc) \<le> unat (bc_size bc) \<and> (bc_inode_idx bc \<noteq> [] \<longrightarrow> bc_has_changed bc))"

definition ticking :: "env \<Rightarrow> bool" where
  "ticking e \<longleftrightarrow> (\<forall>k j. 0 < get_time (e_clk e k j))"

text \<open>The file of one path is replaced by a fresh one.\<close>

lemma unsaved_update:
  assumes ok: "store_ok H P fs" "unsaved_files H fs" "p \<in> P" and bc: "bc = fs_cache fs" and id: "ident = crypto_hash H p"
    and idx: "map_of (bc_inode_idx bc') = (map_of (bc_inode_idx bc))(p \<mapsto> ident)" "length (bc_inode_idx bc') \<le> unat (bc_size bc')"
    and ptrs: "map_of (bc_inode_ptrs bc') ident = Some (Some i')" "\<And>q. q \<noteq> ident \<Longrightarrow> map_of (bc_inode_ptrs bc') q = map_of (bc_inode_ptrs bc) q"
    and new: "fresh_file ident p i' bc'" "\<And>q. q \<noteq> ident \<Longrightarrow> row q (bc_dirty_block bc') = row q (bc_dirty_block bc)" "bc_has_changed bc'"
  shows "unsaved_files H (fs\<lparr>fs_cache := bc'\<rparr>)"
proof -
  have other: "file_inode bc' q = file_inode bc q" if "q \<noteq> p" for q
    using other_file [OF ok(1,3) that, of bc'] idx(1) ptrs(2) bc id by simp
  have mine: "file_inode bc' p = Some i'" using idx(1) ptrs(1) by (simp add: file_inode_def)
  have fresh: "fresh_file (crypto_hash H q) q j bc'" if q: "file_inode bc' q = Some j" for q j
  proof (cases "q = p")
    case True
    then show ?thesis using q mine new(1) id by simp
  next
    case False
    then have j: "file_inode bc q = Some j" using q other by simp
    then have f: "fresh_file (crypto_hash H q) q j bc" using ok(2) bc by (simp add: unsaved_files_def Let_def)
    have "q \<in> P" "inj_on (crypto_hash H) P" using store_file(2) [OF ok(1)] j bc ok(1) by (auto simp: store_ok_def)
    then have "crypto_hash H q \<noteq> ident" using ok(3) False id by (auto dest: inj_onD)
    then show ?thesis using f new(2) by (simp add: fresh_file_def recorded_def)
  qed
  have none: "row a (bc_dirty_block bc') = []" if a: "\<forall>q. file_inode bc' q \<noteq> None \<longrightarrow> crypto_hash H q \<noteq> a" for a
  proof -
    have "a \<noteq> ident" using a mine id by auto
    moreover have "\<forall>q. file_inode bc q \<noteq> None \<longrightarrow> crypto_hash H q \<noteq> a"
    proof (intro allI impI)
      fix q
      assume q: "file_inode bc q \<noteq> None"
      show "crypto_hash H q \<noteq> a" using a q other [of q] mine by (cases "q = p") auto
    qed
    then have "row a (bc_dirty_block bc) = []" using ok(2) bc by (simp add: unsaved_files_def Let_def)
    ultimately show ?thesis using new(2) by simp
  qed
  have "fs_disk fs = []" using ok(2) by (simp add: unsaved_files_def)
  then show ?thesis using fresh none idx(2) new(3) by (simp add: unsaved_files_def Let_def)
qed

lemma files_unsaved_put:
  assumes "store_ok H P fs" "unsaved_files H fs" "store_usable H P e p" "ticking e" "cached_files fs p = Some c" "accepts c pos buf"
    "handle e (Write p buf (of_nat (length buf)) (of_nat pos)) fs = Some (Inr (fs', r))"
  shows "unsaved_files H fs'"
proof -
  let ?bc = "fs_cache fs" and ?id = "crypto_hash H p"
  obtain i where i: "file_inode ?bc p = Some i" using assms(5) by (auto simp: cached_files_def)
  note f = store_file [OF assms(1) i]
  have lim: "length buf < 2 ^ 31" "length buf + pos < 2 ^ 44 - SIZE" using assms(6) by (simp_all add: accepts_def)
  obtain i' bc1 where st: "write_state e ?id buf (of_nat (length buf)) (of_nat pos) i ?bc = (i', bc1)" by fastforce
  let ?bc2 = "bc1\<lparr>bc_has_changed := True\<rparr>"
  have fs': "fs' = fs\<lparr>fs_cache := ?bc2\<rparr>" using put_handled [OF assms(1) i lim refl, of e] st assms(7) by simp
  have old: "fresh_file ?id p i ?bc" using assms(2) i by (simp add: unsaved_files_def Let_def)
  then have "recorded ?id i ?bc" by (simp add: fresh_file_def)
  note w = write_state_recorded [OF this st]
  have "0 < ino_ul_mtime i'"
    using write_state_mtime [of e i ?id buf "of_nat (length buf)" "of_nat pos" ?bc] assms(4) old st by (simp add: ticking_def fresh_file_def)
  then have new: "fresh_file ?id p i' ?bc2" using w(1-3) old by (simp add: fresh_file_def recorded_def)
  have rest: "bc_inode_idx ?bc2 = bc_inode_idx ?bc" "bc_size ?bc2 = bc_size ?bc"
    using write_state_rest [of ?bc e ?id buf "of_nat (length buf)" "of_nat pos" i] st by (simp_all add: same_rest_def)
  have "confined ?id (i, ?bc) (i', bc1)"
    using write_state_confined [OF _ whole_ptrs [OF f(4)] st] f(4) by (simp add: whole_def)
  then have ptrs: "\<And>q. q \<noteq> ?id \<Longrightarrow> map_of (bc_inode_ptrs ?bc2) q = map_of (bc_inode_ptrs ?bc) q" by (simp add: confined_def)
  have "length (bc_inode_idx ?bc) \<le> unat (bc_size ?bc)" using assms(2) by (simp add: unsaved_files_def Let_def)
  then have idx: "map_of (bc_inode_idx ?bc2) = (map_of (bc_inode_idx ?bc))(p \<mapsto> ?id)" "length (bc_inode_idx ?bc2) \<le> unat (bc_size ?bc2)"
    using f(1) rest by (simp_all add: fun_upd_idem)
  have "map_of (bc_inode_ptrs ?bc2) ?id = Some (Some i')" using w(4) by simp
  then show ?thesis
    unfolding fs' using unsaved_update [OF assms(1,2) f(2) refl refl idx _ ptrs new] w(5) by simp
qed

lemma length_omap_put: "map_of m k = None \<Longrightarrow> length (omap_put k v m) = Suc (length m)"
  by (induction k v m rule: omap_put.induct) (auto split: if_splits)

lemma unsaved_made:
  assumes "store_ok H P fs" "unsaved_files H fs" "store_usable H P e p" "ticking e" "0 < store_room fs" "cached_files fs p = None"
    "fs' = fs\<lparr>fs_cache := fst (make_file e p mode True (fs_cache fs))\<rparr>"
  shows "unsaved_files H fs'"
proof -
  let ?bc = "fs_cache fs" and ?id = "crypto_hash H p"
  define i where "i = inode_set_dirty (set_mode (e_clk e 1) mode (inode_new (e_hash e) (e_clk e 0) (e_mode0 e) p))"
  define bc' where "bc' = fst (make_file e p mode True ?bc)"
  have e: "e_hash e = H" "p \<in> P" using assms(3) by (simp_all add: store_usable_def)
  have i: "get_id i = ?id" "ino_blocks i = []" "ino_path i = p" "ino_deleted i = 0"
    using e by (simp_all add: i_def get_id_def inode_set_dirty_def set_mode_def Let_def inode_new_def)
  have t: "0 < ino_ul_mtime i" using assms(4) by (simp add: i_def inode_set_dirty_def set_mode_def Let_def ticking_def)
  have made: "bc' = ?bc\<lparr>bc_size := bc_size ?bc + 1, bc_inode_idx := omap_put p ?id (bc_inode_idx ?bc),
      bc_inode_ptrs := omap_put ?id (Some i) (bc_inode_ptrs ?bc), bc_has_changed := True\<rparr>"
    unfolding bc'_def make_file_def Let_def if_True i_def [symmetric] fst_conv i(1) ..
  have fs': "fs' = fs\<lparr>fs_cache := bc'\<rparr>" by (simp add: assms(7) bc'_def)
  have none: "map_of (bc_inode_idx ?bc) p = None"
  proof (cases "map_of (bc_inode_idx ?bc) p")
    case (Some a)
    then show ?thesis using store_entry [OF assms(1) Some] assms(6) by (simp add: cached_files_def)
  qed simp
  have "Suc (unat (bc_size ?bc)) < unat MAX_SIZE" using assms(5) by (simp add: store_room_def)
  then have "unat (bc_size ?bc + 1) = Suc (unat (bc_size ?bc))" by (subst unat_add_small) (simp_all add: MAX_SIZE_def)
  moreover have "length (bc_inode_idx ?bc) \<le> unat (bc_size ?bc)" using assms(2) by (simp add: unsaved_files_def Let_def)
  ultimately have idx: "map_of (bc_inode_idx bc') = (map_of (bc_inode_idx ?bc))(p \<mapsto> ?id)" "length (bc_inode_idx bc') \<le> unat (bc_size bc')"
    by (simp_all add: made omap_put_find length_omap_put [OF none])
  have "\<forall>q. file_inode ?bc q \<noteq> None \<longrightarrow> crypto_hash H q \<noteq> ?id"
  proof (intro allI impI)
    fix q
    assume q: "file_inode ?bc q \<noteq> None"
    then have "q \<in> P" "q \<noteq> p" using store_file(2) [OF assms(1)] none by (auto simp: file_inode_def)
    then show "crypto_hash H q \<noteq> ?id" using assms(1) e(2) by (auto simp: store_ok_def dest: inj_onD)
  qed
  then have "row ?id (bc_dirty_block ?bc) = []" using assms(2) by (simp add: unsaved_files_def Let_def)
  then have new: "fresh_file ?id p i bc'" using i t by (simp add: fresh_file_def recorded_def made)
  show ?thesis
    unfolding fs' using unsaved_update [OF assms(1,2) e(2) refl refl idx _ _ new]
    by (simp add: made omap_put_find)
qed

lemma files_unsaved_create:
  assumes "store_ok H P fs" "unsaved_files H fs" "store_usable H P e p" "ticking e" "0 < store_room fs" "cached_files fs p = None"
    "q = Mknod p mode \<or> q = Mkdir p mode" "handle e q fs = Some (Inr (fs', r))"
  shows "unsaved_files H fs'"
  using assms(7)
proof
  assume "q = Mknod p mode"
  then show ?thesis using assms(8) unsaved_made [OF assms(1-6)] made_handled(1) [of e p mode fs] by simp
next
  assume "q = Mkdir p mode"
  then show ?thesis using assms(8) unsaved_made [OF assms(1-6)] made_handled(2) [of e p mode fs] by simp
qed

interpretation zippy_unsaved: unsaved_store cached_files "store_ok H P" store_room "store_usable H P" handle "unsaved_files H" ticking
  for H :: "char list \<Rightarrow> u8 list" and P :: "string set"
proof unfold_locales
  fix s s' :: zippyfs and e p q mode r
  assume "store_ok H P s" "unsaved_files H s" "store_usable H P e p" "ticking e" "0 < store_room s" "cached_files s p = None"
    "q = Mknod p mode \<or> q = Mkdir p mode" "handle e q s = Some (Inr (s', r))"
  then show "unsaved_files H s'" by (rule files_unsaved_create)
next
  fix s s' :: zippyfs and e p c buf r and pos :: nat
  assume "store_ok H P s" "unsaved_files H s" "store_usable H P e p" "ticking e" "cached_files s p = Some c" "accepts c pos buf"
    "handle e (Write p buf (of_nat (length buf)) (of_nat pos)) s = Some (Inr (s', r))"
  then show "unsaved_files H s'" by (rule files_unsaved_put)
qed

section \<open>The flush at the unmount\<close>

text \<open>Paths and ids as the index can hold them.\<close>

definition storable :: "(char list \<Rightarrow> u8 list) \<Rightarrow> string set \<Rightarrow> bool" where
  "storable H P \<longleftrightarrow> inj_on (crypto_hash H) P
     \<and> (\<forall>p \<in> P. nul_free p \<and> 1 < length p \<and> length p < 2 ^ 32 \<and> length (crypto_hash H p) < HASH_SIZE)"

lemma sum_list_bound: "\<forall>x \<in> set xs. f x \<le> (b :: nat) \<Longrightarrow> sum_list (map f xs) \<le> length xs * b"
  by (induction xs) auto

lemma unsaved_entry:
  assumes "store_ok H P fs" "unsaved_files H fs" "(p, ident) \<in> set (bc_inode_idx (fs_cache fs))" "cache_wf (fs_cache fs)"
  shows "p \<in> P" "ident = crypto_hash H p"
    "\<exists>i. file_inode (fs_cache fs) p = Some i \<and> map_of (bc_inode_ptrs (fs_cache fs)) ident = Some (Some i)
      \<and> whole (bc_heap (fs_cache fs)) i \<and> fresh_file ident p i (fs_cache fs)"
proof -
  let ?bc = "fs_cache fs"
  have "distinct (map fst (bc_inode_idx ?bc))" using assms(4) by (simp add: cache_wf_def omap.ok_distinct)
  then have m: "map_of (bc_inode_idx ?bc) p = Some ident" using assms(3) by simp
  then obtain i where i: "p \<in> P" "ident = crypto_hash H p" "file_inode ?bc p = Some i" using store_entry [OF assms(1)] by blast
  have "fresh_file (crypto_hash H p) p i ?bc" using assms(2) i(3) by (simp add: unsaved_files_def Let_def)
  then show "p \<in> P" "ident = crypto_hash H p"
    "\<exists>i. file_inode ?bc p = Some i \<and> map_of (bc_inode_ptrs ?bc) ident = Some (Some i) \<and> whole (bc_heap ?bc) i \<and> fresh_file ident p i ?bc"
    using i store_file(3,4) [OF assms(1) i(3)] by auto
qed

lemma unsaved_rows:
  assumes "store_ok H P fs" "unsaved_files H fs" "cache_wf (fs_cache fs)"
  shows "SIZE * row_sum (\<lambda>x. 1) (bc_dirty_block (fs_cache fs)) < 2 ^ 63"
    "(ident, r) \<in> set (bc_dirty_block (fs_cache fs)) \<Longrightarrow> (bid, b) \<in> set r \<Longrightarrow> block_inv (bc_heap (fs_cache fs) ! b)"
    "\<And>a. a \<notin> snd ` set (bc_inode_idx (fs_cache fs)) \<Longrightarrow> row a (bc_dirty_block (fs_cache fs)) = []"
    "distinct (map snd (bc_inode_idx (fs_cache fs)))" "length (bc_inode_idx (fs_cache fs)) < 2 ^ 16"
proof -
  let ?bc = "fs_cache fs" and ?ids = "map snd (bc_inode_idx (fs_cache fs))"
  note entry = unsaved_entry [OF assms(1,2) _ assms(3)]
  have wf: "keys_sorted (bc_dirty_block ?bc)" "distinct (map fst (bc_inode_idx ?bc))"
    using assms(3) by (simp_all add: cache_wf_def omap.ok_distinct)
  have eq: "?ids = map (crypto_hash H) (map fst (bc_inode_idx ?bc))" using entry(2) by auto
  have "inj_on (crypto_hash H) (set (map fst (bc_inode_idx ?bc)))"
    using assms(1) entry(1) by (auto simp: store_ok_def intro: inj_on_subset)
  then show ids: "distinct ?ids" unfolding eq using wf(2) distinct_map by blast
  show none: "row a (bc_dirty_block ?bc) = []" if a: "a \<notin> snd ` set (bc_inode_idx ?bc)" for a
  proof -
    have "crypto_hash H p \<noteq> a" if p: "file_inode ?bc p \<noteq> None" for p
    proof -
      have "map_of (bc_inode_idx ?bc) p = Some (crypto_hash H p)" using p store_file(1) [OF assms(1)] by auto
      then show ?thesis using a map_of_SomeD by force
    qed
    then show ?thesis using assms(2) by (simp add: unsaved_files_def Let_def)
  qed
  show lt: "length (bc_inode_idx ?bc) < 2 ^ 16"
    using assms(1,2) by (simp add: unsaved_files_def Let_def store_ok_def MAX_SIZE_def word_less_nat_alt)
  have row: "length (row a (bc_dirty_block ?bc)) \<le> 2 ^ 32 \<and> (\<forall>(bid, b) \<in> set (row a (bc_dirty_block ?bc)). block_inv (bc_heap ?bc ! b))"
    if a: "a \<in> set ?ids" for a
  proof -
    obtain p where "(p, a) \<in> set (bc_inode_idx ?bc)" using a by auto
    from entry(3) [OF this] obtain i where i: "whole (bc_heap ?bc) i" "recorded a i ?bc" by (auto simp: fresh_file_def)
    have s: "keys_sorted (row a (bc_dirty_block ?bc))" using dirty_row_wf [OF assms(3), of a] by (simp add: dirty_wf_def)
    have "fst ` set (row a (bc_dirty_block ?bc)) \<subseteq> fst ` set (ino_blocks i)"
      using i(2) map_of_eq_None_iff unfolding recorded_def by (metis subsetI)
    then have "length (row a (bc_dirty_block ?bc)) \<le> length (ino_blocks i)" by (rule sorted_subset_length [OF s])
    moreover have "length (ino_blocks i) \<le> 2 ^ 32" using i(1) by (simp add: whole_def dense_def)
    moreover have "block_inv (bc_heap ?bc ! b)" if b: "(bid, b) \<in> set (row a (bc_dirty_block ?bc))" for bid b
    proof -
      have "map_of (row a (bc_dirty_block ?bc)) bid = Some b" using b omap.ok_distinct [OF s] by simp
      then have "(bid, b) \<in> set (ino_blocks i)" using i(2) map_of_SomeD unfolding recorded_def by metis
      then show ?thesis using i(1) by (auto simp: whole_def dense_def inode_inv_def)
    qed
    ultimately show ?thesis by auto
  qed
  have sum: "row_sum (\<lambda>x. 1) (bc_dirty_block ?bc) = sum_list (map (\<lambda>a. sum_list (map (\<lambda>x. 1) (row a (bc_dirty_block ?bc)))) ?ids)"
    by (rule row_sum_ids [OF wf(1) ids]) (use none in auto)
  have "row_sum (\<lambda>x. 1) (bc_dirty_block ?bc) \<le> length ?ids * 2 ^ 32"
    unfolding sum by (rule sum_list_bound) (use row in \<open>simp add: sum_list_triv\<close>)
  then show "SIZE * row_sum (\<lambda>x. 1) (bc_dirty_block ?bc) < 2 ^ 63" using lt by simp
  show "block_inv (bc_heap ?bc ! b)" if r: "(ident, r) \<in> set (bc_dirty_block ?bc)" "(bid, b) \<in> set r"
  proof -
    have "row ident (bc_dirty_block ?bc) = r" using r(1) omap.ok_distinct [OF wf(1)] by (simp add: row_def)
    then show ?thesis using r(2) row [of ident] none [of ident] by (cases "ident \<in> set ?ids") auto
  qed
qed

lemma unsaved_flushable:
  assumes "store_ok H P fs" "unsaved_files H fs" "cache_wf (fs_cache fs)" "storable H P" "bc_inode_idx (fs_cache fs) \<noteq> []"
  shows "flushable (fs_cache fs)"
proof -
  let ?bc = "fs_cache fs"
  note rows = unsaved_rows [OF assms(1-3)]
  note entry = unsaved_entry [OF assms(1,2) _ assms(3)]
  have "nul_free ident \<and> length ident < HASH_SIZE \<and> (\<forall>i. map_of (bc_inode_ptrs ?bc) ident = Some (Some i) \<longrightarrow> ino_path i = p)"
    if e: "(p, ident) \<in> set (bc_inode_idx ?bc)" for p ident
  proof -
    have "length ident < HASH_SIZE" "nul_free ident"
      using entry(1,2) [OF e] assms(4) nul_free_crypto_hash by (auto simp: storable_def)
    then show ?thesis using entry(3) [OF e] by (auto simp: fresh_file_def)
  qed
  moreover have "sum_list (map (\<lambda>(path, ident). length path) (bc_inode_idx ?bc)) \<le> length (bc_inode_idx ?bc) * 2 ^ 32"
    using entry(1) assms(4) by (intro sum_list_bound) (fastforce simp: storable_def)
  then have "sum_list (map (\<lambda>(path, ident). length path) (bc_inode_idx ?bc)) < 2 ^ 63" using rows(5) by simp
  ultimately show ?thesis using rows assms(3,5) by (auto simp: flushable_def)
qed

section \<open>What is on disk\<close>

text \<open>An entry of a tree file that has a file with all its bytes.\<close>

definition saves :: "(char list \<Rightarrow> u8 list) \<Rightarrow> string \<Rightarrow> u8 list \<Rightarrow> job \<Rightarrow> bool" where
  "saves H p c = (\<lambda>(i, dbs, mts). get_path i = p \<and> get_id i = crypto_hash H p \<and> 0 < get_ull_mtime i \<and> is_deleted i = 0
     \<and> (\<exists>h. whole h i \<and> contents h i = c
          \<and> (\<forall>bid. map_option block_bytes (map_of dbs bid) = map_option (\<lambda>b. block_bytes (h ! b)) (map_of (ino_blocks i) bid))))"

definition saved :: "(char list \<Rightarrow> u8 list) \<Rightarrow> image \<Rightarrow> file_map \<Rightarrow> bool" where
  "saved H img m \<longleftrightarrow> (\<exists>xs. tree_readable img xs \<and> (\<forall>x \<in> set xs. \<exists>p c. m p = Some c \<and> saves H p c x)
     \<and> (\<forall>p c. m p = Some c \<longrightarrow> (\<exists>x \<in> set xs. saves H p c x)))"

lemma unsaved_saves:
  assumes "store_ok H P fs" "unsaved_files H fs" "cache_wf (fs_cache fs)" "(p, ident) \<in> set (bc_inode_idx (fs_cache fs))"
  shows "\<exists>c. cached_files fs p = Some c \<and> saves H p c (job_of (fs_cache fs) (p, ident))"
proof -
  let ?bc = "fs_cache fs"
  note entry = unsaved_entry [OF assms(1,2,4,3)]
  obtain i where i: "file_inode ?bc p = Some i" "map_of (bc_inode_ptrs ?bc) ident = Some (Some i)" "whole (bc_heap ?bc) i" "fresh_file ident p i ?bc"
    using entry(3) by blast
  have "get_id i = ident" using assms(3) i(2) by (auto simp: cache_wf_def inode_wf_def get_id_def)
  moreover have "map_option block_bytes (map_of (blocks_of ?bc ident) bid) = map_option (\<lambda>b. block_bytes (bc_heap ?bc ! b)) (map_of (ino_blocks i) bid)" for bid
    using i(4) by (simp add: blocks_of_bytes fresh_file_def recorded_def)
  ultimately have "saves H p (contents (bc_heap ?bc) i) (job_of ?bc (p, ident))"
    using i(2-4) entry(2) by (auto simp: job_of_def saves_def fresh_file_def get_path_def get_ull_mtime_def is_deleted_def)
  then show ?thesis using i(1) by (simp add: cached_files_def)
qed

lemma flush_saves:
  assumes "store_ok H P fs" "unsaved_files H fs" "cache_wf (fs_cache fs)" "storable H P" "cached_files fs \<noteq> (\<lambda>_. None)"
  shows "\<exists>fs' img. handle e Destroy fs = Some (Inr (fs', Nothing)) \<and> fs_disk fs' = [(tree_name e, img)] \<and> saved H img (cached_files fs)"
proof -
  let ?bc = "fs_cache fs" and ?xs = "map (job_of (fs_cache fs)) (bc_inode_idx (fs_cache fs))"
  have entry: "(p, crypto_hash H p) \<in> set (bc_inode_idx ?bc)" if "cached_files fs p = Some c" for p c
  proof -
    obtain i where "file_inode ?bc p = Some i" using \<open>cached_files fs p = Some c\<close> by (auto simp: cached_files_def)
    then show ?thesis using store_file(1) [OF assms(1)] map_of_SomeD by fast
  qed
  obtain p c where "cached_files fs p = Some c" using assms(5) by fastforce
  then have ne: "bc_inode_idx ?bc \<noteq> []" using entry by fastforce
  have fl: "flushable ?bc" by (rule unsaved_flushable [OF assms(1-4) ne])
  have "bc_has_changed ?bc" using assms(2) ne by (simp add: unsaved_files_def Let_def)
  from flush_built [OF fl this, of e] obtain bc' img where flush: "flush_to_disk e ?bc = Some (Inr (bc', Some (tree_name e, img), 0))" "built img ?xs"
    by blast
  have h: "handle e Destroy fs = Some (Inr (fs\<lparr>fs_cache := bc', fs_disk := [(tree_name e, img)]\<rparr>, Nothing))"
    using flush(1) assms(2) by (simp add: zippyfs_destroy_def flush_cache_def flush_to_shdw_def unsaved_files_def)
  note job = unsaved_saves [OF assms(1-3)]
  have all: "\<forall>x \<in> set ?xs. \<exists>p c. cached_files fs p = Some c \<and> saves H p c x" using job by fastforce
  have "\<forall>x \<in> set ?xs. nul_free (get_path (fst x))"
  proof
    fix x
    assume "x \<in> set ?xs"
    then obtain p ident where e: "(p, ident) \<in> set (bc_inode_idx ?bc)" "x = job_of ?bc (p, ident)" by auto
    then have "get_path (fst x) = p" using job [OF e(1)] by (auto simp: saves_def)
    then show "nul_free (get_path (fst x))" using unsaved_entry(1) [OF assms(1,2) e(1) assms(3)] assms(4) by (simp add: storable_def)
  qed
  then have "tree_readable img ?xs"
    using flush(2) flushable_jobs [OF fl] unsaved_rows(5) [OF assms(1-3)] by (simp add: tree_readable_def)
  moreover have "\<exists>x \<in> set ?xs. saves H p c x" if "cached_files fs p = Some c" for p c
  proof -
    have "job_of ?bc (p, crypto_hash H p) \<in> set ?xs" using entry [OF that] by simp
    moreover have "saves H p c (job_of ?bc (p, crypto_hash H p))" using job [OF entry [OF that]] that by auto
    ultimately show ?thesis by blast
  qed
  ultimately have "saved H img (cached_files fs)" unfolding saved_def using all by (intro exI [of _ ?xs]) blast
  then show ?thesis using h by (intro exI [of _ "fs\<lparr>fs_cache := bc', fs_disk := [(tree_name e, img)]\<rparr>"] exI [of _ img]) simp
qed

end
