(* ===== verification/Store_Remount.thy ===== *)
theory Store_Remount imports Unsaved
begin

text \<open>
  Sessions across a remount: what the first session wrote is in the tree file of its unmount
  (\<open>saved\<close>); the next mount lists it, opens it, and goes on with it as the abstract store does.
\<close>

section \<open>The next mount\<close>

text \<open>The file is in the directory, as the listing decides it.\<close>

definition in_directory :: "string \<Rightarrow> string \<Rightarrow> bool" where
  "in_directory d p \<longleftrightarrow> parent_path p = d \<or> parent_path p = [] \<and> d = ''/''"

lemma listed_mount:
  assumes "saved H img m" "fs = zippyfs_init size1 junk mount_dir [(tree_name e0, img)]"
  shows "\<exists>bc. handle e (Readdir d) fs = Some (Inr (fs\<lparr>fs_cache := bc\<rparr>,
        Names (map base_name (sorted_list_of_set {p \<in> dom m. in_directory d p}) @ [''.'', ''..'']) 0))
    \<and> ld_mem (bc_loader bc) = [(tree_name e0, Some img)] \<and> bc_inode_idx bc = [] \<and> bc_size bc = size1"
proof -
  let ?dir = "[(''TREE-'' @ generate_rand_hex_name (e_rand e0), img)]" and ?bc = "fs_cache fs"
  note m = mounted_cache [OF assms(2) refl]
  have list: "?dir = listing (bc_path_to_disk ?bc) (fs_disk fs)" unfolding m(1) using tree_listing new_cache(5) assms(2) by metis
  obtain xs where xs: "tree_readable img xs" "\<forall>x \<in> set xs. \<exists>p c. m p = Some c \<and> saves H p c x"
      "\<forall>p c. m p = Some c \<longrightarrow> (\<exists>x \<in> set xs. saves H p c x)"
    using assms(1) unfolding saved_def by blast
  define E where "E = (\<Union>(ent, img) \<in> set (tree_files ?dir). index_entry_of ` set (filter (child_of d) xs))"
  have E: "E = index_entry_of ` set (filter (child_of d) xs)" unfolding E_def m(3) by simp
  have "\<forall>(ent, img) \<in> set (tree_files ?dir). tree_readable img xs" unfolding m(3) using xs(1) by simp
  from readdir_reply [OF m(2) list this E_def] obtain es where
    es: "zippyfs_readdir d fs = Some (Inr (fs\<lparr>fs_cache := ?bc\<lparr>bc_loader := load_trees ?dir (bc_loader ?bc)\<rparr>\<rparr>,
        map (base_name \<circ> ie_path) (filter (\<lambda>x. ie_deleted x = 0) es) @ [''.'', ''..''], 0))"
      "sorted_wrt (<) (map ie_path es)" "ie_path ` set es = ie_path ` E" "\<forall>x \<in> set es. x \<in> E" by blast
  have live: "\<forall>x \<in> set xs. is_deleted (fst x) = 0" using xs(2) by (fastforce simp: saves_def)
  then have "\<forall>x \<in> set es. ie_deleted x = 0" using es(4) E by (auto simp: index_entry_of_def)
  then have all: "filter (\<lambda>x. ie_deleted x = 0) es = es" by (simp add: filter_id_conv)
  have "ie_path ` E = {p \<in> dom m. in_directory d p}"
  proof -
    have path: "get_path (fst x) = p" if "saves H p c x" for p c x using that by (auto simp: saves_def)
    have "ie_path ` E = (\<lambda>x. get_path (fst x)) ` {x \<in> set xs. child_of d x}" unfolding E by (simp add: image_image index_entry_of_def)
    also have "\<dots> = {p \<in> dom m. in_directory d p}"
    proof (intro equalityI subsetI)
      fix p
      assume "p \<in> (\<lambda>x. get_path (fst x)) ` {x \<in> set xs. child_of d x}"
      then obtain x where x: "x \<in> set xs" "child_of d x" "p = get_path (fst x)" by blast
      then obtain c where "m p = Some c" using xs(2) path by metis
      then show "p \<in> {p \<in> dom m. in_directory d p}" using x(2,3) by (auto simp: child_of_def in_directory_def Let_def)
    next
      fix p
      assume p: "p \<in> {p \<in> dom m. in_directory d p}"
      then obtain c x where x: "m p = Some c" "x \<in> set xs" "saves H p c x" using xs(3) by fast
      have "child_of d x" using p path [OF x(3)] by (auto simp: child_of_def in_directory_def Let_def)
      then show "p \<in> (\<lambda>x. get_path (fst x)) ` {x \<in> set xs. child_of d x}" using x(2) path [OF x(3)] by blast
    qed
    finally show ?thesis .
  qed
  then have "set (map ie_path es) = {p \<in> dom m. in_directory d p}" using es(3) by simp
  then have "sorted_list_of_set {p \<in> dom m. in_directory d p} = map ie_path es"
    using es(2) by (metis sorted_list_of_set.idem_if_sorted_distinct strict_sorted_iff)
  then have "handle e (Readdir d) fs = Some (Inr (fs\<lparr>fs_cache := ?bc\<lparr>bc_loader := load_trees ?dir (bc_loader ?bc)\<rparr>\<rparr>,
        Names (map base_name (sorted_list_of_set {p \<in> dom m. in_directory d p}) @ [''.'', ''..'']) 0))"
    using es(1) all by (simp add: reply_with_def)
  moreover have "bc_inode_idx ?bc = []" "bc_size ?bc = size1" using new_cache(1,4) assms(2) by simp_all
  ultimately show ?thesis
    using m(4) by (intro exI [of _ "?bc\<lparr>bc_loader := load_trees ?dir (bc_loader ?bc)\<rparr>"]) simp
qed

lemma saves_whole:
  assumes "saves H p c (i, dbs, mts)" "blocks_ok di" "has_attrs i di"
    "\<And>bid. map_option block_bytes (map_of (i_block_data di) bid) = map_option block_bytes (map_of dbs bid)"
    "loaded_inode e path di h = (h', i')"
  shows "get_id i' = crypto_hash H p" "h' = h @ map snd (i_block_data di)" "block_ptrs i' \<subseteq> {length h..<length h'}"
    "whole h' (undo_dirty i')" "contents h' (undo_dirty i') = c"
proof -
  obtain h0 where s: "get_id i = crypto_hash H p" "is_deleted i = 0" "whole h0 i" "contents h0 i = c"
      "\<And>bid. map_option block_bytes (map_of dbs bid) = map_option (\<lambda>b. block_bytes (h0 ! b)) (map_of (ino_blocks i) bid)"
    using assms(1) by (auto simp: saves_def)
  have di: "i_deleted di = 0" "i_inode_id di = crypto_hash H p" "i_size di = ino_size i"
    using assms(3) s(1,2) by (simp_all add: has_attrs_def get_size_def)
  note l = loaded_inode_eq [OF assms(2) di(1) assms(5)]
  have d: "dense h0 i" using s(3) by (simp add: whole_def)
  have "map_option (\<lambda>b. block_bytes (h' ! b)) (map_of (ino_blocks i') bid) = map_option (\<lambda>b. block_bytes (h0 ! b)) (map_of (ino_blocks i) bid)" for bid
    using l(5) [of bid] assms(4) [of bid] s(5) [of bid] by simp
  note same = dense_same_bytes [OF d l(3) this]
  have undo: "ino_blocks (undo_dirty i') = ino_blocks i'" "ino_links (undo_dirty i') = ino_links i'" "ino_size (undo_dirty i') = ino_size i'"
    by (simp_all add: undo_dirty_def)
  have dense: "dense h' (undo_dirty i')" "contents h' (undo_dirty i') = c"
    using same dense_same_blocks [OF undo(1,2)] s(4) by auto
  then show "contents h' (undo_dirty i') = c" by simp
  show "get_id i' = crypto_hash H p" "h' = h @ map snd (i_block_data di)" using l(1,2) di(2) by simp_all
  show "block_ptrs i' \<subseteq> {length h..<length h'}" using l(1,6) by (auto simp: block_ptrs_def dest: set_zip_rightD)
  have "unshared (undo_dirty i')" using l(6) by (simp add: unshared_def undo(1))
  moreover have "length (ino_blocks (undo_dirty i')) = length (ino_blocks i)"
  proof -
    have "fst ` set (ino_blocks i') = fst ` set (ino_blocks i)"
    proof (rule set_eqI)
      fix bid
      have "map_of (ino_blocks i') bid = None \<longleftrightarrow> map_of (ino_blocks i) bid = None"
        using l(5) [of bid] assms(4) [of bid] s(5) [of bid] by (metis option.map_disc_iff)
      then show "bid \<in> fst ` set (ino_blocks i') \<longleftrightarrow> bid \<in> fst ` set (ino_blocks i)" by (simp add: map_of_eq_None_iff)
    qed
    moreover have "distinct (map fst (ino_blocks i'))" "distinct (map fst (ino_blocks i))"
      using l(3) d by (simp_all add: dense_def inode_inv_def)
    ultimately show ?thesis unfolding undo(1) by (metis distinct_card length_map list.set_map)
  qed
  ultimately show "whole h' (undo_dirty i')" using s(3,4) dense di(3) l(4) undo(3) by (simp add: whole_def)
qed

text \<open>Opening a file of the one tree that is mapped.\<close>

lemma open_loads:
  assumes "saved H img m" "store_ok H P fs" "store_usable H P e p" "storable H P" "m p = Some c"
    "ld_mem (bc_loader (fs_cache fs)) = [(f, Some img)]" "cached_files fs \<subseteq>\<^sub>m m"
  shows "\<exists>fs'. handle e (Open p) fs = Some (Inr (fs', Status 0)) \<and> store_ok H P fs' \<and> cached_files fs' = (cached_files fs)(p \<mapsto> c)
    \<and> store_room fs' = store_room fs \<and> bc_loader (fs_cache fs') = bc_loader (fs_cache fs)"
proof (cases "map_of (bc_inode_idx (fs_cache fs)) p")
  case (Some a)
  then obtain d where "cached_files fs p = Some d" using store_entry [OF assms(2) Some] by (auto simp: cached_files_def)
  then have "cached_files fs p = Some c" using assms(5,7) by (metis domI map_le_def)
  moreover have "cache_open e p (fs_cache fs) = Some (Inr (fs_cache fs, 0))" using Some by (simp add: cache_open_def in_cache_def)
  ultimately show ?thesis
    using assms(2) by (intro exI [of _ fs]) (simp add: zippyfs_open_def on_cache_def reply_with_def fun_upd_idem)
next
  case None
  let ?bc = "fs_cache fs" and ?id = "crypto_hash H p"
  have e: "e_hash e = H" "p \<in> P" using assms(3) by (simp_all add: store_usable_def)
  then have p: "p \<noteq> []" "p \<noteq> ''/''" using assms(4) by (auto simp: storable_def)
  obtain xs x where xs: "jobs_ok xs" "built img xs" "x \<in> set xs" "saves H p c x"
    using assms(1,5) unfolding saved_def tree_readable_def by blast
  obtain i dbs mts where x: "x = (i, dbs, mts)" by (cases x)
  have i: "(i, dbs, mts) \<in> set xs" "saves H p c (i, dbs, mts)" using xs(3,4) x by simp_all
  then have id: "get_id i = crypto_hash (e_hash e) p" "0 < get_ull_mtime i" using e(1) by (simp_all add: saves_def)
  obtain di where di: "find_latest_inode (e_hash e) (bc_loader ?bc) p True = Some (Inr di)" "has_attrs i di"
      "\<And>bid. map_option block_bytes (map_of (i_block_data di) bid) = map_option block_bytes (map_of dbs bid)"
    using find_in_single_tree [OF xs(1,2) i(1) id(1) p(1) assms(6), of True] id(2) by blast
  have ok: "blocks_ok di" by (rule single_tree_blocks_ok [OF xs(1,2) i(1) id(1) p(1) assms(6) di(1)])
  have t: "i_mtime di \<noteq> 0" using di(2) id(2) by (auto simp: has_attrs_def)
  obtain h' i' where load: "loaded_inode e p di (bc_heap ?bc) = (h', i')" by fastforce
  note l = saves_whole [OF i(2) ok di(2,3) load]
  let ?i = "undo_dirty i'"
  let ?bc' = "?bc\<lparr>bc_heap := h', bc_inode_idx := omap_put p ?id (bc_inode_idx ?bc), bc_inode_ptrs := omap_put ?id (Some ?i) (bc_inode_ptrs ?bc)\<rparr>"
  have op: "handle e (Open p) fs = Some (Inr (fs\<lparr>fs_cache := ?bc'\<rparr>, Status 0))"
    using load_found [OF None p(2) di(1) t load] l(1) by (simp add: zippyfs_open_def on_cache_def reply_with_def)
  let ?none = "i'\<lparr>ino_blocks := []\<rparr>"
  have "block_ptrs ?i = block_ptrs i'" by (simp add: block_ptrs_def undo_dirty_def)
  then have conf: "confined ?id (?none, ?bc) (?i, ?bc')"
    using l(2,3) by (simp add: confined_def omap_put_find nth_append) (simp add: block_ptrs_def)
  have apart: "block_ptrs ?none \<inter> block_ptrs j = {}" for j by (simp add: block_ptrs_def)
  have new: "map_of (bc_inode_idx ?bc') = (map_of (bc_inode_idx ?bc))(p \<mapsto> ?id)" "map_of (bc_inode_ptrs ?bc') ?id = Some (Some ?i)"
      "whole (bc_heap ?bc') ?i" "bc_size ?bc' < MAX_SIZE"
    using l(4) assms(2) by (simp_all add: omap_put_find store_ok_def fun_eq_iff)
  note up = store_update [OF assms(2) refl e(2) refl apart conf new]
  show ?thesis using op up l(5) by (intro exI [of _ "fs\<lparr>fs_cache := ?bc'\<rparr>"]) (simp add: store_room_def)
qed

section \<open>Sessions\<close>

lemma opens_load:
  assumes "saved H img m" "store_ok H P fs" "storable H P" "\<forall>(e, p) \<in> set ps. store_usable H P e p \<and> m p \<noteq> None"
    "ld_mem (bc_loader (fs_cache fs)) = [(f, Some img)]" "cached_files fs \<subseteq>\<^sub>m m"
  shows "\<exists>fs'. run (map (\<lambda>(e, p). (e, Open p)) ps) fs = Some (Inr (fs', replicate (length ps) (Status 0))) \<and> store_ok H P fs'
    \<and> cached_files fs' = cached_files fs ++ (m |` (snd ` set ps)) \<and> store_room fs' = store_room fs"
  using assms
proof (induction ps arbitrary: fs)
  case (Cons y ps)
  obtain e p where y: "y = (e, p)" by (cases y)
  obtain c where c: "m p = Some c" "store_usable H P e p" using Cons.prems(4) y by auto
  obtain fs1 where fs1: "handle e (Open p) fs = Some (Inr (fs1, Status 0))" "store_ok H P fs1" "cached_files fs1 = (cached_files fs)(p \<mapsto> c)"
      "store_room fs1 = store_room fs" "bc_loader (fs_cache fs1) = bc_loader (fs_cache fs)"
    using open_loads [OF Cons.prems(1,2) c(2) Cons.prems(3) c(1) Cons.prems(5,6)] by blast
  have le: "cached_files fs1 \<subseteq>\<^sub>m m" using Cons.prems(6) c(1) fs1(3) by (simp add: map_le_def)
  have "\<forall>(e, p) \<in> set ps. store_usable H P e p \<and> m p \<noteq> None" "ld_mem (bc_loader (fs_cache fs1)) = [(f, Some img)]"
    using Cons.prems(4,5) fs1(5) by auto
  from Cons.IH [OF Cons.prems(1) fs1(2) Cons.prems(3) this le] obtain fs2 where
    fs2: "run (map (\<lambda>(e, p). (e, Open p)) ps) fs1 = Some (Inr (fs2, replicate (length ps) (Status 0)))" "store_ok H P fs2"
      "cached_files fs2 = cached_files fs1 ++ (m |` (snd ` set ps))" "store_room fs2 = store_room fs1"
    by blast
  have "cached_files fs2 = cached_files fs ++ (m |` (snd ` set (y # ps)))"
    using fs2(3) fs1(3) c(1) y by (auto simp: fun_eq_iff map_add_def restrict_map_def split: option.splits)
  then show ?case using y fs1(1,4) fs2 by (intro exI [of _ fs2]) simp
qed simp

abbreviation requests :: "(env \<times> file_op) list \<Rightarrow> (env \<times> request) list" where
  "requests ops \<equiv> map (\<lambda>(e, x). (e, request_of x)) ops"

lemma first_session:
  assumes "storable H P" "size0 < MAX_SIZE" "\<forall>(e, x) \<in> set ops. store_usable H P e (op_path x) \<and> ticking e"
    "all_legal (map snd ops) (\<lambda>_. None)" "creates_new (map snd ops) (\<lambda>_. None)" "unat size0 + creates (map snd ops) < unat MAX_SIZE"
    "spec_run (map snd ops) (\<lambda>_. None) = (m, rs)" "m \<noteq> (\<lambda>_. None)"
  shows "\<exists>fs1 img. run (requests ops @ [(e0, Destroy)]) (zippyfs_init size0 junk mount_dir []) = Some (Inr (fs1, rs @ [Nothing]))
    \<and> fs_disk fs1 = [(tree_name e0, img)] \<and> saved H img m"
proof -
  let ?fs = "zippyfs_init size0 junk mount_dir []"
  have inj: "inj_on (crypto_hash H) P" using assms(1) by (simp add: storable_def)
  note init = init_store(1) [OF inj assms(2), of junk mount_dir "[]"] init_store(2,3) [of size0 junk mount_dir "[]"]
  have "\<forall>(e, x) \<in> set ops. store_usable H P e (op_path x)" using assms(3) by auto
  moreover have room: "creates (map snd ops) \<le> store_room ?fs" using assms(6) by (simp add: init(3))
  moreover have legal: "all_legal (map snd ops) (cached_files ?fs)" "creates_new (map snd ops) (cached_files ?fs)"
    using assms(4,5) by (simp_all add: init(2))
  ultimately obtain fs' rs' where r: "run (requests ops) ?fs = Some (Inr (fs', rs'))" "store_ok H P fs'"
      "spec_run (map snd ops) (cached_files ?fs) = (cached_files fs', rs')"
    using zippy.serve_refines [OF init(1), of ops] unfolding serve_run by blast
  have m: "cached_files fs' = m" "rs' = rs" using r(3) assms(7) by (simp_all add: init(2))
  have "unsaved_files H ?fs"
    by (simp add: unsaved_files_def file_inode_def new_cache row_def)
  from zippy_unsaved.serve_unsaved [OF init(1) this assms(3) legal(1) room legal(2), unfolded serve_run, OF r(1)]
  have un: "unsaved_files H fs'" .
  have wf: "cache_wf (fs_cache fs')" using session_wf [OF r(1)] .
  have "cached_files fs' \<noteq> (\<lambda>_. None)" using m(1) assms(8) by simp
  from flush_saves [OF r(2) un wf assms(1) this, of e0] obtain fs1 img where
    d: "handle e0 Destroy fs' = Some (Inr (fs1, Nothing))" "fs_disk fs1 = [(tree_name e0, img)]" "saved H img m"
    unfolding m(1) by blast
  have "run (requests ops @ [(e0, Destroy)]) ?fs = Some (Inr (fs1, rs @ [Nothing]))"
    unfolding run_append r(1) and_then_simps prod.case using d(1) m(2) by simp
  then show ?thesis using d(2,3) by blast
qed

lemma empty_store:
  assumes "storable H P" "bc_inode_idx (fs_cache fs) = []" "bc_size (fs_cache fs) < MAX_SIZE"
  shows "store_ok H P fs" "cached_files fs = (\<lambda>_. None)"
  using assms by (simp_all add: store_ok_def separate_def file_inode_def cached_files_def storable_def fun_eq_iff)

lemma second_session:
  assumes "storable H P" "size1 < MAX_SIZE" "saved H img m" "\<forall>(e, p) \<in> set ps. store_usable H P e p \<and> p \<in> dom m"
    "\<forall>(e, x) \<in> set ops. store_usable H P e (op_path x)" "all_legal (map snd ops) (m |` (snd ` set ps))"
    "unat size1 + creates (map snd ops) < unat MAX_SIZE"
  shows "\<exists>fs2 rs. run ((e1, Readdir d) # map (\<lambda>(e, p). (e, Open p)) ps @ requests ops) (zippyfs_init size1 junk mount_dir [(tree_name e0, img)])
      = Some (Inr (fs2, Names (map base_name (sorted_list_of_set {p \<in> dom m. in_directory d p}) @ [''.'', ''..'']) 0
          # replicate (length ps) (Status 0) @ rs))
    \<and> spec_run (map snd ops) (m |` (snd ` set ps)) = (cached_files fs2, rs)"
proof -
  let ?fs = "zippyfs_init size1 junk mount_dir [(tree_name e0, img)]"
  obtain bc where bc: "handle e1 (Readdir d) ?fs = Some (Inr (?fs\<lparr>fs_cache := bc\<rparr>,
        Names (map base_name (sorted_list_of_set {p \<in> dom m. in_directory d p}) @ [''.'', ''..'']) 0))"
      "ld_mem (bc_loader bc) = [(tree_name e0, Some img)]" "bc_inode_idx bc = []" "bc_size bc = size1"
    using listed_mount [OF assms(3) refl] by blast
  let ?fs1 = "?fs\<lparr>fs_cache := bc\<rparr>"
  have "bc_inode_idx (fs_cache ?fs1) = []" "bc_size (fs_cache ?fs1) < MAX_SIZE" using bc(3,4) assms(2) by simp_all
  note ok = empty_store [OF assms(1) this]
  have ps: "\<forall>(e, p) \<in> set ps. store_usable H P e p \<and> m p \<noteq> None" using assms(4) by auto
  have "ld_mem (bc_loader (fs_cache ?fs1)) = [(tree_name e0, Some img)]" "cached_files ?fs1 \<subseteq>\<^sub>m m" using bc(2) ok(2) by simp_all
  from opens_load [OF assms(3) ok(1) assms(1) ps this] obtain fs2 where
    fs2: "run (map (\<lambda>(e, p). (e, Open p)) ps) ?fs1 = Some (Inr (fs2, replicate (length ps) (Status 0)))" "store_ok H P fs2"
      "cached_files fs2 = m |` (snd ` set ps)" "store_room fs2 = store_room ?fs1"
    unfolding ok(2) by auto
  have "creates (map snd ops) \<le> store_room fs2" using fs2(4) assms(7) bc(4) by (simp add: store_room_def)
  moreover have "all_legal (map snd ops) (cached_files fs2)" using assms(6) fs2(3) by simp
  ultimately obtain fs3 rs where r: "run (requests ops) fs2 = Some (Inr (fs3, rs))" "spec_run (map snd ops) (cached_files fs2) = (cached_files fs3, rs)"
    using zippy.serve_refines [OF fs2(2) assms(5)] unfolding serve_run by blast
  have "run ((e1, Readdir d) # map (\<lambda>(e, p). (e, Open p)) ps @ requests ops) ?fs
      = Some (Inr (fs3, Names (map base_name (sorted_list_of_set {p \<in> dom m. in_directory d p}) @ [''.'', ''..'']) 0
          # replicate (length ps) (Status 0) @ rs))"
    unfolding run.simps run_append bc(1) fs2(1) r(1) and_then_simps prod.case ..
  then show ?thesis using r(2) fs2(3) by (intro exI [of _ fs3] exI [of _ rs]) simp
qed

section \<open>The property\<close>

text \<open>
  (C1) A whole session survives a remount. On an empty disk, any session that makes files and
  writes to them, in any interleaving, is followed by the unmount; then the file system is
  mounted again, a directory is listed, some of the files are opened, and a second session of
  creations, reads and writes runs over them. Both sessions are answered as the abstract store
  answers them, the second from the contents the first left; the listing has exactly the files
  of the directory, in path order. The paths have different ids of fewer than 128 characters,
  each file is made once in the first session, its clocks are not at 0, and neither session
  makes so many files that a write flushes.
\<close>

theorem sessions_survive_remount:
  assumes "storable H P" "size0 < MAX_SIZE" "size1 < MAX_SIZE"
    and "\<forall>(e, x) \<in> set ops. store_usable H P e (op_path x) \<and> ticking e"
    and "all_legal (map snd ops) (\<lambda>_. None)" "creates_new (map snd ops) (\<lambda>_. None)" "unat size0 + creates (map snd ops) < unat MAX_SIZE"
    and "spec_run (map snd ops) (\<lambda>_. None) = (m, rs)" "m \<noteq> (\<lambda>_. None)"
    and "\<forall>(e, p) \<in> set ps. store_usable H P e p \<and> p \<in> dom m" "\<forall>(e, x) \<in> set ops2. store_usable H P e (op_path x)"
    and "all_legal (map snd ops2) (m |` (snd ` set ps))" "unat size1 + creates (map snd ops2) < unat MAX_SIZE"
  shows "\<exists>fs1 fs2 rs2. run (requests ops @ [(e0, Destroy)]) (zippyfs_init size0 junk0 mount_dir []) = Some (Inr (fs1, rs @ [Nothing]))
    \<and> run ((e1, Readdir d) # map (\<lambda>(e, p). (e, Open p)) ps @ requests ops2) (zippyfs_init size1 junk1 mount_dir (fs_disk fs1))
      = Some (Inr (fs2, Names (map base_name (sorted_list_of_set {p \<in> dom m. in_directory d p}) @ [''.'', ''..'']) 0
          # replicate (length ps) (Status 0) @ rs2))
    \<and> spec_run (map snd ops2) (m |` (snd ` set ps)) = (cached_files fs2, rs2)"
proof -
  obtain fs1 img where 1: "run (requests ops @ [(e0, Destroy)]) (zippyfs_init size0 junk0 mount_dir []) = Some (Inr (fs1, rs @ [Nothing]))"
      "fs_disk fs1 = [(tree_name e0, img)]" "saved H img m"
    using first_session [OF assms(1,2,4-9), of e0 junk0] by blast
  from second_session [OF assms(1,3) 1(3) assms(10-13), of e1 d junk1 e0, folded 1(2)] show ?thesis using 1(1) by blast
qed

theorem sessions_survive_remount_witness:
  "\<exists>fs1 fs2.
    run [(two_env, Mknod ''/f'' 0x81A4), (two_env, Mknod ''/g'' 0x81A4), (two_env, Write ''/f'' [1, 2, 3] 3 0),
        (two_env, Write ''/g'' [7] 1 0), (two_env, Write ''/f'' [9, 9] 2 2), (two_env, Destroy)] (zippyfs_init 0 undefined mount_dir [])
      = Some (Inr (fs1, [Status 0, Status 0, Status 3, Status 1, Status 2, Nothing]))
    \<and> run [(two_env, Readdir ''/''), (two_env, Open ''/f''), (two_env, Open ''/g''), (two_env, Read ''/f'' 10 1),
        (two_env, Write ''/g'' [8] 1 0), (two_env, Read ''/g'' 5 0)] (zippyfs_init 0 undefined mount_dir (fs_disk fs1))
      = Some (Inr (fs2, [Names [''f'', ''g'', ''.'', ''..''] 0, Status 0, Status 0, Bytes [2, 9, 9] 10, Status 1, Bytes [8] 5]))
    \<and> cached_files fs2 = [''/f'' \<mapsto> [1, 2, 9, 9], ''/g'' \<mapsto> [8]]"
proof -
  let ?P = "{''/f'', ''/g''}"
  let ?ops = "[(two_env, Create ''/f'' 0x81A4), (two_env, Create ''/g'' 0x81A4), (two_env, Put ''/f'' 0 [1, 2, 3]),
      (two_env, Put ''/g'' 0 [7]), (two_env, Put ''/f'' 2 [9, 9])]"
  let ?ops2 = "[(two_env, Get ''/f'' 1 10), (two_env, Put ''/g'' 0 [8]), (two_env, Get ''/g'' 0 5)]"
  let ?ps = "[(two_env, ''/f''), (two_env, ''/g'')]" and ?m = "[''/f'' \<mapsto> [1, 2, 9, 9], ''/g'' \<mapsto> [7]] :: file_map"
  have st: "storable two_hash ?P" by (simp add: storable_def two_ids nul_free_def)
  have tick: "ticking two_env" by (simp add: ticking_def two_env_def sample_env_def get_time_def)
  have use: "\<forall>(e, x) \<in> set ?ops. store_usable two_hash ?P e (op_path x) \<and> ticking e" "\<forall>(e, x) \<in> set ?ops2. store_usable two_hash ?P e (op_path x)"
      "\<forall>(e, p) \<in> set ?ps. store_usable two_hash ?P e p \<and> p \<in> dom ?m"
    using two_store(2,3) tick by simp_all
  have restr: "?m |` (snd ` set ?ps) = ?m" by (auto simp: restrict_map_def fun_eq_iff)
  have legal: "all_legal (map snd ?ops) (\<lambda>_. None)" "creates_new (map snd ?ops) (\<lambda>_. None)" "all_legal (map snd ?ops2) (?m |` (snd ` set ?ps))"
    unfolding restr by (simp_all add: accepts_def overlay_def)
  have spec: "spec_run (map snd ?ops) (\<lambda>_. None) = (?m, [Status 0, Status 0, Status 3, Status 1, Status 2])"
    by (simp add: overlay_def fun_eq_iff)
  have room: "(0 :: u64) < MAX_SIZE" "unat (0 :: u64) + creates (map snd ?ops) < unat MAX_SIZE" "unat (0 :: u64) + creates (map snd ?ops2) < unat MAX_SIZE"
    by (simp_all add: MAX_SIZE_def)
  have ne: "?m \<noteq> (\<lambda>_. None)" by (rule notI, drule fun_cong [of _ _ "''/f''"]) simp
  obtain fs1 fs2 rs2 where r: "run (requests ?ops @ [(two_env, Destroy)]) (zippyfs_init 0 undefined mount_dir [])
        = Some (Inr (fs1, [Status 0, Status 0, Status 3, Status 1, Status 2] @ [Nothing]))"
      "run ((two_env, Readdir ''/'') # map (\<lambda>(e, p). (e, Open p)) ?ps @ requests ?ops2) (zippyfs_init 0 undefined mount_dir (fs_disk fs1))
        = Some (Inr (fs2, Names (map base_name (sorted_list_of_set {p \<in> dom ?m. in_directory ''/'' p}) @ [''.'', ''..'']) 0
            # replicate (length ?ps) (Status 0) @ rs2))"
      "spec_run (map snd ?ops2) (?m |` (snd ` set ?ps)) = (cached_files fs2, rs2)"
    using sessions_survive_remount [OF st room(1,1) use(1) legal(1,2) room(2) spec ne use(3,2) legal(3) room(3), of two_env undefined two_env "''/''" undefined]
    by (elim exE conjE) (rule that)
  have "spec_run (map snd ?ops2) ?m = ([''/f'' \<mapsto> [1, 2, 9, 9], ''/g'' \<mapsto> [8]], [Bytes [2, 9, 9] 10, Status 1, Bytes [8] 5])"
    by (simp add: overlay_def fun_eq_iff)
  with r(3) have c: "cached_files fs2 = [''/f'' \<mapsto> [1, 2, 9, 9], ''/g'' \<mapsto> [8]]" "rs2 = [Bytes [2, 9, 9] 10, Status 1, Bytes [8] 5]"
    unfolding restr by simp_all
  have "{p \<in> dom ?m. in_directory ''/'' p} = {''/f'', ''/g''}" by (auto simp: in_directory_def parent_path_def)
  then have "map base_name (sorted_list_of_set {p \<in> dom ?m. in_directory ''/'' p}) = [''f'', ''g'']"
    by (simp add: base_name_def)
  then show ?thesis using r(1,2) c by (intro exI [of _ fs1] exI [of _ fs2]) simp
qed

end
