(* ===== verification/Program_Runs.thy ===== *)
theory Program_Runs imports Startup Store_Remount
begin

text \<open>
  The whole program twice: \<open>main\<close> starts on the machine, its session ends with the unmount, and a
  second \<open>main\<close> starts on the machine the first has left.
\<close>

lemma start_runs:
  assumes "ready home argv num h" "pid < 1000000" "is_directory (names_of (last argv @ ''root'')) h" "taken (machine_dir home) h \<or> low_end num"
  shows "\<exists>h1. main_start size0 junk pid home num argv h = Inr (h1, butlast argv, zippyfs_init size0 junk (last argv) (h_trees h))
    \<and> larger h h1 \<and> taken (machine_dir home) h1"
proof -
  note r = assms(1) [unfolded ready_def]
  have "\<exists>h1. make_dirs (last argv) home num h = Inr h1"
    using r assms(4) by (auto simp: make_dirs_result log_file_fits machine_dir_unaffected Let_def)
  then obtain h1 where m: "make_dirs (last argv) home num h = Inr h1" ..
  have "larger h h1 \<and> taken (machine_dir home) h1" using make_dirs_leaves [OF m] r assms(3) by blast
  then show ?thesis using r assms(2,3) m by (simp add: main_start_eq)
qed

text \<open>
  (C2) Two runs of the program. On a machine that is prepared for the program and has no tree
  files, \<open>main\<close> is started, serves a session and is unmounted; then it is started again with any
  process id and random bytes, lists a directory, opens files and serves a second session. Both
  runs reach FUSE, all requests are answered as the abstract store answers them, and the second
  run sees what the first one left; no directory or file of the machine is lost.
\<close>

theorem program_runs_twice:
  assumes "ready home argv num h" "last argv = mount_dir" "h_trees h = []" "pid < 1000000" "pid2 < 1000000" "length num2 = 16"
    and "is_directory (names_of (mount_dir @ ''root'')) h" "taken (machine_dir home) h \<or> low_end num"
    and "storable H P" "size0 < MAX_SIZE" "size1 < MAX_SIZE"
    and "\<forall>(e, x) \<in> set ops. store_usable H P e (op_path x) \<and> ticking e"
    and "all_legal (map snd ops) (\<lambda>_. None)" "creates_new (map snd ops) (\<lambda>_. None)" "unat size0 + creates (map snd ops) < unat MAX_SIZE"
    and "spec_run (map snd ops) (\<lambda>_. None) = (m, rs)" "m \<noteq> (\<lambda>_. None)"
    and "\<forall>(e, p) \<in> set ps. store_usable H P e p \<and> p \<in> dom m" "\<forall>(e, x) \<in> set ops2. store_usable H P e (op_path x)"
    and "all_legal (map snd ops2) (m |` (snd ` set ps))" "unat size1 + creates (map snd ops2) < unat MAX_SIZE"
  shows "\<exists>h1 h2 rs2. main_program size0 junk0 pid home num argv (requests ops @ [(e0, Destroy)]) h = Some (Inr (h1, rs @ [Nothing]))
    \<and> main_program size1 junk1 pid2 home num2 argv ((e1, Readdir d) # map (\<lambda>(e, p). (e, Open p)) ps @ requests ops2) h1
      = Some (Inr (h2, Names (map base_name (sorted_list_of_set {p \<in> dom m. in_directory d p}) @ [''.'', ''..'']) 0
          # replicate (length ps) (Status 0) @ rs2))
    \<and> snd (spec_run (map snd ops2) (m |` (snd ` set ps))) = rs2
    \<and> set (h_dirs h) \<subseteq> set (h_dirs h2) \<and> set (h_files h) \<subseteq> set (h_files h2)"
proof -
  obtain fs1 img where 1: "run (requests ops @ [(e0, Destroy)]) (zippyfs_init size0 junk0 mount_dir []) = Some (Inr (fs1, rs @ [Nothing]))"
      "fs_disk fs1 = [(tree_name e0, img)]" "saved H img m"
    using first_session [OF assms(9,10,12-17), of e0 junk0] by blast
  obtain fs2 rs2 where 2: "run ((e1, Readdir d) # map (\<lambda>(e, p). (e, Open p)) ps @ requests ops2) (zippyfs_init size1 junk1 mount_dir (fs_disk fs1))
      = Some (Inr (fs2, Names (map base_name (sorted_list_of_set {p \<in> dom m. in_directory d p}) @ [''.'', ''..'']) 0
          # replicate (length ps) (Status 0) @ rs2))"
      "spec_run (map snd ops2) (m |` (snd ` set ps)) = (cached_files fs2, rs2)"
    using second_session [OF assms(9,11) 1(3) assms(18-21), of e1 d junk1 e0, folded 1(2)] by blast
  have root: "is_directory (names_of (last argv @ ''root'')) h" using assms(2,7) by simp
  obtain h1 where h1: "main_start size0 junk0 pid home num argv h = Inr (h1, butlast argv, zippyfs_init size0 junk0 mount_dir [])"
      "larger h h1" "taken (machine_dir home) h1"
    using start_runs [OF assms(1,4) root assms(8), of size0 junk0] assms(2,3) by auto
  let ?h1 = "h1\<lparr>h_trees := fs_disk fs1\<rparr>"
  have up: "is_directory q ?h1" if "is_directory q h" for q using larger_directory [OF h1(2) that] by (simp add: is_directory_def)
  have ready: "ready home argv num2 ?h1" using assms(1,6) up by (simp add: ready_def)
  have t: "taken (machine_dir home) ?h1" using h1(3) by (simp add: taken_def is_directory_def)
  obtain h2 where h2: "main_start size1 junk1 pid2 home num2 argv ?h1 = Inr (h2, butlast argv, zippyfs_init size1 junk1 mount_dir (fs_disk fs1))"
      "larger ?h1 h2"
    using start_runs [OF ready assms(5) up [OF root] disjI1 [OF t], of size1 junk1] assms(2) by auto
  have "main_program size0 junk0 pid home num argv (requests ops @ [(e0, Destroy)]) h = Some (Inr (?h1, rs @ [Nothing]))"
    unfolding main_program_def h1(1) and_then_simps prod.case 1(1) ..
  moreover let ?h2 = "h2\<lparr>h_trees := fs_disk fs2\<rparr>"
  have "main_program size1 junk1 pid2 home num2 argv ((e1, Readdir d) # map (\<lambda>(e, p). (e, Open p)) ps @ requests ops2) ?h1
      = Some (Inr (?h2, Names (map base_name (sorted_list_of_set {p \<in> dom m. in_directory d p}) @ [''.'', ''..'']) 0
          # replicate (length ps) (Status 0) @ rs2))"
    unfolding main_program_def h2(1) and_then_simps prod.case 2(1) ..
  moreover have "set (h_dirs h) \<subseteq> set (h_dirs ?h2)" "set (h_files h) \<subseteq> set (h_files ?h2)"
    using h1(2) h2(2) by (auto simp: larger_def)
  ultimately show ?thesis unfolding 2(2) snd_conv by blast
qed

theorem program_runs_twice_witness:
  "\<exists>h1 h2.
    main_program 0 undefined 42 ''/u'' (sample_random 7) [''zippyfs'', ''/mnt'', mount_dir]
        [(two_env, Mknod ''/f'' 0x81A4), (two_env, Write ''/f'' [1, 2, 3] 3 0), (two_env, Destroy)]
        \<lparr>h_dirs = map (\<lambda>k. take k (names_of (mount_dir @ ''root''))) [1..<8] @ [[''u'', ''.config''], [''u'']], h_files = [], h_trees = []\<rparr>
      = Some (Inr (h1, [Status 0, Status 3, Nothing]))
    \<and> main_program 0 undefined 43 ''/u'' (sample_random 200) [''zippyfs'', ''/mnt'', mount_dir]
        [(two_env, Readdir ''/''), (two_env, Open ''/f''), (two_env, Mkdir ''/g'' 0x1ED), (two_env, Read ''/f'' 2 1)] h1
      = Some (Inr (h2, [Names [''f'', ''.'', ''..''] 0, Status 0, Status 0, Bytes [2, 3] 2]))"
proof -
  let ?P = "{''/f'', ''/g''}" and ?argv = "[''zippyfs'', ''/mnt'', mount_dir]"
  let ?h = "\<lparr>h_dirs = map (\<lambda>k. take k (names_of (mount_dir @ ''root''))) [1..<8] @ [[''u'', ''.config''], [''u'']], h_files = [], h_trees = []\<rparr> :: host"
  let ?ops = "[(two_env, Create ''/f'' 0x81A4), (two_env, Put ''/f'' 0 [1, 2, 3])]"
  let ?ops2 = "[(two_env, MakeDir ''/g'' 0x1ED), (two_env, Get ''/f'' 1 2)]" and ?ps = "[(two_env, ''/f'')]"
  let ?m = "[''/f'' \<mapsto> [1, 2, 3]] :: file_map"
  have host: "ready ''/u'' ?argv (sample_random 7) ?h" "is_directory (names_of (mount_dir @ ''root'')) ?h" "low_end (sample_random 7)"
    by (simp_all add: ready_def sample_random_def is_directory_def PATH_MAX_def low_end_def nth_append upt_conv_Cons)
  have st: "storable two_hash ?P" by (simp add: storable_def two_ids nul_free_def)
  have use: "\<forall>(e, x) \<in> set ?ops. store_usable two_hash ?P e (op_path x) \<and> ticking e" "\<forall>(e, x) \<in> set ?ops2. store_usable two_hash ?P e (op_path x)"
      "\<forall>(e, p) \<in> set ?ps. store_usable two_hash ?P e p \<and> p \<in> dom ?m"
    using two_store(2,3) by (simp_all add: ticking_def two_env_def sample_env_def get_time_def)
  have restr: "?m |` (snd ` set ?ps) = ?m" by (auto simp: restrict_map_def fun_eq_iff)
  have legal: "all_legal (map snd ?ops) (\<lambda>_. None)" "creates_new (map snd ?ops) (\<lambda>_. None)" "all_legal (map snd ?ops2) (?m |` (snd ` set ?ps))"
    unfolding restr by (simp_all add: accepts_def overlay_def)
  have spec: "spec_run (map snd ?ops) (\<lambda>_. None) = (?m, [Status 0, Status 3])"
    by (simp add: overlay_def fun_eq_iff)
  have room: "(0 :: u64) < MAX_SIZE" "unat (0 :: u64) + creates (map snd ?ops) < unat MAX_SIZE" "unat (0 :: u64) + creates (map snd ?ops2) < unat MAX_SIZE"
    by (simp_all add: MAX_SIZE_def)
  have ne: "?m \<noteq> (\<lambda>_. None)" by (rule notI, drule fun_cong [of _ _ "''/f''"]) simp
  have arg: "last ?argv = mount_dir" "h_trees ?h = []" "(42 :: nat) < 1000000" "(43 :: nat) < 1000000" "length (sample_random 200) = 16"
    by (simp_all add: sample_random_def)
  obtain h1 h2 rs2 where r: "main_program 0 undefined 42 ''/u'' (sample_random 7) ?argv (requests ?ops @ [(two_env, Destroy)]) ?h
        = Some (Inr (h1, [Status 0, Status 3] @ [Nothing]))"
      "main_program 0 undefined 43 ''/u'' (sample_random 200) ?argv ((two_env, Readdir ''/'') # map (\<lambda>(e, p). (e, Open p)) ?ps @ requests ?ops2) h1
        = Some (Inr (h2, Names (map base_name (sorted_list_of_set {p \<in> dom ?m. in_directory ''/'' p}) @ [''.'', ''..'']) 0
            # replicate (length ?ps) (Status 0) @ rs2))"
      "snd (spec_run (map snd ?ops2) (?m |` (snd ` set ?ps))) = rs2"
    using program_runs_twice [OF host(1) arg host(2) disjI2 [OF host(3)] st room(1,1) use(1) legal(1,2) room(2) spec ne use(3,2) legal(3) room(3),
        of undefined two_env undefined two_env "''/''"]
    by (elim exE conjE) (rule that)
  have "rs2 = [Status 0, Bytes [2, 3] 2]" using r(3) unfolding restr by simp
  moreover have "{p \<in> dom ?m. in_directory ''/'' p} = {''/f''}" by (auto simp: in_directory_def parent_path_def)
  then have "map base_name (sorted_list_of_set {p \<in> dom ?m. in_directory ''/'' p}) = [''f'']" by (simp add: base_name_def)
  ultimately show ?thesis using r(1,2) by (intro exI [of _ h1] exI [of _ h2]) simp
qed

end
