(* ===== verification/Spec2Isabelle.thy ===== *)
theory Spec2Isabelle
  imports Prelude Block Util Inode Tire_Fire Bplus_Index Bplus_Store Bplus_Loader Block_Cache
    Cache_Inv Cache_Write Cache_Flush Fuse_Ops Session Remount
    Startup Replies Index_Scan Bplus_Print Removal File_Store Store_Refine
    Truncation Unsaved Store_Remount Program_Runs
begin

text \<open>
  Verification of ZippyFS, a file system in user space: the callbacks of FUSE keep inodes and
  blocks in a cache, the cache flushes to tree files, each a B+ tree in a memory-mapped file,
  and looks inodes up in all the tree files a directory has.

  \<^bold>\<open>Parts of the program and their theories.\<close>

  \<^item> \<^verbatim>\<open>src/util.h\<close> is theory \<open>Util\<close>: time, CRC-64, checksum lines, hexadecimal names, the
    hash of a path. \<^verbatim>\<open>src/block.h/.cpp\<close> is \<open>Block\<close>: one block of 4096 bytes with its used
    size. \<^verbatim>\<open>src/inode.h/.cpp\<close> is \<open>Inode\<close>: attributes, links and the map from block numbers
    to blocks; blocks are shared between inodes and live in a heap, a list of blocks.
  \<^item> \<^verbatim>\<open>src/tire_fire.h/.cpp\<close> is \<open>Tire_Fire\<close>: the allocator of the mapped file. An allocation
    extends the file and may move the mapping; indices stay, pointers are computed anew.
  \<^item> \<^verbatim>\<open>src/bplus_index.h/.cpp\<close> is \<open>Bplus_Index\<close>: class \<open>BPLUSIndex\<close>, the writer of one tree
    file. The file is a record of typed views, a function from offsets for each kind of cell
    (headers, nodes, inodes, block descriptors, bytes, characters); arrays are allocated once
    and never overlap. \<open>Bplus_Node\<close>, \<open>Bplus_Tree\<close>, \<open>Bplus_Insert\<close>, \<open>Bplus_Search\<close> and
    \<open>Bplus_Store\<close> hold its proofs; \<open>Bplus_Print\<close> is its listing.
  \<^item> \<^verbatim>\<open>src/bplus_index_loader.h/.cpp\<close> is \<open>Bplus_Loader\<close>: the mapped tree files, the search for
    the newest version of an inode over all of them, the children of a directory.
  \<^item> \<^verbatim>\<open>src/block_cache.h/.cpp\<close> is \<open>Block_Cache\<close>: the maps from paths to ids and from ids to
    inodes, the dirty blocks and their times, every operation on them, loading and flushing.
    \<open>Cache_Inv\<close>, \<open>Cache_Write\<close> and \<open>Cache_Flush\<close> hold its proofs.
  \<^item> \<^verbatim>\<open>src/fuse_ops.h/.cpp\<close> and the table of callbacks of \<^verbatim>\<open>src/Main.c\<close> are \<open>Fuse_Ops\<close>: the
    state is the cache and the tree files on disk, a request is a value of a datatype, \<open>handle\<close>
    answers it, \<open>run\<close> answers a sequence. \<open>Session\<close>, \<open>Replies\<close>, \<open>Remount\<close> and \<open>Removal\<close> hold the proofs.
  \<^item> The rest of \<^verbatim>\<open>src/Main.c\<close> is \<open>Startup\<close>: the arguments, the directories and the log file
    on a machine of directories and files, the call that opens the cache, and the program as
    a start followed by a session.
  \<^item> \<open>File_Store\<close> is an abstract specification, a map from paths to bytes, with the laws a
    client relies on as a locale and the client's lemmas; \<open>Store_Refine\<close> interprets it on the
    callbacks. A second locale extends it by the files that are not on disk yet; \<open>Unsaved\<close>
    interprets that one, up to the flush of the unmount, \<open>Store_Remount\<close> goes on with the next
    mount, and \<open>Program_Runs\<close> puts two runs of \<open>main\<close> around the two sessions. \<open>Truncation\<close> has
    the request that leaves the abstract store. \<open>Index_Scan\<close> has a reference for the search in a tree file, the scan of its
    inode list.
  \<^item> \<open>Prelude\<close> has what they share: machine integers of 8, 32 and 64 bits, faults as values,
    C strings and \<open>strcmp\<close>, ordered and unordered C++ maps as association lists with a locale
    for their common laws, arrays written by index.

  Every name of a definition is that of the function in the source, with a prefix where two
  classes use the same name or HOL has it; a comment next to each definition says what else
  it takes. A C++ exception, a failed assertion, a null pointer, an invalid iterator, an access
  to memory that is not mapped or behind an array is a value \<open>Inl\<close> of a result; a loop that
  may not end has the type of options and is \<open>None\<close> when it does not.

  \<^bold>\<open>What the lemmas show.\<close>

  \<^item> Index: adding inodes refines insertion into an ordered map. Nodes in the file represent a
    datatype of trees (\<open>rep\<close>); \<open>shape\<close> is balance and fill, \<open>in_order\<close> the key order. Inserts,
    splits and new roots keep them, nothing overflows what was announced to the constructor,
    and what was written (\<open>written\<close>) is not disturbed by later inserts. The height is
    logarithmic; \<open>find\<close> is right except for separators, where it is wrong.
  \<^item> Loader: a search follows the represented tree, so a file that the index built gives every
    inode back; over several files the newest version wins if each has the path, and the first
    file without it ends the search. Listings are complete below 4 GiB and do not end beyond.
  \<^item> Cache: the invariant \<open>cache_wf\<close> (key orders, no dangling id, no null pointer, no dangling
    block) holds in every reachable state, and operations on cached paths do not fault. The
    loop of \<open>write\<close> is a fold over its rounds: it ends below 16 TiB and not beyond, appends and
    overwrites inside one block correctly, and repeats the first block of the buffer when it
    overwrites several. A flush announces exact totals and writes all inodes with their dirty
    blocks; a rename in front of it loses the contents.
  \<^item> File system: every request keeps the invariant and is answered in its type, with no more
    bytes than the buffer holds; a listing has the newest children that are not deleted; what is
    created, written, flushed at unmount and read after the next mount is what was written,
    through all components; a flush in the middle of a session hides a file until the next
    listing, crashes a reader that goes on, and a removed file is in no listing of the next
    mount. Sessions of creations, openings, reads, and the writes that the program gets right
    refine the abstract store: a write changes its own file only, since the blocks of different
    files stay apart in the heap (\<open>confined\<close>, \<open>separate\<close>). Until the unmount the dirty rows have
    exactly the blocks of the files (\<open>recorded\<close>), so the tree file has every file
    (\<open>saved\<close>), and a second session, after the next mount, refines the abstract store from the
    contents that the first one left. \<open>truncate\<close> only changes the size.
  \<^item> Start: exactly when \<open>main\<close> fails, and that a second start changes nothing.

  \<^bold>\<open>Parameters and bounds.\<close> The hash function of libsodium, the clock, random bytes, the
  addresses the kernel maps files at, and members the program leaves uninitialised are
  arguments. Clocks give a function of the number of the call, so any sequence of times is
  covered. Properties that load data assume times other than 0, which the program uses for
  \<^emph>\<open>not found\<close>, and ids of fewer than 128 characters, the size of a key cell. Offsets of reads
  are below 16 TiB because the block counter has 32 bits. The refinement of the abstract store
  assumes that the paths in use have different ids, which the hash does not give by itself
  (\<open>binary_to_hex\<close> maps different bytes to the same name), and fewer than 65536 new files
  between flushes, so that no write flushes; across a remount each file is made once in the first
  session, since a file that is made again keeps the dirty blocks of the old one. No definition
  takes fuel.

  \<^bold>\<open>Not modelled.\<close> Output to the terminal; failures of system calls and of memory allocation;
  threads (the program has a mutex that nothing locks); tree files that the index did not
  write, or that change while they are mapped; the byte layout of the records in the file,
  whose fields are cells of the typed views; \<^verbatim>\<open>src/sync.py\<close>, which copies files between
  machines; the constructors without arguments of \<open>TireFire\<close> and \<open>BPLUSIndexLoader\<close>, which
  leave every number uninitialised; descriptors, so that \<open>close\<close> has no effect; the declarations
  in the headers, apart from the data they lay out.
\<close>

end
